(* ===== verification/InkPrelude.thy ===== *)
theory InkPrelude
  imports Main "HOL-Library.Word" "HOL-Library.AList"
begin

text \<open>
  Shared vocabulary of the development: the result type of code that can throw, the
  JavaScript values and array operations the components use, and the generic lemmas on
  lists and association lists that carry the component proofs.

  A JavaScript call that may throw is a value of a sum type, \<open>Inl\<close> the error and \<open>Inr\<close> the
  returned value. A JavaScript string is the list of its UTF-16 code units. A JavaScript
  \<open>Map\<close> keeps its insertion order, and setting an existing key keeps the key's position, so
  it is an association list with \<open>AList.update\<close> and \<open>AList.delete\<close>.
\<close>

named_theorems ink_defs \<open>definitions unfolded by the component proofs\<close>

section \<open>Results of code that may throw\<close>

type_synonym ('e, 'a) res = "'e + 'a"

abbreviation Throw :: "'e \<Rightarrow> ('e, 'a) res" where
  "Throw \<equiv> Inl"

abbreviation Ok :: "'a \<Rightarrow> ('e, 'a) res" where
  "Ok \<equiv> Inr"

fun rbind :: "('e, 'a) res \<Rightarrow> ('a \<Rightarrow> ('e, 'b) res) \<Rightarrow> ('e, 'b) res" where
  "rbind (Inl e) f = Inl e"
| "rbind (Inr x) f = f x"

lemma rbind_Ok_iff [simp]: "rbind r f = Inr y \<longleftrightarrow> (\<exists>x. r = Inr x \<and> f x = Inr y)"
  by (cases r) auto

lemma rbind_cong [fundef_cong]:
  "r = r' \<Longrightarrow> (\<And>x. r' = Inr x \<Longrightarrow> f x = f' x) \<Longrightarrow> rbind r f = rbind r' f'"
  by (cases r') auto

lemma rbind_Throw_iff: "rbind r f = Inl e \<longleftrightarrow> r = Inl e \<or> (\<exists>x. r = Inr x \<and> f x = Inl e)"
  by (cases r) auto

fun is_ok :: "('e, 'a) res \<Rightarrow> bool" where
  "is_ok (Inl e) = False"
| "is_ok (Inr x) = True"

lemma is_ok_iff: "is_ok r \<longleftrightarrow> (\<exists>x. r = Inr x)"
  by (cases r) auto

section \<open>Bytes and JavaScript numbers\<close>

type_synonym byte = "8 word"

definition MAX_UINT32 :: nat where
  "MAX_UINT32 = 4294967295"

definition UINT32_BASE :: nat where
  "UINT32_BASE = 4294967296"

definition MAX_SAFE_INTEGER :: int where
  "MAX_SAFE_INTEGER = 9007199254740991"

definition is_safe_integer :: "int \<Rightarrow> bool" where
  "is_safe_integer i \<longleftrightarrow> - MAX_SAFE_INTEGER \<le> i \<and> i \<le> MAX_SAFE_INTEGER"

text \<open>
  A typed-array store keeps the low eight bits of the number, which is what
  \<open>of_nat :: nat \<Rightarrow> 8 word\<close> does. Four stores of \<open>n >>> 24\<close>, \<open>n >>> 16\<close>, \<open>n >>> 8\<close> and
  \<open>n\<close> are the big-endian bytes of \<open>n\<close>.
\<close>

definition be16 :: "nat \<Rightarrow> byte list" where
  "be16 n = [of_nat (n div 2 ^ 8), of_nat n]"

definition be32 :: "nat \<Rightarrow> byte list" where
  "be32 n = [of_nat (n div 2 ^ 24), of_nat (n div 2 ^ 16), of_nat (n div 2 ^ 8), of_nat n]"

fun be_val :: "byte list \<Rightarrow> nat" where
  "be_val [] = 0"
| "be_val (b # bs) = unat b * 256 ^ length bs + be_val bs"

lemma length_be16 [simp]: "length (be16 n) = 2"
  by (simp add: be16_def)

lemma length_be32 [simp]: "length (be32 n) = 4"
  by (simp add: be32_def)

lemma unat_byte_of_nat [simp]: "unat (of_nat n :: byte) = n mod 256"
  by (simp add: unat_of_nat)

lemma unat_byte_less [simp]: "unat (b :: byte) < 256"
proof -
  have "unat b < 2 ^ LENGTH(8)" by (rule unsigned_less)
  then show ?thesis by simp
qed

lemma be_val_be16: "n < 2 ^ 16 \<Longrightarrow> be_val (be16 n) = n"
  by (simp add: be16_def)

lemma be_val_be32:
  assumes "n < 2 ^ 32"
  shows "be_val (be32 n) = n"
proof -
  define a where "a = n div 256"
  define b where "b = a div 256"
  have d: "n div 2 ^ 24 = b div 256" "n div 2 ^ 16 = b" "n div 2 ^ 8 = a"
    by (simp_all add: a_def b_def flip: div_mult2_eq)
  have "b div 256 < 256"
    using assms by (simp add: a_def b_def less_mult_imp_div_less flip: div_mult2_eq)
  then have "be_val (be32 n) = b div 256 * 16777216 + (b mod 256 * 65536 + (a mod 256 * 256 + n mod 256))"
    unfolding be32_def d by simp
  also have "\<dots> = (b div 256 * 256 + b mod 256) * 65536 + (a mod 256 * 256 + n mod 256)"
    by (simp only: distrib_right mult.assoc) 
  also have "\<dots> = (b * 256 + a mod 256) * 256 + n mod 256"
    by simp
  also have "\<dots> = n"
    unfolding b_def by (simp add: a_def)
  finally show ?thesis .
qed

lemma be_val_append: "be_val (xs @ ys) = be_val xs * 256 ^ length ys + be_val ys"
  by (induction xs) (auto simp: algebra_simps power_add)

lemma be_val_bound: "be_val bs < 256 ^ length bs"
proof (induction bs)
  case Nil
  then show ?case by simp
next
  case (Cons b bs)
  have "unat b * 256 ^ length bs + be_val bs < (unat b + 1) * 256 ^ length bs"
    using Cons by simp
  also have "\<dots> \<le> 256 * 256 ^ length bs"
    using unat_byte_less [of b] by (intro mult_right_mono) (simp_all add: Suc_le_eq)
  finally show ?case by simp
qed

lemma be_val_inj: "length xs = length ys \<Longrightarrow> be_val xs = be_val ys \<Longrightarrow> xs = ys"
proof (induction xs ys rule: list_induct2)
  case Nil
  then show ?case by simp
next
  case (Cons x xs y ys)
  let ?k = "256 ^ length xs"
  have bx: "be_val xs < ?k" and b_y: "be_val ys < ?k"
    using be_val_bound [of xs] be_val_bound [of ys] Cons.hyps by simp_all
  have eq: "unat x * ?k + be_val xs = unat y * ?k + be_val ys"
    using Cons.prems Cons.hyps by simp
  have "(unat x * ?k + be_val xs) div ?k = unat x" and "(unat y * ?k + be_val ys) div ?k = unat y"
    using bx b_y by simp_all
  with eq have "unat x = unat y" by simp
  with eq Cons.IH show ?case by (simp add: word_unat_eq_iff)
qed

lemma be32_be_val: "length bs = 4 \<Longrightarrow> be32 (be_val bs) = bs"
  using be_val_bound [of bs] by (intro be_val_inj) (simp_all add: be_val_be32)

lemma length_4_conv: "length bs = 4 \<longleftrightarrow> (\<exists>a b c d. bs = [a, b, c, d])"
  by (auto simp: numeral_eq_Suc length_Suc_conv)

lemma be_val_4: "length bs = 4 \<Longrightarrow>
    be_val bs = unat (bs ! 0) * 16777216 + unat (bs ! 1) * 65536 + unat (bs ! 2) * 256 + unat (bs ! 3)"
  by (auto simp: length_4_conv)

text \<open>
  A JavaScript number: \<open>NInt i\<close> for the integer-valued ones, \<open>NDbl w\<close> with its 64 bits for
  the others (fractions, NaN, the infinities and negative zero).
\<close>

datatype jsnum = NInt int | NDbl "64 word"

fun num_is_safe :: "jsnum \<Rightarrow> bool" where
  "num_is_safe (NInt i) = is_safe_integer i"
| "num_is_safe (NDbl w) = False"

section \<open>Arrays\<close>

text \<open>\<open>dst.set(src, off)\<close> of a typed array, for \<open>off + src.length \<le> dst.length\<close>.\<close>

definition set_at :: "'a list \<Rightarrow> nat \<Rightarrow> 'a list \<Rightarrow> 'a list" where
  "set_at dst off src = take off dst @ src @ drop (off + length src) dst"

lemma length_set_at [simp]: "off + length src \<le> length dst \<Longrightarrow> length (set_at dst off src) = length dst"
  by (simp add: set_at_def)

lemma take_set_at: "off + length src \<le> length dst \<Longrightarrow>
    take (off + length src) (set_at dst off src) = take off dst @ src"
  by (simp add: set_at_def)

lemma set_at_full: "length src = length dst \<Longrightarrow> set_at dst 0 src = src"
  by (simp add: set_at_def)

section \<open>List lemmas\<close>

lemma take_append_drop_update:
  "n + length ys \<le> length xs \<Longrightarrow>
     take (n + length ys) (take n xs @ ys @ drop (n + length ys) xs) = take n xs @ ys"
  by simp

lemma take_eq_Nil_conv: "take n xs = [] \<longleftrightarrow> n = 0 \<or> xs = []"
  by auto

end
