(* ===== verification/Framing.thy ===== *)
theory Framing
  imports InkPrelude
begin

text \<open>
  \<open>packages/protocol/src/framing.ts\<close>: length-prefixed frames on a byte stream. The encoder
  prefixes a payload with its 32-bit big-endian length. The incremental decoder keeps a
  partly read header, then fills payload blocks of at most 64 KiB; a block is referenced
  twice in the source (\<open>payloadBlocks\<close> and \<open>currentPayloadBlock\<close>), here the second reference
  is the block's index. The two loops of \<open>push\<close> may only stop because they consume input, so
  they are partial functions into \<open>option\<close>, shown total on every state the decoder can reach.

  The specification is \<open>parse_frames\<close>, which splits a whole buffer; the decoder refines it
  under the abstraction \<open>fd_pending\<close>, the bytes received and not yet returned.
\<close>

definition FRAME_HEADER_LENGTH :: nat where
  "FRAME_HEADER_LENGTH = 4"

definition PAYLOAD_BLOCK_SIZE :: nat where
  "PAYLOAD_BLOCK_SIZE = 65536"

definition DEFAULT_MAX_FRAME_LENGTH :: nat where
  "DEFAULT_MAX_FRAME_LENGTH = 16777216"

datatype frame_error =
    MaxFrameLengthRange
  | PayloadRange
  | IncompletePrefix
  | FrameTooLong nat nat
  | NotExactlyOneFrame
  | DecoderHasEnded
  | DecoderHasFailed
  | TruncatedFrame

definition resolveMaxFrameLength :: "jsnum option \<Rightarrow> (frame_error, nat) res" where
  "resolveMaxFrameLength options =
     (let v = (case options of None \<Rightarrow> NInt (int DEFAULT_MAX_FRAME_LENGTH) | Some v \<Rightarrow> v)
      in case v of
           NInt i \<Rightarrow> (if \<not> is_safe_integer i \<or> i < 0 \<or> i > int MAX_UINT32
                     then Throw MaxFrameLengthRange else Ok (nat i))
         | NDbl w \<Rightarrow> Throw MaxFrameLengthRange)"

definition encodeFrame :: "byte list \<Rightarrow> (frame_error, byte list) res" where
  "encodeFrame payload =
     (if length payload > MAX_UINT32 then Throw PayloadRange
      else Ok (set_at
             ([of_nat (length payload div 2 ^ 24), of_nat (length payload div 2 ^ 16),
               of_nat (length payload div 2 ^ 8), of_nat (length payload)]
              @ replicate (length payload) 0)
             FRAME_HEADER_LENGTH payload))"

definition assertCompleteFrame :: "byte list \<Rightarrow> jsnum option \<Rightarrow> (frame_error, unit) res" where
  "assertCompleteFrame frame options =
     (if length frame < FRAME_HEADER_LENGTH then Throw IncompletePrefix
      else let len = unat (frame ! 0) * 16777216 + unat (frame ! 1) * 65536
                     + unat (frame ! 2) * 256 + unat (frame ! 3)
           in rbind (resolveMaxFrameLength options) (\<lambda>maxFrameLength.
             if len > maxFrameLength then Throw (FrameTooLong len maxFrameLength)
             else if length frame \<noteq> FRAME_HEADER_LENGTH + len then Throw NotExactlyOneFrame
             else Ok ()))"

subsection \<open>The incremental decoder\<close>

datatype decoder_state = DOpen | DEnded | DFailed

record frame_decoder =
  fd_header :: "byte list"
  fd_headerLength :: nat
  fd_maxFrameLength :: nat
  fd_payloadBlocks :: "byte list list"
  fd_currentPayloadBlock :: "nat option"
  fd_currentPayloadBlockLength :: nat
  fd_expectedPayloadLength :: "nat option"
  fd_payloadLength :: nat
  fd_state :: decoder_state

definition newFrameDecoder :: "jsnum option \<Rightarrow> (frame_error, frame_decoder) res" where
  "newFrameDecoder options =
     rbind (resolveMaxFrameLength options) (\<lambda>m. Ok
       \<lparr>fd_header = replicate FRAME_HEADER_LENGTH 0, fd_headerLength = 0, fd_maxFrameLength = m,
        fd_payloadBlocks = [], fd_currentPayloadBlock = None, fd_currentPayloadBlockLength = 0,
        fd_expectedPayloadLength = None, fd_payloadLength = 0, fd_state = DOpen\<rparr>)"

text \<open>\<open>fail\<close> resets the reader before it throws; the error itself is returned beside it.\<close>

definition fd_fail :: "frame_decoder \<Rightarrow> frame_decoder" where
  "fd_fail d = d\<lparr>fd_state := DFailed, fd_headerLength := 0, fd_payloadBlocks := [],
     fd_currentPayloadBlock := None, fd_currentPayloadBlockLength := 0,
     fd_expectedPayloadLength := None, fd_payloadLength := 0\<rparr>"

datatype header_stage =
    HFail nat frame_decoder
  | HMore "byte list" frame_decoder
  | HEmpty "byte list" frame_decoder
  | HReady nat "byte list" frame_decoder

text \<open>The header part of one round of the outer loop, on the bytes of the chunk still unread.\<close>

definition read_header :: "byte list \<Rightarrow> frame_decoder \<Rightarrow> header_stage" where
  "read_header rest d =
     (case fd_expectedPayloadLength d of
        Some n \<Rightarrow> HReady n rest d
      | None \<Rightarrow>
          (let headerBytes = min (FRAME_HEADER_LENGTH - fd_headerLength d) (length rest);
               d1 = d\<lparr>fd_header := set_at (fd_header d) (fd_headerLength d) (take headerBytes rest),
                      fd_headerLength := fd_headerLength d + headerBytes\<rparr>;
               rest1 = drop headerBytes rest
           in if fd_headerLength d1 < FRAME_HEADER_LENGTH then HMore rest1 d1
              else let frameLength = unat (fd_header d1 ! 0) * 16777216 + unat (fd_header d1 ! 1) * 65536
                         + unat (fd_header d1 ! 2) * 256 + unat (fd_header d1 ! 3);
                       d2 = d1\<lparr>fd_headerLength := 0\<rparr>
                   in if frameLength > fd_maxFrameLength d2 then HFail frameLength (fd_fail d2)
                      else if frameLength = 0 then HEmpty rest1 d2
                      else HReady frameLength rest1
                        (d2\<lparr>fd_expectedPayloadLength := Some frameLength, fd_payloadBlocks := [],
                            fd_currentPayloadBlock := None, fd_currentPayloadBlockLength := 0,
                            fd_payloadLength := 0\<rparr>)))"

text \<open>The payload loop: allocate a block when there is none or it is full, then copy.\<close>

definition next_block :: "nat \<Rightarrow> frame_decoder \<Rightarrow> nat \<times> frame_decoder" where
  "next_block expected d =
     (let alloc = (length (fd_payloadBlocks d),
                   d\<lparr>fd_payloadBlocks := fd_payloadBlocks d
                        @ [replicate (min PAYLOAD_BLOCK_SIZE (expected - fd_payloadLength d)) 0],
                      fd_currentPayloadBlock := Some (length (fd_payloadBlocks d)),
                      fd_currentPayloadBlockLength := 0\<rparr>)
      in case fd_currentPayloadBlock d of
           None \<Rightarrow> alloc
         | Some i \<Rightarrow> (if fd_currentPayloadBlockLength d = length (fd_payloadBlocks d ! i) then alloc
                     else (i, d)))"

definition fill_step :: "nat \<Rightarrow> byte list \<Rightarrow> frame_decoder \<Rightarrow> byte list \<times> frame_decoder" where
  "fill_step expected rest d =
     (let (i, d1) = next_block expected d;
          block = fd_payloadBlocks d1 ! i;
          payloadBytes = min (length block - fd_currentPayloadBlockLength d1) (length rest)
      in (drop payloadBytes rest,
          d1\<lparr>fd_payloadBlocks := (fd_payloadBlocks d1)
                 [i := set_at block (fd_currentPayloadBlockLength d1) (take payloadBytes rest)],
             fd_currentPayloadBlockLength := fd_currentPayloadBlockLength d1 + payloadBytes,
             fd_payloadLength := fd_payloadLength d1 + payloadBytes\<rparr>))"

partial_function (option) fill_loop ::
  "nat \<Rightarrow> byte list \<Rightarrow> frame_decoder \<Rightarrow> (byte list \<times> frame_decoder) option" where
  "fill_loop expected rest d =
     (if rest \<noteq> [] \<and> fd_payloadLength d < expected
      then fill_loop expected (fst (fill_step expected rest d)) (snd (fill_step expected rest d))
      else Some (rest, d))"

text \<open>Copies the blocks one after the other into one array of the expected length.\<close>

definition assemble :: "nat \<Rightarrow> byte list list \<Rightarrow> byte list" where
  "assemble expected blocks =
     fst (foldl (\<lambda>(payload, off) b. (set_at payload off b, off + length b))
            (replicate expected 0, 0) blocks)"

definition finish_payload :: "nat \<Rightarrow> frame_decoder \<Rightarrow> byte list list \<Rightarrow> frame_decoder \<times> byte list list" where
  "finish_payload expected d frames =
     (if fd_payloadLength d = expected
      then (d\<lparr>fd_payloadBlocks := [], fd_currentPayloadBlock := None, fd_currentPayloadBlockLength := 0,
              fd_expectedPayloadLength := None, fd_payloadLength := 0\<rparr>,
            frames @ [if length (fd_payloadBlocks d) = 1 then fd_payloadBlocks d ! 0
                      else assemble expected (fd_payloadBlocks d)])
      else (d, frames))"

partial_function (option) push_loop ::
  "byte list \<Rightarrow> frame_decoder \<Rightarrow> byte list list \<Rightarrow>
     ((frame_error, byte list list) res \<times> frame_decoder) option" where
  "push_loop rest d frames =
     (if rest = [] then Some (Ok frames, d)
      else case read_header rest d of
             HFail n d1 \<Rightarrow> Some (Throw (FrameTooLong n (fd_maxFrameLength d1)), d1)
           | HMore rest1 d1 \<Rightarrow> push_loop rest1 d1 frames
           | HEmpty rest1 d1 \<Rightarrow> push_loop rest1 d1 (frames @ [[]])
           | HReady expected rest1 d1 \<Rightarrow>
               Option.bind (fill_loop expected rest1 d1) (\<lambda>(rest2, d2).
                 push_loop rest2 (fst (finish_payload expected d2 frames))
                   (snd (finish_payload expected d2 frames))))"

definition fd_push ::
  "frame_decoder \<Rightarrow> byte list \<Rightarrow> ((frame_error, byte list list) res \<times> frame_decoder) option" where
  "fd_push d chunk =
     (case fd_state d of
        DEnded \<Rightarrow> Some (Throw DecoderHasEnded, d)
      | DFailed \<Rightarrow> Some (Throw DecoderHasFailed, d)
      | DOpen \<Rightarrow> push_loop chunk d [])"

definition fd_end :: "frame_decoder \<Rightarrow> (frame_error, unit) res \<times> frame_decoder" where
  "fd_end d =
     (case fd_state d of
        DEnded \<Rightarrow> (Throw DecoderHasEnded, d)
      | DFailed \<Rightarrow> (Throw DecoderHasFailed, d)
      | DOpen \<Rightarrow>
          (if fd_headerLength d \<noteq> 0 \<or> fd_expectedPayloadLength d \<noteq> None
           then (Throw TruncatedFrame, fd_fail d)
           else (Ok (), d\<lparr>fd_state := DEnded\<rparr>)))"

section \<open>Specification and invariant\<close>

text \<open>
  \<open>parse_frames m buf\<close> splits a buffer into the payloads of its complete frames and the
  incomplete rest, or reports the first announced length above \<open>m\<close>.
\<close>

function parse_frames :: "nat \<Rightarrow> byte list \<Rightarrow> nat + byte list list \<times> byte list" where
  "parse_frames m buf =
     (if length buf < 4 then Inr ([], buf)
      else if be_val (take 4 buf) > m then Inl (be_val (take 4 buf))
      else if length buf < 4 + be_val (take 4 buf) then Inr ([], buf)
      else case parse_frames m (drop (4 + be_val (take 4 buf)) buf) of
             Inl e \<Rightarrow> Inl e
           | Inr (fs, r) \<Rightarrow> Inr (take (be_val (take 4 buf)) (drop 4 buf) # fs, r))"
  by pat_completeness auto
termination
  by (relation "measure (\<lambda>(m, buf). length buf)") auto

declare parse_frames.simps [simp del]

definition fd_filled :: "frame_decoder \<Rightarrow> byte list" where
  "fd_filled d = take (fd_payloadLength d) (concat (fd_payloadBlocks d))"

definition fd_pending :: "frame_decoder \<Rightarrow> byte list" where
  "fd_pending d = (case fd_expectedPayloadLength d of
     None \<Rightarrow> take (fd_headerLength d) (fd_header d)
   | Some n \<Rightarrow> be32 n @ fd_filled d)"

text \<open>
  The blocks already allocated fit in the expected length, the current block is the last
  one, and the bytes filled so far are a prefix of their concatenation.
\<close>

definition blocks_ok :: "nat \<Rightarrow> frame_decoder \<Rightarrow> bool" where
  "blocks_ok n d \<longleftrightarrow> sum_list (map length (fd_payloadBlocks d)) \<le> n \<and>
     (case fd_currentPayloadBlock d of
        None \<Rightarrow> fd_payloadBlocks d = [] \<and> fd_payloadLength d = 0
      | Some i \<Rightarrow> length (fd_payloadBlocks d) = Suc i \<and>
          fd_currentPayloadBlockLength d \<le> length (fd_payloadBlocks d ! i) \<and>
          sum_list (map length (butlast (fd_payloadBlocks d))) + fd_currentPayloadBlockLength d
            = fd_payloadLength d)"

definition fd_inv :: "frame_decoder \<Rightarrow> bool" where
  "fd_inv d \<longleftrightarrow> fd_state d = DOpen \<and> length (fd_header d) = 4 \<and> fd_headerLength d < 4 \<and>
     (case fd_expectedPayloadLength d of
        None \<Rightarrow> True
      | Some n \<Rightarrow> fd_headerLength d = 0 \<and> 0 < n \<and> n \<le> fd_maxFrameLength d \<and> n < 2 ^ 32 \<and>
                  fd_payloadLength d < n \<and> blocks_ok n d)"

lemma blocks_ok_le: "blocks_ok n d \<Longrightarrow> fd_payloadLength d \<le> sum_list (map length (fd_payloadBlocks d))"
proof (cases "fd_currentPayloadBlock d")
  case None
  assume "blocks_ok n d"
  with None show ?thesis by (simp add: blocks_ok_def)
next
  case (Some i)
  assume ok: "blocks_ok n d"
  with Some have "fd_payloadBlocks d \<noteq> []" by (auto simp: blocks_ok_def)
  then have split: "fd_payloadBlocks d = butlast (fd_payloadBlocks d) @ [last (fd_payloadBlocks d)]"
    by simp
  have "fd_payloadBlocks d ! i = last (fd_payloadBlocks d)"
    using ok Some \<open>fd_payloadBlocks d \<noteq> []\<close> by (simp add: blocks_ok_def last_conv_nth)
  with ok Some show ?thesis
    by (subst split) (auto simp: blocks_ok_def)
qed

lemma length_fd_filled: "blocks_ok n d \<Longrightarrow> length (fd_filled d) = fd_payloadLength d"
  using blocks_ok_le [of n d] by (simp add: fd_filled_def length_concat)

section \<open>The payload loop\<close>

lemma next_block_ok:
  assumes ok: "blocks_ok n d" and lt: "fd_payloadLength d < n"
    and nb: "next_block n d = (i, d1)"
  shows "blocks_ok n d1" "fd_currentPayloadBlock d1 = Some i"
    "fd_currentPayloadBlockLength d1 < length (fd_payloadBlocks d1 ! i)"
    "fd_payloadLength d1 = fd_payloadLength d" "fd_filled d1 = fd_filled d"
    "fd_header d1 = fd_header d" "fd_headerLength d1 = fd_headerLength d"
    "fd_maxFrameLength d1 = fd_maxFrameLength d" "fd_state d1 = fd_state d"
    "fd_expectedPayloadLength d1 = fd_expectedPayloadLength d"
proof -
  let ?new = "replicate (min PAYLOAD_BLOCK_SIZE (n - fd_payloadLength d)) (0 :: byte)"
  let ?a = "d\<lparr>fd_payloadBlocks := fd_payloadBlocks d @ [?new],
              fd_currentPayloadBlock := Some (length (fd_payloadBlocks d)),
              fd_currentPayloadBlockLength := 0\<rparr>"
  have full: "sum_list (map length (fd_payloadBlocks d)) = fd_payloadLength d"
    if "fd_currentPayloadBlock d = None \<or>
        fd_currentPayloadBlockLength d = length (fd_payloadBlocks d ! the (fd_currentPayloadBlock d))"
  proof (cases "fd_currentPayloadBlock d")
    case None
    with ok show ?thesis by (simp add: blocks_ok_def)
  next
    case (Some j)
    with ok have ne: "fd_payloadBlocks d \<noteq> []" by (auto simp: blocks_ok_def)
    then have split: "fd_payloadBlocks d = butlast (fd_payloadBlocks d) @ [last (fd_payloadBlocks d)]"
      by simp
    have "fd_payloadBlocks d ! j = last (fd_payloadBlocks d)"
      using ok Some ne by (simp add: blocks_ok_def last_conv_nth)
    with ok Some that show ?thesis
      by (subst split) (auto simp: blocks_ok_def)
  qed
  have alloc_ok: "blocks_ok n ?a"
    if "fd_currentPayloadBlock d = None \<or>
        fd_currentPayloadBlockLength d = length (fd_payloadBlocks d ! the (fd_currentPayloadBlock d))"
    using full [OF that] lt by (simp add: blocks_ok_def)
  have cases: "(i, d1) = (length (fd_payloadBlocks d), ?a) \<and>
        (fd_currentPayloadBlock d = None \<or>
         fd_currentPayloadBlockLength d = length (fd_payloadBlocks d ! the (fd_currentPayloadBlock d)))
     \<or> d1 = d \<and> fd_currentPayloadBlock d = Some i \<and>
        fd_currentPayloadBlockLength d < length (fd_payloadBlocks d ! i)"
    using nb ok by (fastforce simp: next_block_def blocks_ok_def Let_def split: option.splits if_splits)
  have filled_alloc: "fd_filled ?a = fd_filled d"
    using blocks_ok_le [OF ok] by (simp add: fd_filled_def length_concat)
  show "blocks_ok n d1" using cases alloc_ok ok by auto
  show "fd_currentPayloadBlock d1 = Some i" using cases by auto
  show "fd_currentPayloadBlockLength d1 < length (fd_payloadBlocks d1 ! i)"
    using cases lt by (auto simp: PAYLOAD_BLOCK_SIZE_def)
  show "fd_filled d1 = fd_filled d" using cases filled_alloc by auto
  show "fd_payloadLength d1 = fd_payloadLength d" "fd_header d1 = fd_header d"
    "fd_headerLength d1 = fd_headerLength d" "fd_maxFrameLength d1 = fd_maxFrameLength d"
    "fd_state d1 = fd_state d" "fd_expectedPayloadLength d1 = fd_expectedPayloadLength d"
    using cases by auto
qed

text \<open>One round of the payload loop consumes at least one byte and appends what it consumes.\<close>

lemma fill_step_ok:
  assumes ok: "blocks_ok n d" and lt: "fd_payloadLength d < n" and ne: "rest \<noteq> []"
    and fs: "fill_step n rest d = (rest', d')"
  shows "\<exists>k. 0 < k \<and> k \<le> length rest \<and> rest' = drop k rest \<and> fd_filled d' = fd_filled d @ take k rest \<and>
    fd_payloadLength d' = fd_payloadLength d + k"
    "blocks_ok n d'" "fd_header d' = fd_header d" "fd_headerLength d' = fd_headerLength d"
    "fd_maxFrameLength d' = fd_maxFrameLength d" "fd_state d' = fd_state d"
    "fd_expectedPayloadLength d' = fd_expectedPayloadLength d"
proof -
  obtain i d1 where nb: "next_block n d = (i, d1)" by fastforce
  note d1 = next_block_ok [OF ok lt nb]
  let ?bs = "fd_payloadBlocks d1" and ?c = "fd_currentPayloadBlockLength d1"
  define k where "k = min (length (?bs ! i) - ?c) (length rest)"
  define b where "b = set_at (?bs ! i) ?c (take k rest)"
  have k: "0 < k" "k \<le> length rest" "?c + k \<le> length (?bs ! i)"
    using d1(3) ne by (auto simp: k_def)
  have len: "length ?bs = Suc i" using d1(1,2) by (simp add: blocks_ok_def)
  then have ne': "?bs \<noteq> []" by auto
  then have lasti: "?bs ! i = last ?bs" using len by (simp add: last_conv_nth)
  have split: "?bs = butlast ?bs @ [?bs ! i]" using ne' lasti by simp
  have upd: "?bs[i := b] = butlast ?bs @ [b]"
    using len by (subst split) (simp add: list_update_append)
  have blen: "length b = length (?bs ! i)" using k by (simp add: b_def)
  have d': "rest' = drop k rest" "d' = d1\<lparr>fd_payloadBlocks := ?bs[i := b],
      fd_currentPayloadBlockLength := ?c + k, fd_payloadLength := fd_payloadLength d1 + k\<rparr>"
    using fs by (simp_all add: fill_step_def nb k_def b_def Let_def)
  have pl: "fd_payloadLength d1 = length (concat (butlast ?bs)) + ?c"
    using d1(1,2) by (simp add: blocks_ok_def length_concat)
  have tb: "take (?c + k) b = take ?c (?bs ! i) @ take k rest"
    using take_set_at [of ?c "take k rest" "?bs ! i"] k by (simp add: b_def min_absorb2)
  have "concat ?bs = concat (butlast ?bs) @ ?bs ! i"
    using arg_cong [where f = concat, OF split] by simp
  then have "fd_filled d1 = concat (butlast ?bs) @ take ?c (?bs ! i)"
    unfolding fd_filled_def pl by simp
  moreover have "fd_filled d' = concat (butlast ?bs) @ take (?c + k) b"
    unfolding fd_filled_def d' using pl by (simp add: upd)
  ultimately have "fd_filled d' = fd_filled d @ take k rest"
    using tb d1(5) by simp
  with k d' d1(4) show "\<exists>k. 0 < k \<and> k \<le> length rest \<and> rest' = drop k rest \<and>
      fd_filled d' = fd_filled d @ take k rest \<and> fd_payloadLength d' = fd_payloadLength d + k"
    by auto
  have "sum_list (map length (butlast ?bs @ [?bs ! i])) \<le> n"
    using d1(1) split by (simp add: blocks_ok_def)
  then show "blocks_ok n d'"
    using d1(1,2) k len blen by (simp add: d' upd blocks_ok_def nth_append)
  show "fd_header d' = fd_header d" "fd_headerLength d' = fd_headerLength d"
    "fd_maxFrameLength d' = fd_maxFrameLength d" "fd_state d' = fd_state d"
    "fd_expectedPayloadLength d' = fd_expectedPayloadLength d"
    using d1 by (simp_all add: d')
qed

lemma fill_loop_ok:
  assumes "blocks_ok n d" "fd_payloadLength d \<le> n"
  shows "\<exists>d'. let k = min (n - fd_payloadLength d) (length rest) in
    fill_loop n rest d = Some (drop k rest, d') \<and> blocks_ok n d' \<and>
    fd_filled d' = fd_filled d @ take k rest \<and> fd_payloadLength d' = fd_payloadLength d + k \<and>
    fd_header d' = fd_header d \<and> fd_headerLength d' = fd_headerLength d \<and>
    fd_maxFrameLength d' = fd_maxFrameLength d \<and> fd_state d' = fd_state d \<and>
    fd_expectedPayloadLength d' = fd_expectedPayloadLength d"
  using assms
proof (induction "length rest" arbitrary: rest d rule: less_induct)
  case less
  show ?case
  proof (cases "rest \<noteq> [] \<and> fd_payloadLength d < n")
    case False
    then have k: "min (n - fd_payloadLength d) (length rest) = 0" using less.prems by auto
    show ?thesis
      unfolding k by (subst fill_loop.simps) (use False less.prems in auto)
  next
    case True
    obtain rest1 d1 where fs: "fill_step n rest d = (rest1, d1)" by fastforce
    from True have lt: "fd_payloadLength d < n" and ne: "rest \<noteq> []" by auto
    note s = fill_step_ok [OF less.prems(1) lt ne fs]
    then obtain k1 where k1: "0 < k1" "k1 \<le> length rest" "rest1 = drop k1 rest"
      "fd_filled d1 = fd_filled d @ take k1 rest" "fd_payloadLength d1 = fd_payloadLength d + k1"
      by blast
    have "fd_payloadLength d1 \<le> n"
      using blocks_ok_le [OF s(2)] s(2) by (simp add: blocks_ok_def)
    moreover have "length rest1 < length rest" using k1 ne by simp
    ultimately obtain d' where ih:
      "fill_loop n rest1 d1 = Some (drop (min (n - fd_payloadLength d1) (length rest1)) rest1, d')"
      "blocks_ok n d'" "fd_filled d' = fd_filled d1 @ take (min (n - fd_payloadLength d1) (length rest1)) rest1"
      "fd_payloadLength d' = fd_payloadLength d1 + min (n - fd_payloadLength d1) (length rest1)"
      "fd_header d' = fd_header d1" "fd_headerLength d' = fd_headerLength d1"
      "fd_maxFrameLength d' = fd_maxFrameLength d1" "fd_state d' = fd_state d1"
      "fd_expectedPayloadLength d' = fd_expectedPayloadLength d1"
      using less.hyps [of rest1 d1] s(2) by (auto simp: Let_def)
    have k: "min (n - fd_payloadLength d) (length rest) = k1 + min (n - fd_payloadLength d1) (length rest1)"
      using k1 \<open>fd_payloadLength d1 \<le> n\<close> by simp
    define k2 where "k2 = min (n - fd_payloadLength d1) (length rest1)"
    have "fill_loop n rest d = fill_loop n rest1 d1"
      using True fs by (subst fill_loop.simps) simp
    moreover have "drop (k1 + k2) rest = drop k2 rest1" "take (k1 + k2) rest = take k1 rest @ take k2 rest1"
      by (simp_all add: k1(3) take_add add.commute)
    ultimately show ?thesis
      unfolding k [folded k2_def] Let_def
      using ih [folded k2_def] k1(4,5) s by (intro exI [of _ d']) simp
  qed
qed

section \<open>The decoder refines the specification\<close>

lemma assemble_fold:
  "length pre + length (concat bs) + length rest = length (pre @ zs) \<Longrightarrow>
   length zs = length (concat bs) + length rest \<Longrightarrow> drop (length (concat bs)) zs = rest \<Longrightarrow>
   fst (foldl (\<lambda>(p, off) b. (set_at p off b, off + length b)) (pre @ zs, length pre) bs)
     = pre @ concat bs @ rest"
proof (induction bs arbitrary: pre zs)
  case Nil
  then show ?case by simp
next
  case (Cons b bs)
  have "set_at (pre @ zs) (length pre) b = (pre @ b) @ drop (length b) zs"
    using Cons.prems by (simp add: set_at_def)
  then show ?case
    using Cons.IH [of "pre @ b" "drop (length b) zs"] Cons.prems by (simp add: add.commute)
qed

lemma assemble_concat: "length (concat bs) = n \<Longrightarrow> assemble n bs = concat bs"
  using assemble_fold [of "[]" bs "[]" "replicate n 0"] by (simp add: assemble_def)

lemma blocks_ok_complete:
  assumes "blocks_ok n d" "fd_payloadLength d = n"
  shows "concat (fd_payloadBlocks d) = fd_filled d"
proof -
  have "length (concat (fd_payloadBlocks d)) = n"
    using blocks_ok_le [OF assms(1)] assms by (simp add: blocks_ok_def length_concat)
  then show ?thesis using assms(2) by (simp add: fd_filled_def)
qed

lemma finish_payload_complete:
  assumes "blocks_ok n d" "fd_payloadLength d = n"
  shows "finish_payload n d frames =
    (d\<lparr>fd_payloadBlocks := [], fd_currentPayloadBlock := None, fd_currentPayloadBlockLength := 0,
       fd_expectedPayloadLength := None, fd_payloadLength := 0\<rparr>, frames @ [fd_filled d])"
proof -
  have c: "concat (fd_payloadBlocks d) = fd_filled d" by (rule blocks_ok_complete [OF assms])
  have one: "fd_payloadBlocks d ! 0 = concat (fd_payloadBlocks d)" if "length (fd_payloadBlocks d) = 1"
    using that by (auto simp: length_Suc_conv)
  have "length (concat (fd_payloadBlocks d)) = n"
    using c length_fd_filled [OF assms(1)] assms(2) by simp
  then show ?thesis
    using assms(2) one by (simp add: finish_payload_def assemble_concat c)
qed

text \<open>What a call of the outer loop promises, on the bytes pending before it and its own.\<close>

definition push_post ::
  "nat \<Rightarrow> byte list \<Rightarrow> byte list list \<Rightarrow> (frame_error, byte list list) res \<times> frame_decoder \<Rightarrow> bool" where
  "push_post m buf frames out \<longleftrightarrow> fd_maxFrameLength (snd out) = m \<and>
     (case parse_frames m buf of
        Inl n \<Rightarrow> fst out = Throw (FrameTooLong n m) \<and> fd_state (snd out) = DFailed
      | Inr (fs, r) \<Rightarrow> fst out = Ok (frames @ fs) \<and> fd_inv (snd out) \<and> fd_pending (snd out) = r)"

lemma parse_frames_incomplete:
  "length buf < 4 \<Longrightarrow> parse_frames m buf = Inr ([], buf)"
  by (simp add: parse_frames.simps)

lemma parse_frames_partial:
  "n \<le> m \<Longrightarrow> n < 2 ^ 32 \<Longrightarrow> length bs < n \<Longrightarrow> parse_frames m (be32 n @ bs) = Inr ([], be32 n @ bs)"
  by (simp add: parse_frames.simps be_val_be32)

lemma parse_frames_frame:
  "n \<le> m \<Longrightarrow> n < 2 ^ 32 \<Longrightarrow> length bs = n \<Longrightarrow>
   parse_frames m (be32 n @ bs @ rest) =
     (case parse_frames m rest of Inl e \<Rightarrow> Inl e | Inr (fs, r) \<Rightarrow> Inr (bs # fs, r))"
  by (subst parse_frames.simps) (auto simp: be_val_be32 split: sum.splits)

lemma parse_frames_pending:
  assumes "fd_inv d"
  shows "parse_frames (fd_maxFrameLength d) (fd_pending d) = Inr ([], fd_pending d)"
proof (cases "fd_expectedPayloadLength d")
  case None
  with assms show ?thesis
    by (simp add: fd_inv_def fd_pending_def parse_frames_incomplete)
next
  case (Some n)
  with assms length_fd_filled [of n d] show ?thesis
    by (simp add: fd_inv_def fd_pending_def parse_frames_partial)
qed

lemma push_loop_Nil: "fd_inv d \<Longrightarrow> push_loop [] d frames = Some (Ok frames, d) \<and>
    push_post (fd_maxFrameLength d) (fd_pending d) frames (Ok frames, d)"
  by (subst push_loop.simps) (simp add: push_post_def parse_frames_pending)

text \<open>The payload part of a round, given the result for every shorter remainder.\<close>

lemma push_payload:
  assumes inv: "fd_inv d" and ex: "fd_expectedPayloadLength d = Some n"
    and IH: "\<And>rest' d' frames'. length rest' < length rest \<Longrightarrow> fd_inv d' \<Longrightarrow>
      \<exists>out. push_loop rest' d' frames' = Some out \<and>
        push_post (fd_maxFrameLength d') (fd_pending d' @ rest') frames' out"
  shows "\<exists>out. Option.bind (fill_loop n rest d) (\<lambda>(rest2, d2).
       push_loop rest2 (fst (finish_payload n d2 frames)) (snd (finish_payload n d2 frames))) = Some out \<and>
     push_post (fd_maxFrameLength d) (fd_pending d @ rest) frames out"
proof -
  have n: "0 < n" "n \<le> fd_maxFrameLength d" "n < 2 ^ 32" "fd_payloadLength d < n" "blocks_ok n d"
    "fd_headerLength d = 0" "length (fd_header d) = 4" "fd_state d = DOpen"
    using inv ex by (auto simp: fd_inv_def)
  define k where "k = min (n - fd_payloadLength d) (length rest)"
  obtain d2 where f: "fill_loop n rest d = Some (drop k rest, d2)" "blocks_ok n d2"
    "fd_filled d2 = fd_filled d @ take k rest" "fd_payloadLength d2 = fd_payloadLength d + k"
    "fd_header d2 = fd_header d" "fd_headerLength d2 = fd_headerLength d"
    "fd_maxFrameLength d2 = fd_maxFrameLength d" "fd_state d2 = fd_state d"
    "fd_expectedPayloadLength d2 = fd_expectedPayloadLength d"
    using fill_loop_ok [OF n(5), of rest] n(4) by (auto simp: k_def Let_def)
  have pend: "fd_pending d = be32 n @ fd_filled d" by (simp add: fd_pending_def ex)
  show ?thesis
  proof (cases "fd_payloadLength d2 = n")
    case True
    let ?d3 = "d2\<lparr>fd_payloadBlocks := [], fd_currentPayloadBlock := None,
      fd_currentPayloadBlockLength := 0, fd_expectedPayloadLength := None, fd_payloadLength := 0\<rparr>"
    have fin: "finish_payload n d2 frames = (?d3, frames @ [fd_filled d2])"
      by (rule finish_payload_complete [OF f(2) True])
    have inv3: "fd_inv ?d3" and p3: "fd_pending ?d3 = []" and m3: "fd_maxFrameLength ?d3 = fd_maxFrameLength d"
      using n f by (simp_all add: fd_inv_def fd_pending_def)
    have "length (drop k rest) < length rest" using True n(4) f(4) by (auto simp: k_def)
    from IH [OF this inv3, of "frames @ [fd_filled d2]"] obtain out where
      out: "push_loop (drop k rest) ?d3 (frames @ [fd_filled d2]) = Some out"
      "push_post (fd_maxFrameLength d) (drop k rest) (frames @ [fd_filled d2]) out"
      using p3 m3 by auto
    have len: "length (fd_filled d2) = n" using length_fd_filled [OF f(2)] True by simp
    have "fd_pending d @ rest = be32 n @ fd_filled d2 @ drop k rest" by (simp add: pend f(3))
    then have "push_post (fd_maxFrameLength d) (fd_pending d @ rest) frames out"
      using out(2) parse_frames_frame [OF n(2,3) len, of "drop k rest"]
      by (auto simp: push_post_def split: sum.splits)
    with out(1) f(1) fin show ?thesis by auto
  next
    case False
    then have k: "k = length rest" using f(4) n(4) by (auto simp: k_def)
    have lt: "fd_payloadLength d2 < n" using False f(4) n(4) by (simp add: k_def)
    have fin: "finish_payload n d2 frames = (d2, frames)" using False by (simp add: finish_payload_def)
    have inv2: "fd_inv d2" using lt n f ex by (simp add: fd_inv_def)
    have p2: "fd_pending d2 = fd_pending d @ rest" using f ex k by (simp add: fd_pending_def)
    show ?thesis
      using push_loop_Nil [OF inv2, of frames] f(1,7) k fin p2 by auto
  qed
qed

lemma header_bytes:
  assumes "length (fd_header d) = 4" "fd_headerLength d + length bs = 4"
  shows "set_at (fd_header d) (fd_headerLength d) bs = take (fd_headerLength d) (fd_header d) @ bs"
  using assms by (simp add: set_at_def)

text \<open>The header part of a round, in terms of the bytes pending before it.\<close>

lemma push_loop_header:
  assumes inv: "fd_inv d" and ex: "fd_expectedPayloadLength d = None" and ne: "rest \<noteq> []"
    and IH: "\<And>rest' d' frames'. length rest' < length rest \<Longrightarrow> fd_inv d' \<Longrightarrow>
      \<exists>out. push_loop rest' d' frames' = Some out \<and>
        push_post (fd_maxFrameLength d') (fd_pending d' @ rest') frames' out"
  shows "\<exists>out. push_loop rest d frames = Some out \<and>
     push_post (fd_maxFrameLength d) (fd_pending d @ rest) frames out"
proof -
  let ?hl = "fd_headerLength d" and ?m = "fd_maxFrameLength d"
  have h: "length (fd_header d) = 4" "?hl < 4" "fd_state d = DOpen"
    using inv by (auto simp: fd_inv_def)
  have pend: "fd_pending d = take ?hl (fd_header d)" by (simp add: fd_pending_def ex)
  define k where "k = min (4 - ?hl) (length rest)"
  define d1 where "d1 = d\<lparr>fd_header := set_at (fd_header d) ?hl (take k rest), fd_headerLength := ?hl + k\<rparr>"
  have k: "0 < k" "k \<le> length rest" "?hl + k \<le> 4" using h ne by (auto simp: k_def)
  have h1: "length (fd_header d1) = 4" using k h by (simp add: d1_def)
  have t1: "take (?hl + k) (fd_header d1) = fd_pending d @ take k rest"
    using take_set_at [of ?hl "take k rest" "fd_header d"] k h by (simp add: d1_def pend min_absorb2)
  show ?thesis
  proof (cases "?hl + k < 4")
    case True
    then have kk: "k = length rest" by (simp add: k_def)
    then have "?hl + length rest < 4" using True by simp
    then have "read_header rest d = HMore [] d1"
      using kk by (simp add: read_header_def ex FRAME_HEADER_LENGTH_def d1_def k_def Let_def)
    moreover have "fd_inv d1" using True h h1 ex by (simp add: fd_inv_def d1_def)
    moreover have "fd_pending d1 = fd_pending d @ rest"
      using t1 kk by (simp add: fd_pending_def ex d1_def)
    moreover have "fd_maxFrameLength d1 = ?m" by (simp add: d1_def)
    ultimately show ?thesis
      using push_loop_Nil [of d1 frames] ne by (subst push_loop.simps) simp
  next
    case False
    then have full: "?hl + k = 4" using k by simp
    then have hd1: "fd_header d1 = fd_pending d @ take k rest" using t1 h1 by simp
    define n where "n = be_val (fd_header d1)"
    define d2 where "d2 = d1\<lparr>fd_headerLength := 0\<rparr>"
    have n_lt: "n < 2 ^ 32" using be_val_bound [of "fd_header d1"] h1 by (simp add: n_def)
    have hdr: "be32 n = fd_header d1" using be32_be_val [OF h1] by (simp add: n_def)
    have buf: "fd_pending d @ rest = be32 n @ drop k rest" by (simp add: hdr hd1)
    have rest_lt: "length (drop k rest) < length rest" using k by simp
    have rh: "read_header rest d = (if n > ?m then HFail n (fd_fail d2) else if n = 0 then HEmpty (drop k rest) d2
        else HReady n (drop k rest) (d2\<lparr>fd_expectedPayloadLength := Some n, fd_payloadBlocks := [],
               fd_currentPayloadBlock := None, fd_currentPayloadBlockLength := 0, fd_payloadLength := 0\<rparr>))"
    proof -
      have l: "fd_headerLength d1 = 4" using full by (simp add: d1_def)
      have m: "fd_maxFrameLength d2 = ?m" by (simp add: d2_def d1_def)
      show ?thesis
        unfolding read_header_def ex option.case FRAME_HEADER_LENGTH_def Let_def
          k_def [symmetric] d1_def [symmetric] l d2_def [symmetric] be_val_4 [OF h1, symmetric]
          n_def [symmetric] m
        by simp
    qed
    have m2: "fd_maxFrameLength d2 = ?m" by (simp add: d2_def d1_def)
    consider (big) "n > ?m" | (zero) "n \<le> ?m" "n = 0" | (ready) "n \<le> ?m" "0 < n" by linarith
    then show ?thesis
    proof cases
      case big
      then have "parse_frames ?m (fd_pending d @ rest) = Inl n"
        unfolding buf using n_lt by (simp add: parse_frames.simps be_val_be32)
      with big rh ne m2 show ?thesis
        by (subst push_loop.simps) (simp add: push_post_def fd_fail_def)
    next
      case zero
      have inv2: "fd_inv d2" and p2: "fd_pending d2 = []"
        using h h1 ex by (simp_all add: fd_inv_def fd_pending_def d2_def d1_def)
      from IH [OF rest_lt inv2, of "frames @ [[]]"] obtain out where
        out: "push_loop (drop k rest) d2 (frames @ [[]]) = Some out"
        "push_post ?m (drop k rest) (frames @ [[]]) out"
        using p2 m2 by auto
      have "push_post ?m (fd_pending d @ rest) frames out"
        using out(2) parse_frames_frame [of 0 ?m "[]" "drop k rest"] zero
        by (auto simp: buf push_post_def split: sum.splits)
      moreover have "push_loop rest d frames = push_loop (drop k rest) d2 (frames @ [[]])"
        using zero rh ne by (subst push_loop.simps) simp
      ultimately show ?thesis using out(1) by simp
    next
      case ready
      define d3 where "d3 = d2\<lparr>fd_expectedPayloadLength := Some n, fd_payloadBlocks := [],
               fd_currentPayloadBlock := None, fd_currentPayloadBlockLength := 0, fd_payloadLength := 0\<rparr>"
      have inv3: "fd_inv d3" and p3: "fd_pending d3 = be32 n" and m3: "fd_maxFrameLength d3 = ?m"
        and e3: "fd_expectedPayloadLength d3 = Some n"
        using h h1 ready n_lt
        by (simp_all add: fd_inv_def fd_pending_def fd_filled_def blocks_ok_def d3_def d2_def d1_def)
      have "push_loop rest d frames = Option.bind (fill_loop n (drop k rest) d3) (\<lambda>(rest2, d2).
          push_loop rest2 (fst (finish_payload n d2 frames)) (snd (finish_payload n d2 frames)))"
        using ready rh ne by (subst push_loop.simps) (simp add: d3_def)
      then show ?thesis
        using push_payload [OF inv3 e3, of "drop k rest" frames] IH rest_lt p3 m3 buf by fastforce
    qed
  qed
qed

lemma push_loop_ok:
  "fd_inv d \<Longrightarrow> \<exists>out. push_loop rest d frames = Some out \<and>
     push_post (fd_maxFrameLength d) (fd_pending d @ rest) frames out"
proof (induction "length rest" arbitrary: rest d frames rule: less_induct)
  case less
  show ?case
  proof (cases "rest = []")
    case True
    with push_loop_Nil [OF less.prems, of frames] show ?thesis by simp
  next
    case False
    show ?thesis
    proof (cases "fd_expectedPayloadLength d")
      case None
      show ?thesis by (rule push_loop_header [OF less.prems None False less.hyps])
    next
      case (Some n)
      then have "push_loop rest d frames = Option.bind (fill_loop n rest d) (\<lambda>(rest2, d2).
          push_loop rest2 (fst (finish_payload n d2 frames)) (snd (finish_payload n d2 frames)))"
        using False by (subst push_loop.simps) (simp add: read_header_def)
      then show ?thesis
        using push_payload [OF less.prems Some less.hyps, where frames = frames] by simp
    qed
  qed
qed

lemma parse_frames_append:
  "parse_frames m a = Inr (fs, r) \<Longrightarrow>
   parse_frames m (a @ b) = (case parse_frames m (r @ b) of Inl e \<Rightarrow> Inl e | Inr (gs, r') \<Rightarrow> Inr (fs @ gs, r'))"
proof (induction m a arbitrary: fs rule: parse_frames.induct)
  case (1 m a)
  let ?n = "be_val (take 4 a)"
  show ?case
  proof (cases "length a < 4 \<or> (\<not> ?n > m \<and> length a < 4 + ?n)")
    case True
    with "1.prems" have "fs = [] \<and> r = a"
      unfolding parse_frames.simps [of m a] by (auto split: if_splits)
    then show ?thesis by (auto split: sum.splits)
  next
    case False
    with "1.prems" have n: "\<not> length a < 4" "\<not> ?n > m" "\<not> length a < 4 + ?n"
      unfolding parse_frames.simps [of m a] by (auto split: if_splits)
    from n "1.prems" obtain gs where gs: "parse_frames m (drop (4 + ?n) a) = Inr (gs, r)"
      "fs = take ?n (drop 4 a) # gs"
      unfolding parse_frames.simps [of m a] by (auto split: sum.splits)
    show ?thesis
      using n "1.IH" [OF n gs(1)] gs(2)
      unfolding parse_frames.simps [of m "a @ b"] by (auto split: sum.splits)
  qed
qed

lemma parse_frames_error_append: "parse_frames m a = Inl n \<Longrightarrow> parse_frames m (a @ b) = Inl n"
proof (induction m a rule: parse_frames.induct)
  case (1 m a)
  let ?n = "be_val (take 4 a)"
  from "1.prems" have len: "\<not> length a < 4"
    unfolding parse_frames.simps [of m a] by (auto split: if_splits)
  show ?case
  proof (cases "?n > m")
    case True
    with len "1.prems" show ?thesis
      unfolding parse_frames.simps [of m a] parse_frames.simps [of m "a @ b"] by simp
  next
    case False
    with len "1.prems" have n: "\<not> length a < 4 + ?n" and rec: "parse_frames m (drop (4 + ?n) a) = Inl n"
      unfolding parse_frames.simps [of m a] by (auto split: if_splits sum.splits)
    show ?thesis
      using "1.IH" [OF len False n rec] len False n
      unfolding parse_frames.simps [of m "a @ b"] by simp
  qed
qed

lemma encodeFrame_Ok: "encodeFrame p = Inr f \<longleftrightarrow> length p \<le> MAX_UINT32 \<and> f = be32 (length p) @ p"
proof -
  have "length p \<le> MAX_UINT32 \<Longrightarrow> encodeFrame p = Inr (be32 (length p) @ p)"
    by (simp add: encodeFrame_def be32_def set_at_def FRAME_HEADER_LENGTH_def)
  then show ?thesis by (auto simp: encodeFrame_def)
qed

lemma resolveMaxFrameLength_Ok: "resolveMaxFrameLength options = Inr m \<Longrightarrow> m \<le> MAX_UINT32"
  by (auto simp: resolveMaxFrameLength_def Let_def split: option.splits jsnum.splits if_splits)

lemma newFrameDecoder_Ok:
  assumes "newFrameDecoder options = Inr d"
  shows "fd_inv d" "fd_pending d = []" "resolveMaxFrameLength options = Inr (fd_maxFrameLength d)"
  using assms by (auto simp: newFrameDecoder_def fd_inv_def fd_pending_def FRAME_HEADER_LENGTH_def)

text \<open>A client that pushes the chunks of a stream one after the other, until the first throw.\<close>

fun push_all :: "frame_decoder \<Rightarrow> byte list list \<Rightarrow>
    ((frame_error, byte list list) res \<times> frame_decoder) option" where
  "push_all d [] = Some (Ok [], d)"
| "push_all d (c # cs) =
     (case fd_push d c of
        None \<Rightarrow> None
      | Some (Inl e, d') \<Rightarrow> Some (Inl e, d')
      | Some (Inr fs, d') \<Rightarrow>
          (case push_all d' cs of
             Some (Inr gs, d'') \<Rightarrow> Some (Inr (fs @ gs), d'')
           | other \<Rightarrow> other))"

lemma fd_push_open: "fd_inv d \<Longrightarrow> \<exists>out. fd_push d chunk = Some out \<and>
    push_post (fd_maxFrameLength d) (fd_pending d @ chunk) [] out"
  using push_loop_ok [of d chunk "[]"] by (simp add: fd_push_def fd_inv_def)

lemma push_all_ok:
  assumes "fd_inv d" "parse_frames (fd_maxFrameLength d) (fd_pending d @ concat chunks) = Inr (fs, r)"
  shows "\<exists>d'. push_all d chunks = Some (Ok fs, d') \<and> fd_inv d' \<and> fd_pending d' = r"
  using assms
proof (induction chunks arbitrary: d fs)
  case Nil
  with parse_frames_pending [of d] show ?case by simp
next
  case (Cons c cs)
  let ?m = "fd_maxFrameLength d"
  obtain out where p: "fd_push d c = Some out" "push_post ?m (fd_pending d @ c) [] out"
    using fd_push_open [OF Cons.prems(1)] by blast
  show ?case
  proof (cases "parse_frames ?m (fd_pending d @ c)")
    case (Inl n)
    have "parse_frames ?m ((fd_pending d @ c) @ concat cs) = Inl n"
      using Inl by (rule parse_frames_error_append)
    with Cons.prems(2) show ?thesis by simp
  next
    case (Inr q)
    obtain f1 r1 where q: "q = (f1, r1)" by fastforce
    obtain d1 where d1: "out = (Ok f1, d1)" "fd_inv d1" "fd_pending d1 = r1" "fd_maxFrameLength d1 = ?m"
      using p(2) Inr q by (cases out) (auto simp: push_post_def)
    from Cons.prems(2) parse_frames_append [OF Inr [unfolded q], of "concat cs"]
    obtain f2 where f2: "parse_frames ?m (r1 @ concat cs) = Inr (f2, r)" "fs = f1 @ f2"
      by (auto split: sum.splits)
    then obtain d2 where "push_all d1 cs = Some (Ok f2, d2)" "fd_inv d2" "fd_pending d2 = r"
      using Cons.IH [OF d1(2), of f2] d1(3,4) by auto
    with p(1) d1(1) f2(2) show ?thesis by simp
  qed
qed

lemma parse_frames_stream:
  assumes "list_all2 (\<lambda>p f. encodeFrame p = Inr f) ps fs" "\<forall>p \<in> set ps. length p \<le> m"
  shows "parse_frames m (concat fs) = Inr (ps, [])"
  using assms
proof (induction rule: list_all2_induct)
  case Nil
  then show ?case by (simp add: parse_frames_incomplete)
next
  case (Cons p ps f fs)
  then have "length p < 2 ^ 32" by (simp add: encodeFrame_Ok MAX_UINT32_def)
  with Cons show ?case by (simp add: encodeFrame_Ok parse_frames_frame)
qed

lemma stream_decoded:
  assumes "resolveMaxFrameLength options = Inr m"
    and "list_all2 (\<lambda>p f. encodeFrame p = Inr f) payloads frames"
    and "\<forall>p \<in> set payloads. length p \<le> m"
    and "concat chunks = concat frames"
  shows "\<exists>d d'. newFrameDecoder options = Inr d \<and> push_all d chunks = Some (Ok payloads, d') \<and>
    fst (fd_end d') = Ok ()"
proof -
  obtain d where d: "newFrameDecoder options = Inr d" "fd_maxFrameLength d = m"
    using assms(1) by (simp add: newFrameDecoder_def)
  note nd = newFrameDecoder_Ok [OF d(1)]
  have "parse_frames (fd_maxFrameLength d) (fd_pending d @ concat chunks) = Inr (payloads, [])"
    using parse_frames_stream [OF assms(2,3)] assms(4) nd(2) d(2) by simp
  then obtain d' where d': "push_all d chunks = Some (Ok payloads, d')" "fd_inv d'" "fd_pending d' = []"
    using push_all_ok [OF nd(1)] by blast
  have "fd_headerLength d' = 0 \<and> fd_expectedPayloadLength d' = None"
    using d'(2,3) by (auto simp: fd_inv_def fd_pending_def be32_def split: option.splits)
  then have "fst (fd_end d') = Ok ()"
    using d'(2) by (simp add: fd_end_def fd_inv_def)
  with d d' show ?thesis by auto
qed

lemma frame_accepted:
  assumes "length payload \<le> m" "resolveMaxFrameLength options = Inr m" "encodeFrame payload = Inr frame"
  shows "assertCompleteFrame frame options = Ok ()"
proof -
  have f: "frame = be32 (length payload) @ payload" "length payload \<le> MAX_UINT32"
    using assms(3) by (simp_all add: encodeFrame_Ok)
  let ?h = "be32 (length payload)"
  have "be_val ?h = length payload"
    using f(2) by (simp add: be_val_be32 MAX_UINT32_def)
  moreover have "frame ! i = ?h ! i" if "i < 4" for i
    using that f(1) by (simp add: nth_append)
  ultimately have n: "unat (frame ! 0) * 16777216 + unat (frame ! 1) * 65536 + unat (frame ! 2) * 256
      + unat (frame ! 3) = length payload"
    using be_val_4 [of ?h] by simp
  show "assertCompleteFrame frame options = Ok ()"
    unfolding assertCompleteFrame_def FRAME_HEADER_LENGTH_def Let_def n using assms f(1) by simp
qed

section \<open>Properties\<close>

text \<open>
  C13: \<open>push\<close> always returns, and it implements the whole-buffer parser on the bytes still
  pending and the new chunk: either an announced length is above the limit, and the decoder
  throws and is failed, or it returns exactly the complete frames and keeps the rest.
\<close>

theorem fd_push_refines:
  assumes "fd_inv d"
  shows "\<exists>out d'. fd_push d chunk = Some (out, d') \<and> fd_maxFrameLength d' = fd_maxFrameLength d \<and>
    (case parse_frames (fd_maxFrameLength d) (fd_pending d @ chunk) of
       Inl n \<Rightarrow> out = Throw (FrameTooLong n (fd_maxFrameLength d)) \<and> fd_state d' = DFailed
     | Inr (fs, r) \<Rightarrow> out = Ok fs \<and> fd_inv d' \<and> fd_pending d' = r)"
  using fd_push_open [OF assms, of chunk]
  by (cases "parse_frames (fd_maxFrameLength d) (fd_pending d @ chunk)") (auto simp: push_post_def)

theorem fd_push_refines_witness:
  "\<exists>out d'. fd_push \<lparr>fd_header = [0, 0, 0, 0], fd_headerLength = 3, fd_maxFrameLength = 9,
      fd_payloadBlocks = [], fd_currentPayloadBlock = None, fd_currentPayloadBlockLength = 0,
      fd_expectedPayloadLength = None, fd_payloadLength = 0, fd_state = DOpen\<rparr> [2, 7, 8, 0]
    = Some (out, d') \<and> out = Ok [[7, 8]] \<and> fd_pending d' = [0]"
proof -
  let ?d = "\<lparr>fd_header = [0, 0, 0, 0], fd_headerLength = 3, fd_maxFrameLength = 9,
      fd_payloadBlocks = [], fd_currentPayloadBlock = None, fd_currentPayloadBlockLength = 0,
      fd_expectedPayloadLength = None, fd_payloadLength = 0, fd_state = DOpen\<rparr> :: frame_decoder"
  have inv: "fd_inv ?d" by (simp add: fd_inv_def)
  have "parse_frames 9 [0, 0, 0, 2, 7, 8, 0] = Inr ([[7, 8]], [0])"
    by (simp add: parse_frames.simps)
  then show ?thesis
    using fd_push_refines [OF inv, of "[2, 7, 8, 0]"] by (auto simp: fd_pending_def)
qed

text \<open>
  C5: encoding payloads as frames and pushing the bytes through the decoder in any
  chunking gives back exactly the payloads, in order, and \<open>end\<close> then accepts the stream.
\<close>

theorem frame_stream_roundtrip:
  assumes "resolveMaxFrameLength options = Inr m"
    and "list_all2 (\<lambda>p f. encodeFrame p = Inr f) payloads frames"
    and "\<forall>p \<in> set payloads. length p \<le> m"
    and "concat chunks = concat frames"
  shows "\<exists>d d'. newFrameDecoder options = Inr d \<and> push_all d chunks = Some (Ok payloads, d') \<and>
    fst (fd_end d') = Ok ()"
  using assms by (rule stream_decoded)

theorem frame_stream_roundtrip_witness:
  "\<exists>d d'. newFrameDecoder None = Inr d \<and>
     push_all d [[0, 0], [0, 2, 1], [2, 0, 0, 0, 0]] = Some (Ok [[1, 2], []], d') \<and> fst (fd_end d') = Ok ()"
  by (rule frame_stream_roundtrip [where m = DEFAULT_MAX_FRAME_LENGTH and
        frames = "[[0, 0, 0, 2, 1, 2], [0, 0, 0, 0]]"])
    (simp_all add: resolveMaxFrameLength_def DEFAULT_MAX_FRAME_LENGTH_def MAX_UINT32_def Let_def
      is_safe_integer_def MAX_SAFE_INTEGER_def encodeFrame_Ok be32_def)

text \<open>
  \<open>assertCompleteFrame\<close> accepts exactly the frames \<open>encodeFrame\<close> makes of the payloads
  within the configured limit.
\<close>

theorem assertCompleteFrame_iff:
  "assertCompleteFrame frame options = Ok () \<longleftrightarrow>
     (\<exists>m payload. resolveMaxFrameLength options = Inr m \<and> length payload \<le> m \<and>
        encodeFrame payload = Inr frame)"
proof
  assume a: "assertCompleteFrame frame options = Ok ()"
  then have len: "4 \<le> length frame"
    by (simp add: assertCompleteFrame_def FRAME_HEADER_LENGTH_def split: if_splits)
  then have t4: "length (take 4 frame) = 4" by simp
  define n where "n = be_val (take 4 frame)"
  have n: "unat (frame ! 0) * 16777216 + unat (frame ! 1) * 65536 + unat (frame ! 2) * 256 + unat (frame ! 3) = n"
    using be_val_4 [OF t4] by (simp add: n_def)
  obtain m where m: "resolveMaxFrameLength options = Inr m" "n \<le> m" "length frame = 4 + n"
    using a len unfolding assertCompleteFrame_def FRAME_HEADER_LENGTH_def Let_def n
    by (auto split: if_splits)
  have "frame = be32 n @ drop 4 frame"
    using be32_be_val [OF t4] by (simp add: n_def)
  moreover have "n \<le> MAX_UINT32" using resolveMaxFrameLength_Ok [OF m(1)] m(2) by simp
  ultimately have "encodeFrame (drop 4 frame) = Inr frame"
    using m(3) by (simp add: encodeFrame_Ok)
  with m show "\<exists>m payload. resolveMaxFrameLength options = Inr m \<and> length payload \<le> m \<and>
        encodeFrame payload = Inr frame"
    by (intro exI [of _ m] exI [of _ "drop 4 frame"]) simp
next
  assume "\<exists>m payload. resolveMaxFrameLength options = Inr m \<and> length payload \<le> m \<and>
        encodeFrame payload = Inr frame"
  then show "assertCompleteFrame frame options = Ok ()" by (auto intro: frame_accepted)
qed

end
