(* ===== verification/Utf8.thy ===== *)
theory Utf8
  imports InkPrelude
begin

text \<open>
  JavaScript strings and their UTF-8 form: the standard library's \<open>TextEncoder\<close> and
  \<open>TextDecoder('utf-8', {fatal: true, ignoreBOM: true})\<close>, which the CBOR codec and the RPC
  limits call. A string is its list of UTF-16 code units. The encoder replaces a lone
  surrogate by U+FFFD; the decoder rejects malformed, overlong and surrogate sequences.
\<close>

type_synonym jstring = "nat list"

text \<open>A literal of the source.\<close>

definition ascii :: "string \<Rightarrow> jstring" where
  "ascii s = map of_char s"

text \<open>White space as \<open>String.prototype.trim\<close> sees it, and the strings it trims to the empty one.\<close>

definition js_space :: "nat \<Rightarrow> bool" where
  "js_space u \<longleftrightarrow> 9 \<le> u \<and> u \<le> 13 \<or> u \<in> {32, 160, 0x1680, 0x2028, 0x2029, 0x202F, 0x205F, 0x3000, 0xFEFF} \<or>
     0x2000 \<le> u \<and> u \<le> 0x200A"

definition js_trim :: "jstring \<Rightarrow> jstring" where
  "js_trim s = rev (dropWhile js_space (rev (dropWhile js_space s)))"

definition is_high :: "nat \<Rightarrow> bool" where
  "is_high u \<longleftrightarrow> 0xD800 \<le> u \<and> u < 0xDC00"

definition is_low :: "nat \<Rightarrow> bool" where
  "is_low u \<longleftrightarrow> 0xDC00 \<le> u \<and> u < 0xE000"

fun code_points :: "jstring \<Rightarrow> nat list" where
  "code_points [] = []"
| "code_points [u] = [if is_high u \<or> is_low u then 0xFFFD else u]"
| "code_points (u # v # us) =
     (if is_high u \<and> is_low v then (0x10000 + (u - 0xD800) * 1024 + (v - 0xDC00)) # code_points us
      else (if is_high u \<or> is_low u then 0xFFFD else u) # code_points (v # us))"

definition utf8_cp :: "nat \<Rightarrow> byte list" where
  "utf8_cp c =
     (if c < 0x80 then [of_nat c]
      else if c < 0x800 then [of_nat (192 + c div 64), of_nat (128 + c mod 64)]
      else if c < 0x10000 then
        [of_nat (224 + c div 4096), of_nat (128 + c div 64 mod 64), of_nat (128 + c mod 64)]
      else [of_nat (240 + c div 262144), of_nat (128 + c div 4096 mod 64),
            of_nat (128 + c div 64 mod 64), of_nat (128 + c mod 64)])"

definition text_encode :: "jstring \<Rightarrow> byte list" where
  "text_encode s = concat (map utf8_cp (code_points s))"

definition cont :: "nat \<Rightarrow> bool" where
  "cont b \<longleftrightarrow> 128 \<le> b \<and> b < 192"

definition scalar :: "nat \<Rightarrow> bool" where
  "scalar c \<longleftrightarrow> c < 0x110000 \<and> \<not> (0xD800 \<le> c \<and> c < 0xE000)"

text \<open>One code point from the front of the bytes, and the rest; a shorter form would be overlong.\<close>

fun utf8_step :: "byte list \<Rightarrow> (nat \<times> byte list) option" where
  "utf8_step [] = None"
| "utf8_step (b0 # bs) =
     (let b = unat b0 in
      if b < 128 then Some (b, bs)
      else if 194 \<le> b \<and> b < 224 then
        (case bs of
           b1 # rest \<Rightarrow> (if cont (unat b1) then Some ((b - 192) * 64 + (unat b1 - 128), rest) else None)
         | _ \<Rightarrow> None)
      else if 224 \<le> b \<and> b < 240 then
        (case bs of
           b1 # b2 # rest \<Rightarrow>
             (let c = (b - 224) * 4096 + (unat b1 - 128) * 64 + (unat b2 - 128)
              in if cont (unat b1) \<and> cont (unat b2) \<and> 0x800 \<le> c \<and> scalar c then Some (c, rest) else None)
         | _ \<Rightarrow> None)
      else if 240 \<le> b \<and> b < 245 then
        (case bs of
           b1 # b2 # b3 # rest \<Rightarrow>
             (let c = (b - 240) * 262144 + (unat b1 - 128) * 4096 + (unat b2 - 128) * 64 + (unat b3 - 128)
              in if cont (unat b1) \<and> cont (unat b2) \<and> cont (unat b3) \<and> 0x10000 \<le> c \<and> scalar c
                 then Some (c, rest) else None)
         | _ \<Rightarrow> None)
      else None)"

lemma utf8_step_shorter: "utf8_step bs = Some (c, rest) \<Longrightarrow> length rest < length bs"
  by (cases bs) (auto simp: Let_def split: if_splits list.splits)

function utf8_decode :: "byte list \<Rightarrow> nat list option" where
  "utf8_decode bs =
     (if bs = [] then Some []
      else case utf8_step bs of
             None \<Rightarrow> None
           | Some (c, rest) \<Rightarrow> map_option (Cons c) (utf8_decode rest))"
  by pat_completeness auto
termination
  by (relation "measure length") (auto dest: utf8_step_shorter)

declare utf8_decode.simps [simp del]

definition utf16_cp :: "nat \<Rightarrow> jstring" where
  "utf16_cp c = (if c < 0x10000 then [c]
     else [0xD800 + (c - 0x10000) div 1024, 0xDC00 + (c - 0x10000) mod 1024])"

definition text_decode :: "byte list \<Rightarrow> jstring option" where
  "text_decode bs = map_option (\<lambda>cs. concat (map utf16_cp cs)) (utf8_decode bs)"

text \<open>A well-formed string: sixteen-bit units, and every surrogate in a pair.\<close>

fun wf_utf16 :: "jstring \<Rightarrow> bool" where
  "wf_utf16 [] = True"
| "wf_utf16 [u] = (\<not> is_high u \<and> \<not> is_low u \<and> u < 0x10000)"
| "wf_utf16 (u # v # us) =
     (if is_high u then is_low v \<and> wf_utf16 us
      else \<not> is_low u \<and> u < 0x10000 \<and> wf_utf16 (v # us))"

section \<open>Round trip\<close>

lemma utf8_step_cp:
  assumes "scalar c"
  shows "utf8_step (utf8_cp c @ rest) = Some (c, rest)"
proof -
  define x where "x = c div 64"
  define y where "y = x div 64"
  have d: "c div 4096 = y" "c div 262144 = y div 64" "c div 64 = x"
    by (simp_all add: x_def y_def flip: div_mult2_eq)
  have eq: "c = x * 64 + c mod 64" "x = y * 64 + x mod 64" "y = y div 64 * 64 + y mod 64"
    by (simp_all add: x_def y_def)
  have m: "c mod 64 < 64" "x mod 64 < 64" "y mod 64 < 64" by simp_all
  have ub: "c < 0x110000" using assms by (simp add: scalar_def)
  consider "c < 0x80" | "0x80 \<le> c" "c < 0x800" | "0x800 \<le> c" "c < 0x10000" | "0x10000 \<le> c"
    by linarith
  then show ?thesis
  proof cases
    case 1
    then show ?thesis by (simp add: utf8_cp_def)
  next
    case 2
    then have x: "2 \<le> x" "x < 32" using eq(1) m(1) by linarith+
    then show ?thesis
      using 2 m eq(1) by (simp add: utf8_cp_def d cont_def Let_def del: of_nat_add)
  next
    case 3
    then have x: "32 \<le> x" "x < 1024" using eq(1) m(1) by linarith+
    then have y: "y < 16" using eq(2) m(2) by linarith
    have c: "y * 4096 + x mod 64 * 64 + c mod 64 = c" using eq(1,2) by linarith
    show ?thesis
      using 3 m y c assms by (simp add: utf8_cp_def d cont_def Let_def del: of_nat_add)
  next
    case 4
    then have x: "1024 \<le> x" "x < 17408" using eq(1) m(1) ub by linarith+
    then have y: "16 \<le> y" "y < 272" using eq(2) m(2) by linarith+
    then have z: "y div 64 < 5" by linarith
    have c: "y div 64 * 262144 + y mod 64 * 4096 + x mod 64 * 64 + c mod 64 = c"
      using eq by linarith
    show ?thesis
      using 4 m z c assms by (simp add: utf8_cp_def d cont_def Let_def del: of_nat_add)
  qed
qed

lemma utf8_cp_not_Nil [simp]: "utf8_cp c \<noteq> []"
  by (simp add: utf8_cp_def)

lemma utf8_decode_encode:
  "\<forall>c \<in> set cs. scalar c \<Longrightarrow> utf8_decode (concat (map utf8_cp cs)) = Some cs"
  by (induction cs) (simp_all add: utf8_decode.simps utf8_step_cp)

lemma surrogate_pairE:
  assumes "is_high u" "is_low v"
  obtains a b where "u = 0xD800 + a" "a < 1024" "v = 0xDC00 + b" "b < 1024"
  using assms unfolding is_high_def is_low_def by (auto simp: le_iff_add)

lemma scalar_pair: "is_high u \<Longrightarrow> is_low v \<Longrightarrow> scalar (0x10000 + (u - 0xD800) * 1024 + (v - 0xDC00))"
  by (erule (1) surrogate_pairE) (simp add: scalar_def)

lemma utf16_cp_pair:
  "is_high u \<Longrightarrow> is_low v \<Longrightarrow> utf16_cp (0x10000 + (u - 0xD800) * 1024 + (v - 0xDC00)) = [u, v]"
  by (erule (1) surrogate_pairE) (simp add: utf16_cp_def)

lemma scalar_unit: "u < 0x10000 \<Longrightarrow> scalar (if is_high u \<or> is_low u then 0xFFFD else u)"
  by (simp add: scalar_def is_high_def is_low_def) linarith

lemma code_points_scalar:
  "\<forall>u \<in> set s. u < 0x10000 \<Longrightarrow> \<forall>c \<in> set (code_points s). scalar c"
proof (induction s rule: code_points.induct)
  case (3 u v us)
  show ?case
  proof (cases "is_high u \<and> is_low v")
    case True
    with "3.IH"(1) "3.prems" scalar_pair show ?thesis by simp
  next
    case False
    with "3.IH"(2) "3.prems" scalar_unit [of u] show ?thesis by (simp only: code_points.simps) auto
  qed
qed (auto dest: scalar_unit)

lemma wf_utf16_units: "wf_utf16 s \<Longrightarrow> \<forall>u \<in> set s. u < 0x10000"
  by (induction s rule: wf_utf16.induct) (auto simp: is_high_def is_low_def split: if_splits)

lemma code_points_utf16: "wf_utf16 s \<Longrightarrow> concat (map utf16_cp (code_points s)) = s"
proof (induction s rule: code_points.induct)
  case (3 u v us)
  show ?case
  proof (cases "is_high u")
    case True
    then have low: "is_low v" and "wf_utf16 us" using "3.prems" by auto
    with True utf16_cp_pair [OF True low] "3.IH"(1) show ?thesis by simp
  next
    case False
    with "3.prems" "3.IH"(2) show ?thesis by (simp add: utf16_cp_def)
  qed
qed (auto simp: utf16_cp_def)

lemma text_decode_encode: "wf_utf16 s \<Longrightarrow> text_decode (text_encode s) = Some s"
  using utf8_decode_encode [OF code_points_scalar [OF wf_utf16_units]] code_points_utf16 [of s]
  by (simp add: text_decode_def text_encode_def)

section \<open>What was decoded encodes to the same bytes\<close>

lemma byte_of: "unat (b :: byte) = n \<Longrightarrow> of_nat n = b"
  by auto

lemma base64_digit: "z < 64 \<Longrightarrow> (a * 64 + z) div 64 = (a :: nat)" "z < 64 \<Longrightarrow> (a * 64 + z) mod 64 = z"
  by simp_all

lemma utf8_step_inverse:
  assumes "utf8_step bs = Some (c, rest)"
  shows "scalar c \<and> bs = utf8_cp c @ rest"
proof (cases bs)
  case (Cons b0 bs1)
  let ?b = "unat b0"
  have small: "b < 128 \<or> 128 \<le> b" for b :: nat by linarith
  consider "?b < 128" | "194 \<le> ?b" "?b < 224" | "224 \<le> ?b" "?b < 240" | "240 \<le> ?b" "?b < 245"
    using assms Cons by (auto simp: Let_def split: if_splits)
  then show ?thesis
  proof cases
    case 1
    then show ?thesis using assms Cons by (auto simp: scalar_def utf8_cp_def)
  next
    case 2
    then obtain b1 where b1: "bs1 = b1 # rest" "cont (unat b1)" "c = (?b - 192) * 64 + (unat b1 - 128)"
      using assms Cons by (auto simp: Let_def split: list.splits if_splits)
    obtain x y where xy: "?b = 192 + x" "unat b1 = 128 + y" "y < 64"
      using 2 b1(2) by (auto simp: cont_def le_iff_add)
    have c: "c = x * 64 + y" using b1(3) xy by simp
    have "2 \<le> x" "x < 32" using 2 xy by simp_all
    then have r: "128 \<le> c" "c < 2048" using c xy(3) by linarith+
    have "192 + c div 64 = ?b" "128 + c mod 64 = unat b1" using c xy by simp_all
    then have "utf8_cp c = [b0, b1]" using r byte_of by (simp add: utf8_cp_def del: of_nat_add)
    then show ?thesis using r b1 Cons by (simp add: scalar_def)
  next
    case 3
    then obtain b1 b2 where b: "bs1 = b1 # b2 # rest" "cont (unat b1)" "cont (unat b2)"
        "c = (?b - 224) * 4096 + (unat b1 - 128) * 64 + (unat b2 - 128)" "0x800 \<le> c" "scalar c"
      using assms Cons by (auto simp: Let_def split: list.splits if_splits)
    obtain x y z where xyz: "?b = 224 + x" "unat b1 = 128 + y" "y < 64" "unat b2 = 128 + z" "z < 64"
      using 3 b(2,3) by (auto simp: cont_def le_iff_add)
    have c: "c = (x * 64 + y) * 64 + z" using b(4) xyz by simp
    have x: "x < 16" using 3 xyz by simp
    have d: "c div 64 = x * 64 + y" "c mod 64 = z" unfolding c by (rule base64_digit[OF xyz(5)])+
    have "c div 4096 = c div 64 div 64" by (simp flip: div_mult2_eq)
    then have "224 + c div 4096 = ?b" "128 + c div 64 mod 64 = unat b1" "128 + c mod 64 = unat b2" using d xyz by simp_all
    moreover have "c < 0x10000" using c x xyz(3,5) by (simp add: algebra_simps)
    ultimately have "utf8_cp c = [b0, b1, b2]" using b(5) byte_of by (simp add: utf8_cp_def del: of_nat_add)
    then show ?thesis using b Cons by simp
  next
    case 4
    then obtain b1 b2 b3 where b: "bs1 = b1 # b2 # b3 # rest" "cont (unat b1)" "cont (unat b2)" "cont (unat b3)"
        "c = (?b - 240) * 262144 + (unat b1 - 128) * 4096 + (unat b2 - 128) * 64 + (unat b3 - 128)" "0x10000 \<le> c" "scalar c"
      using assms Cons by (auto simp: Let_def split: list.splits if_splits)
    obtain x y z w where v: "?b = 240 + x" "unat b1 = 128 + y" "y < 64" "unat b2 = 128 + z" "z < 64" "unat b3 = 128 + w" "w < 64"
      using 4 b(2,3,4) by (auto simp: cont_def le_iff_add)
    have c: "c = ((x * 64 + y) * 64 + z) * 64 + w" using b(5) v by simp
    have d: "c div 64 = (x * 64 + y) * 64 + z" "c mod 64 = w" unfolding c by (rule base64_digit[OF v(7)])+
    have e: "c div 64 div 64 = x * 64 + y" "c div 64 mod 64 = z" unfolding d by (rule base64_digit[OF v(5)])+
    have f: "c div 4096 = c div 64 div 64" "c div 262144 = c div 64 div 64 div 64" by (simp_all flip: div_mult2_eq)
    have "240 + c div 262144 = ?b" "128 + c div 4096 mod 64 = unat b1" "128 + c div 64 mod 64 = unat b2" "128 + c mod 64 = unat b3"
      unfolding f using d e v by simp_all
    then have "utf8_cp c = [b0, b1, b2, b3]" using b(6) byte_of by (simp add: utf8_cp_def del: of_nat_add)
    then show ?thesis using b Cons by simp
  qed
qed (use assms in simp)

lemma utf8_decode_inverse: "utf8_decode bs = Some cs \<Longrightarrow> (\<forall>c \<in> set cs. scalar c) \<and> concat (map utf8_cp cs) = bs"
proof (induction bs arbitrary: cs rule: utf8_decode.induct)
  case (1 bs)
  show ?case
  proof (cases "bs = []")
    case False
    then obtain c rest cs' where s: "utf8_step bs = Some (c, rest)" "utf8_decode rest = Some cs'" "cs = c # cs'"
      using "1.prems" by (subst (asm) utf8_decode.simps) (auto split: option.splits)
    then show ?thesis using "1.IH"[OF False s(1) refl s(2)] utf8_step_inverse[OF s(1)] by simp
  qed (use "1.prems" in \<open>simp add: utf8_decode.simps\<close>)
qed

lemma code_points_cp:
  assumes "scalar c"
  shows "code_points (utf16_cp c @ us) = c # code_points us"
proof (cases "c < 0x10000")
  case True
  then have "\<not> is_high c" "\<not> is_low c" using assms by (auto simp: scalar_def is_high_def is_low_def)
  then show ?thesis using True by (cases us) (simp_all add: utf16_cp_def)
next
  case False
  then obtain d where d: "c = 0x10000 + d" by (auto simp: not_less le_iff_add)
  then have "d < 1048576" using assms by (simp add: scalar_def)
  then have h: "is_high (0xD800 + d div 1024)" "is_low (0xDC00 + d mod 1024)" by (auto simp: is_high_def is_low_def)
  then show ?thesis using d by (simp add: utf16_cp_def)
qed

lemma wf_utf16_cp: "scalar c \<Longrightarrow> wf_utf16 us \<Longrightarrow> wf_utf16 (utf16_cp c @ us)"
proof (cases "c < 0x10000")
  case True
  assume "scalar c" "wf_utf16 us"
  then have "\<not> is_high c" "\<not> is_low c" using True by (auto simp: scalar_def is_high_def is_low_def)
  then show ?thesis using True \<open>wf_utf16 us\<close> by (cases us) (simp_all add: utf16_cp_def)
next
  case False
  assume "scalar c" "wf_utf16 us"
  obtain d where d: "c = 0x10000 + d" using False by (auto simp: not_less le_iff_add)
  then have "d < 1048576" using \<open>scalar c\<close> by (simp add: scalar_def)
  then have h: "is_high (0xD800 + d div 1024)" "is_low (0xDC00 + d mod 1024)" by (auto simp: is_high_def is_low_def)
  then show ?thesis using d \<open>wf_utf16 us\<close> by (simp add: utf16_cp_def)
qed

lemma text_encode_decode: "text_decode bs = Some s \<Longrightarrow> text_encode s = bs \<and> wf_utf16 s"
proof -
  assume "text_decode bs = Some s"
  then obtain cs where cs: "utf8_decode bs = Some cs" "s = concat (map utf16_cp cs)" by (auto simp: text_decode_def)
  have A: "\<forall>c \<in> set cs. scalar c" "concat (map utf8_cp cs) = bs" using utf8_decode_inverse[OF cs(1)] by simp_all
  have "\<forall>c \<in> set cs. scalar c \<Longrightarrow> code_points (concat (map utf16_cp cs)) = cs \<and> wf_utf16 (concat (map utf16_cp cs))" for cs
    by (induction cs) (simp_all add: code_points_cp wf_utf16_cp)
  then show ?thesis using A cs(2) by (simp add: text_encode_def)
qed

end
