(* ===== verification/Cbor.thy ===== *)
theory Cbor
  imports Utf8
begin

text \<open>
  \<open>packages/protocol/src/cbor\<close>: the CBOR codec. \<open>CborWriter\<close> is a growing buffer with an
  offset; \<open>encodeItem\<close> writes a value into it; \<open>CborReader\<close> is the bytes not yet read, and
  \<open>readItem\<close> reads a value from their front. Every \<open>throw\<close> is a value of \<open>cbor_error\<close>.

  A value is what the codec distinguishes: null, booleans, numbers, strings, byte arrays,
  arrays, objects (their own entries, which the encoder takes in enumeration order and the
  decoder lists in the order it defines them) and the types it refuses.
\<close>

unbundle bit_operations_syntax

datatype cbor_value =
    CNull
  | CBool bool
  | CNum jsnum
  | CText jstring
  | CBytes "byte list"
  | CArr "cbor_value list"
  | CObj "(jstring \<times> cbor_value) list"
  | CUnsupported

datatype cbor_error =
    OptionRange
  | DepthExceeded
  | NonFiniteNumber
  | IntegerUnsafe
  | NegativeUnsafe
  | TextTooLong
  | BytesTooLong
  | ArrayTooLong
  | MapTooLong
  | UnsupportedType
  | OutputTooLong
  | TrailingData
  | DecodedUnsafe
  | InvalidUtf8
  | KeyNotString
  | DuplicateKey
  | TagsUnsupported
  | DecodedNotFinite
  | UnsupportedSimple
  | UnexpectedEnd
  | UnsupportedInfo
  | LengthExceeded
  | MalformedMajorType

section \<open>Options\<close>

record cbor_options =
  co_maxByteLength :: nat
  co_maxContainerLength :: nat
  co_maxDepth :: nat

record cbor_raw_options =
  ro_maxByteLength :: "jsnum option"
  ro_maxContainerLength :: "jsnum option"
  ro_maxDepth :: "jsnum option"

definition MAX_CONFIGURED_DEPTH :: nat where
  "MAX_CONFIGURED_DEPTH = 512"

definition DEFAULT_MAX_CBOR_BYTE_LENGTH :: nat where
  "DEFAULT_MAX_CBOR_BYTE_LENGTH = 16777216"

definition DEFAULT_MAX_CBOR_CONTAINER_LENGTH :: nat where
  "DEFAULT_MAX_CBOR_CONTAINER_LENGTH = 1000000"

definition DEFAULT_MAX_CBOR_DEPTH :: nat where
  "DEFAULT_MAX_CBOR_DEPTH = 64"

definition resolveLimit :: "jsnum \<Rightarrow> nat \<Rightarrow> (cbor_error, nat) res" where
  "resolveLimit value maximum =
     (case value of
        NInt i \<Rightarrow> (if \<not> is_safe_integer i \<or> i < 0 \<or> i > int maximum then Throw OptionRange else Ok (nat i))
      | NDbl w \<Rightarrow> Throw OptionRange)"

definition option_or :: "jsnum option \<Rightarrow> nat \<Rightarrow> jsnum" where
  "option_or v d = (case v of None \<Rightarrow> NInt (int d) | Some x \<Rightarrow> x)"

definition resolveOptions :: "cbor_raw_options \<Rightarrow> (cbor_error, cbor_options) res" where
  "resolveOptions opt =
     rbind (resolveLimit (option_or (ro_maxByteLength opt) DEFAULT_MAX_CBOR_BYTE_LENGTH) MAX_UINT32) (\<lambda>b.
     rbind (resolveLimit (option_or (ro_maxContainerLength opt) DEFAULT_MAX_CBOR_CONTAINER_LENGTH) MAX_UINT32) (\<lambda>c.
     rbind (resolveLimit (option_or (ro_maxDepth opt) DEFAULT_MAX_CBOR_DEPTH) MAX_CONFIGURED_DEPTH) (\<lambda>d.
       Ok \<lparr>co_maxByteLength = b, co_maxContainerLength = c, co_maxDepth = d\<rparr>)))"

section \<open>Numbers as the 64 bits of a double\<close>

definition f64_exp :: "64 word \<Rightarrow> nat" where
  "f64_exp w = unat w div 2 ^ 52 mod 2048"

definition f64_man :: "64 word \<Rightarrow> nat" where
  "f64_man w = unat w mod 2 ^ 52"

definition f64_neg :: "64 word \<Rightarrow> bool" where
  "f64_neg w \<longleftrightarrow> 2 ^ 63 \<le> unat w"

definition f64_finite :: "64 word \<Rightarrow> bool" where
  "f64_finite w \<longleftrightarrow> f64_exp w \<noteq> 2047"

definition f64_neg_zero :: "64 word" where
  "f64_neg_zero = 0x8000000000000000"

text \<open>The magnitude of a finite double that is an integer, if it is one.\<close>

definition f64_int :: "64 word \<Rightarrow> nat option" where
  "f64_int w =
     (let e = f64_exp w; m = f64_man w
      in if e = 0 then (if m = 0 then Some 0 else None)
         else if e \<ge> 1075 then Some ((m + 2 ^ 52) * 2 ^ (e - 1075))
         else if e \<ge> 1023 \<and> (m + 2 ^ 52) mod 2 ^ (1075 - e) = 0 then Some ((m + 2 ^ 52) div 2 ^ (1075 - e))
         else None)"

definition num_of_bits :: "64 word \<Rightarrow> jsnum" where
  "num_of_bits w =
     (if f64_finite w \<and> w \<noteq> f64_neg_zero
      then case f64_int w of
             Some n \<Rightarrow> NInt (if f64_neg w then - int n else int n)
           | None \<Rightarrow> NDbl w
      else NDbl w)"

section \<open>The writer\<close>

record cbor_writer =
  cw_buffer :: "byte list"
  cw_offset :: nat
  cw_maxByteLength :: nat

definition newWriter :: "nat \<Rightarrow> cbor_writer" where
  "newWriter m = \<lparr>cw_buffer = replicate (min 256 m) 0, cw_offset = 0, cw_maxByteLength = m\<rparr>"

text \<open>
  The capacity loop. It is only reached when \<open>required \<le> maxByteLength\<close>, which its condition
  repeats so that the recursion is seen to end.
\<close>

function grow :: "nat \<Rightarrow> nat \<Rightarrow> nat \<Rightarrow> nat" where
  "grow m required capacity =
     (if capacity < required \<and> required \<le> m
      then grow m required (min m (max required (capacity * 2))) else capacity)"
  by pat_completeness auto
termination
  by (relation "measure (\<lambda>(m, required, capacity). required - capacity)") auto

declare grow.simps [simp del]

definition ensureCapacity :: "nat \<Rightarrow> cbor_writer \<Rightarrow> (cbor_error, cbor_writer) res" where
  "ensureCapacity additionalBytes w =
     (let required = cw_offset w + additionalBytes
      in if required > cw_maxByteLength w then Throw OutputTooLong
         else if required \<le> length (cw_buffer w) then Ok w
         else let capacity = grow (cw_maxByteLength w) required (max 1 (length (cw_buffer w)))
              in Ok (w\<lparr>cw_buffer := set_at (replicate capacity 0) 0 (cw_buffer w)\<rparr>))"

definition writeByte :: "nat \<Rightarrow> cbor_writer \<Rightarrow> (cbor_error, cbor_writer) res" where
  "writeByte value w = rbind (ensureCapacity 1 w) (\<lambda>w.
     Ok (w\<lparr>cw_buffer := (cw_buffer w)[cw_offset w := of_nat value], cw_offset := cw_offset w + 1\<rparr>))"

definition writeBytes :: "byte list \<Rightarrow> cbor_writer \<Rightarrow> (cbor_error, cbor_writer) res" where
  "writeBytes bytes w = rbind (ensureCapacity (length bytes) w) (\<lambda>w.
     Ok (w\<lparr>cw_buffer := set_at (cw_buffer w) (cw_offset w) bytes,
           cw_offset := cw_offset w + length bytes\<rparr>))"

definition writeUint16 :: "nat \<Rightarrow> cbor_writer \<Rightarrow> (cbor_error, cbor_writer) res" where
  "writeUint16 value w = rbind (ensureCapacity 2 w) (\<lambda>w.
     Ok (w\<lparr>cw_buffer := (cw_buffer w)
             [cw_offset w := of_nat (value div 2 ^ 8), cw_offset w + 1 := of_nat value],
           cw_offset := cw_offset w + 2\<rparr>))"

definition writeUint32 :: "nat \<Rightarrow> cbor_writer \<Rightarrow> (cbor_error, cbor_writer) res" where
  "writeUint32 value w = rbind (ensureCapacity 4 w) (\<lambda>w.
     Ok (w\<lparr>cw_buffer := (cw_buffer w)
             [cw_offset w := of_nat (value div 2 ^ 24), cw_offset w + 1 := of_nat (value div 2 ^ 16),
              cw_offset w + 2 := of_nat (value div 2 ^ 8), cw_offset w + 3 := of_nat value],
           cw_offset := cw_offset w + 4\<rparr>))"

definition writeUint64 :: "nat \<Rightarrow> cbor_writer \<Rightarrow> (cbor_error, cbor_writer) res" where
  "writeUint64 value w =
     (let high = value div UINT32_BASE; low = value - high * UINT32_BASE
      in rbind (writeUint32 high w) (writeUint32 low))"

definition writeFloat64 :: "64 word \<Rightarrow> cbor_writer \<Rightarrow> (cbor_error, cbor_writer) res" where
  "writeFloat64 value w = rbind (ensureCapacity 9 w) (\<lambda>w.
     Ok (w\<lparr>cw_buffer := set_at ((cw_buffer w)[cw_offset w := 0xfb]) (cw_offset w + 1)
             (be32 (unat value div 2 ^ 32) @ be32 (unat value)),
           cw_offset := cw_offset w + 9\<rparr>))"

definition finishWriter :: "cbor_writer \<Rightarrow> byte list" where
  "finishWriter w = take (cw_offset w) (cw_buffer w)"

definition writeArgument :: "nat \<Rightarrow> nat \<Rightarrow> cbor_writer \<Rightarrow> (cbor_error, cbor_writer) res" where
  "writeArgument majorType value w =
     (let prefix = push_bit 5 majorType
      in if value < 24 then writeByte (prefix OR value) w
         else if value \<le> 0xff then rbind (writeByte (prefix OR 24) w) (writeByte value)
         else if value \<le> 0xffff then rbind (writeByte (prefix OR 25) w) (writeUint16 value)
         else if value \<le> MAX_UINT32 then rbind (writeByte (prefix OR 26) w) (writeUint32 value)
         else rbind (writeByte (prefix OR 27) w) (writeUint64 value))"

section \<open>The encoder\<close>

definition encodeNumber :: "jsnum \<Rightarrow> cbor_writer \<Rightarrow> (cbor_error, cbor_writer) res" where
  "encodeNumber n w =
     (case n of
        NInt i \<Rightarrow>
          (if i \<ge> 0 then (if i > MAX_SAFE_INTEGER then Throw IntegerUnsafe else writeArgument 0 (nat i) w)
           else let magnitude = - 1 - i
                in if magnitude < 0 \<or> magnitude > MAX_SAFE_INTEGER then Throw NegativeUnsafe
                   else writeArgument 1 (nat magnitude) w)
      | NDbl d \<Rightarrow>
          (if \<not> f64_finite d then Throw NonFiniteNumber
           else if d = f64_neg_zero then writeArgument 0 0 w
           else writeFloat64 d w))"

definition encodeText :: "cbor_options \<Rightarrow> jstring \<Rightarrow> cbor_writer \<Rightarrow> (cbor_error, cbor_writer) res" where
  "encodeText opt s w =
     (let bytes = text_encode s
      in if length bytes > co_maxByteLength opt then Throw TextTooLong
         else rbind (writeArgument 3 (length bytes) w) (writeBytes bytes))"

fun encodeItem :: "cbor_options \<Rightarrow> nat \<Rightarrow> cbor_value \<Rightarrow> cbor_writer \<Rightarrow> (cbor_error, cbor_writer) res"
and encodeItems :: "cbor_options \<Rightarrow> nat \<Rightarrow> cbor_value list \<Rightarrow> cbor_writer \<Rightarrow> (cbor_error, cbor_writer) res"
and encodeEntries ::
  "cbor_options \<Rightarrow> nat \<Rightarrow> (jstring \<times> cbor_value) list \<Rightarrow> cbor_writer \<Rightarrow> (cbor_error, cbor_writer) res"
where
  "encodeItem opt depth value w =
     (if depth > co_maxDepth opt then Throw DepthExceeded
      else case value of
        CNull \<Rightarrow> writeByte 0xf6 w
      | CBool False \<Rightarrow> writeByte 0xf4 w
      | CBool True \<Rightarrow> writeByte 0xf5 w
      | CNum n \<Rightarrow> encodeNumber n w
      | CText s \<Rightarrow> encodeText opt s w
      | CBytes bs \<Rightarrow>
          (if length bs > co_maxByteLength opt then Throw BytesTooLong
           else rbind (writeArgument 2 (length bs) w) (writeBytes bs))
      | CArr vs \<Rightarrow>
          (if length vs > co_maxContainerLength opt then Throw ArrayTooLong
           else rbind (writeArgument 4 (length vs) w) (encodeItems opt (depth + 1) vs))
      | CObj es \<Rightarrow>
          (if length es > co_maxContainerLength opt then Throw MapTooLong
           else rbind (writeArgument 5 (length es) w) (encodeEntries opt (depth + 1) es))
      | CUnsupported \<Rightarrow> Throw UnsupportedType)"
| "encodeItems opt depth [] w = Ok w"
| "encodeItems opt depth (v # vs) w = rbind (encodeItem opt depth v w) (encodeItems opt depth vs)"
| "encodeEntries opt depth [] w = Ok w"
| "encodeEntries opt depth ((k, v) # es) w =
     rbind (if depth > co_maxDepth opt then Throw DepthExceeded else encodeText opt k w) (\<lambda>w.
     rbind (encodeItem opt depth v w) (encodeEntries opt depth es))"

declare encodeItem.simps [simp del]

definition encodeCbor :: "cbor_value \<Rightarrow> cbor_raw_options \<Rightarrow> (cbor_error, byte list) res" where
  "encodeCbor value options =
     rbind (resolveOptions options) (\<lambda>resolved.
     rbind (encodeItem resolved 0 value (newWriter (co_maxByteLength resolved))) (\<lambda>w.
       Ok (finishWriter w)))"

section \<open>The decoder\<close>

type_synonym 'a reader = "(cbor_error, 'a \<times> byte list) res"

definition readByte :: "byte list \<Rightarrow> nat reader" where
  "readByte bs = (case bs of [] \<Rightarrow> Throw UnexpectedEnd | b # rest \<Rightarrow> Ok (unat b, rest))"

definition readBytes :: "nat \<Rightarrow> byte list \<Rightarrow> byte list reader" where
  "readBytes len bs = (if len > length bs then Throw UnexpectedEnd else Ok (take len bs, drop len bs))"

definition safe_nat :: "nat \<Rightarrow> byte list \<Rightarrow> nat reader" where
  "safe_nat value bs = (if is_safe_integer (int value) then Ok (value, bs) else Throw DecodedUnsafe)"

definition readArgument :: "nat \<Rightarrow> byte list \<Rightarrow> nat reader" where
  "readArgument info bs =
     (if info < 24 then Ok (info, bs)
      else if info = 24 then readByte bs
      else if info = 25 then
        rbind (readBytes 2 bs) (\<lambda>(b, rest). Ok (unat (b ! 0) * 256 + unat (b ! 1), rest))
      else if info = 26 then
        rbind (readBytes 4 bs) (\<lambda>(b, rest).
          safe_nat (unat (b ! 0) * 16777216 + unat (b ! 1) * 65536 + unat (b ! 2) * 256 + unat (b ! 3)) rest)
      else if info = 27 then
        rbind (readBytes 8 bs) (\<lambda>(b, rest).
          (let high = unat (b ! 0) * 16777216 + unat (b ! 1) * 65536 + unat (b ! 2) * 256 + unat (b ! 3);
               low = unat (b ! 4) * 16777216 + unat (b ! 5) * 65536 + unat (b ! 6) * 256 + unat (b ! 7)
           in safe_nat (high * UINT32_BASE + low) rest))
      else Throw UnsupportedInfo)"

definition readLength :: "nat \<Rightarrow> nat \<Rightarrow> byte list \<Rightarrow> nat reader" where
  "readLength info limit bs =
     rbind (readArgument info bs) (\<lambda>(len, rest).
       if len > limit then Throw LengthExceeded else Ok (len, rest))"

definition readSimple :: "nat \<Rightarrow> byte list \<Rightarrow> cbor_value reader" where
  "readSimple info bs =
     (if info = 20 then Ok (CBool False, bs)
      else if info = 21 then Ok (CBool True, bs)
      else if info = 22 then Ok (CNull, bs)
      else if info = 27 then
        rbind (readBytes 8 bs) (\<lambda>(b, rest).
          let w = word_of_nat (be_val b)
          in if \<not> f64_finite w then Throw DecodedNotFinite
             else case num_of_bits w of
                    NInt i \<Rightarrow> (if is_safe_integer i then Ok (CNum (NInt i), rest) else Throw DecodedUnsafe)
                  | NDbl d \<Rightarrow> Ok (CNum (NDbl d), rest))
      else Throw UnsupportedSimple)"

definition readText :: "cbor_options \<Rightarrow> nat \<Rightarrow> byte list \<Rightarrow> cbor_value reader" where
  "readText opt info bs =
     rbind (readLength info (co_maxByteLength opt) bs) (\<lambda>(len, rest).
     rbind (readBytes len rest) (\<lambda>(b, rest).
       case text_decode b of None \<Rightarrow> Throw InvalidUtf8 | Some s \<Rightarrow> Ok (CText s, rest)))"

function (sequential) readItem :: "cbor_options \<Rightarrow> nat \<Rightarrow> byte list \<Rightarrow> cbor_value reader"
and readItems :: "cbor_options \<Rightarrow> nat \<Rightarrow> nat \<Rightarrow> byte list \<Rightarrow> cbor_value list reader"
and readEntries ::
  "cbor_options \<Rightarrow> nat \<Rightarrow> nat \<Rightarrow> (jstring \<times> cbor_value) list \<Rightarrow> byte list
     \<Rightarrow> (jstring \<times> cbor_value) list reader"
where
  "readItem opt depth bs =
     (if depth > co_maxDepth opt then Throw DepthExceeded
      else rbind (readByte bs) (\<lambda>(initial, bs).
        let majorType = initial div 32; info = initial mod 32
        in if majorType = 0 then rbind (readArgument info bs) (\<lambda>(n, bs). Ok (CNum (NInt (int n)), bs))
           else if majorType = 1 then
             rbind (readArgument info bs) (\<lambda>(n, bs).
               if is_safe_integer (- 1 - int n) then Ok (CNum (NInt (- 1 - int n)), bs)
               else Throw DecodedUnsafe)
           else if majorType = 2 then
             rbind (readLength info (co_maxByteLength opt) bs) (\<lambda>(len, bs).
             rbind (readBytes len bs) (\<lambda>(b, bs). Ok (CBytes b, bs)))
           else if majorType = 3 then readText opt info bs
           else if majorType = 4 then
             rbind (readLength info (co_maxContainerLength opt) bs) (\<lambda>(len, bs).
             rbind (readItems opt (depth + 1) len bs) (\<lambda>(vs, bs). Ok (CArr vs, bs)))
           else if majorType = 5 then
             rbind (readLength info (co_maxContainerLength opt) bs) (\<lambda>(len, bs).
             rbind (readEntries opt (depth + 1) len [] bs) (\<lambda>(es, bs). Ok (CObj es, bs)))
           else if majorType = 6 then Throw TagsUnsupported
           else if majorType = 7 then readSimple info bs
           else Throw MalformedMajorType))"
| "readItems opt depth 0 bs = Ok ([], bs)"
| "readItems opt depth (Suc n) bs =
     rbind (readItem opt depth bs) (\<lambda>(v, bs).
     rbind (readItems opt depth n bs) (\<lambda>(vs, bs). Ok (v # vs, bs)))"
| "readEntries opt depth 0 acc bs = Ok (acc, bs)"
| "readEntries opt depth (Suc n) acc bs =
     rbind (readItem opt depth bs) (\<lambda>(k, bs).
       case k of
         CText s \<Rightarrow>
           (if s \<in> set (map fst acc) then Throw DuplicateKey
            else rbind (readItem opt depth bs) (\<lambda>(v, bs). readEntries opt depth n (acc @ [(s, v)]) bs))
       | _ \<Rightarrow> Throw KeyNotString)"
  by pat_completeness auto
termination
  by (relation "measures
      [\<lambda>x. case x of Inl (opt, d, _) \<Rightarrow> Suc (co_maxDepth opt) - d
                 | Inr (Inl (opt, d, _, _)) \<Rightarrow> Suc (co_maxDepth opt) - d
                 | Inr (Inr (opt, d, _, _, _)) \<Rightarrow> Suc (co_maxDepth opt) - d,
       \<lambda>x. case x of Inl _ \<Rightarrow> 0 | Inr _ \<Rightarrow> 1,
       \<lambda>x. case x of Inl _ \<Rightarrow> 0 | Inr (Inl (_, _, n, _)) \<Rightarrow> n | Inr (Inr (_, _, n, _, _)) \<Rightarrow> n]")
    auto

declare readItem.simps [simp del]

definition decodeCbor :: "byte list \<Rightarrow> cbor_raw_options \<Rightarrow> (cbor_error, cbor_value) res" where
  "decodeCbor bytes options =
     rbind (resolveOptions options) (\<lambda>resolved.
     rbind (readItem resolved 0 bytes) (\<lambda>(value, rest).
       if rest \<noteq> [] then Throw TrailingData else Ok value))"

end
