(* ===== verification/CborProofs.thy ===== *)
theory CborProofs
  imports Cbor
begin

text \<open>
  Correctness of the CBOR codec. The writer appends: \<open>emits w bs r\<close> says that the operation
  with result \<open>r\<close> appends exactly \<open>bs\<close> to the writer, or throws because the output limit
  is too small for them. \<open>item_bytes\<close> is the encoding as a pure function and \<open>cbor_fits\<close> the
  limits a value has to respect; the encoder is characterised by both, and the decoder is
  its inverse on the values of \<open>cbor_wf\<close>.
\<close>

section \<open>The writer appends\<close>

definition cw_inv :: "cbor_writer \<Rightarrow> bool" where
  "cw_inv w \<longleftrightarrow> cw_offset w \<le> length (cw_buffer w) \<and> cw_offset w \<le> cw_maxByteLength w"

definition appends :: "cbor_writer \<Rightarrow> cbor_writer \<Rightarrow> byte list \<Rightarrow> bool" where
  "appends w w' bs \<longleftrightarrow> cw_inv w' \<and> cw_maxByteLength w' = cw_maxByteLength w \<and>
     cw_offset w' = cw_offset w + length bs \<and> finishWriter w' = finishWriter w @ bs"

definition emits :: "cbor_writer \<Rightarrow> byte list \<Rightarrow> (cbor_error, cbor_writer) res \<Rightarrow> bool" where
  "emits w bs r \<longleftrightarrow> (if cw_offset w + length bs \<le> cw_maxByteLength w
     then \<exists>w'. r = Ok w' \<and> appends w w' bs else r = Throw OutputTooLong)"

lemma emits_bind:
  assumes "emits w bs r" "\<And>w'. appends w w' bs \<Longrightarrow> emits w' cs (f w')"
  shows "emits w (bs @ cs) (rbind r f)"
proof (cases "cw_offset w + length bs \<le> cw_maxByteLength w")
  case True
  then obtain w' where w': "r = Ok w'" "appends w w' bs" using assms(1) by (auto simp: emits_def)
  from assms(2) [OF w'(2)] w' show ?thesis
    by (auto simp: emits_def appends_def algebra_simps split: if_splits)
next
  case False
  with assms(1) show ?thesis by (auto simp: emits_def)
qed

lemma grow_ge: "required \<le> m \<Longrightarrow> required \<le> grow m required c \<and> c \<le> grow m required c"
proof (induction m required c rule: grow.induct)
  case (1 m required c)
  show ?case
  proof (cases "c < required \<and> required \<le> m")
    case True
    then have "c \<le> min m (max required (c * 2))" by simp
    with True "1.IH" show ?thesis by (subst (1 2) grow.simps) auto
  next
    case False
    with "1.prems" show ?thesis by (simp add: grow.simps [of m required c])
  qed
qed

lemma ensureCapacity_ok:
  assumes "cw_inv w"
  shows "if cw_offset w + n \<le> cw_maxByteLength w
    then \<exists>w'. ensureCapacity n w = Ok w' \<and> cw_maxByteLength w' = cw_maxByteLength w \<and>
      cw_offset w' = cw_offset w \<and> finishWriter w' = finishWriter w \<and>
      cw_offset w + n \<le> length (cw_buffer w')
    else ensureCapacity n w = Throw OutputTooLong"
proof (cases "cw_offset w + n \<le> cw_maxByteLength w")
  case True
  define c where "c = grow (cw_maxByteLength w) (cw_offset w + n) (max 1 (length (cw_buffer w)))"
  have "cw_offset w + n \<le> c" "max 1 (length (cw_buffer w)) \<le> c"
    using grow_ge [OF True] by (auto simp: c_def)
  then show ?thesis
    using True assms
    unfolding ensureCapacity_def Let_def c_def [symmetric]
    by (auto simp: finishWriter_def cw_inv_def set_at_def)
next
  case False
  then show ?thesis by (simp add: ensureCapacity_def)
qed

text \<open>All the writing primitives: make room, store at the offset, advance it.\<close>

lemma emits_store:
  assumes "cw_inv w" "length bs = n"
    and "\<And>buf off. off + n \<le> length buf \<Longrightarrow> upd buf off = set_at buf off bs"
  shows "emits w bs (rbind (ensureCapacity n w) (\<lambda>w.
    Ok (w\<lparr>cw_buffer := upd (cw_buffer w) (cw_offset w), cw_offset := cw_offset w + n\<rparr>)))"
proof (cases "cw_offset w + n \<le> cw_maxByteLength w")
  case True
  then obtain w1 where w1: "ensureCapacity n w = Ok w1" "cw_maxByteLength w1 = cw_maxByteLength w"
    "cw_offset w1 = cw_offset w" "finishWriter w1 = finishWriter w" "cw_offset w + n \<le> length (cw_buffer w1)"
    using ensureCapacity_ok [OF assms(1), of n] by auto
  have "upd (cw_buffer w1) (cw_offset w1) = set_at (cw_buffer w1) (cw_offset w1) bs"
    using assms(3) w1 by simp
  then show ?thesis
    using True w1 assms(2) take_set_at [of "cw_offset w" bs "cw_buffer w1"]
    by (simp add: emits_def appends_def cw_inv_def finishWriter_def)
next
  case False
  then show ?thesis
    using ensureCapacity_ok [OF assms(1), of n] assms(2) by (simp add: emits_def)
qed

lemma set_at_nth: "off < length buf \<Longrightarrow> buf[off := b] = set_at buf off [b]"
  by (simp add: set_at_def upd_conv_take_nth_drop)

lemma set_at_set_at: "off' = off + length xs \<Longrightarrow> off + length xs + length ys \<le> length buf \<Longrightarrow>
    set_at (set_at buf off xs) off' ys = set_at buf off (xs @ ys)"
  by (simp add: set_at_def ac_simps)

lemmas store_simps = set_at_nth set_at_set_at

lemma emits_writeByte: "cw_inv w \<Longrightarrow> emits w [of_nat v] (writeByte v w)"
  unfolding writeByte_def
  by (rule emits_store [where upd = "\<lambda>buf off. buf[off := of_nat v]"]) (auto simp: set_at_nth)

lemma emits_writeBytes: "cw_inv w \<Longrightarrow> emits w bs (writeBytes bs w)"
  unfolding writeBytes_def
  by (rule emits_store [where upd = "\<lambda>buf off. set_at buf off bs"]) auto

lemma emits_writeUint16: "cw_inv w \<Longrightarrow> emits w (be16 v) (writeUint16 v w)"
  unfolding writeUint16_def
  by (rule emits_store [where upd = "\<lambda>buf off. buf[off := of_nat (v div 2 ^ 8), off + 1 := of_nat v]"])
    (auto simp: be16_def store_simps)

lemma emits_writeUint32: "cw_inv w \<Longrightarrow> emits w (be32 v) (writeUint32 v w)"
  unfolding writeUint32_def
  by (rule emits_store [where upd = "\<lambda>buf off. buf[off := of_nat (v div 2 ^ 24),
      off + 1 := of_nat (v div 2 ^ 16), off + 2 := of_nat (v div 2 ^ 8), off + 3 := of_nat v]"])
    (auto simp: be32_def store_simps)

lemma emits_writeFloat64:
  "cw_inv w \<Longrightarrow> emits w (0xfb # be32 (unat v div 2 ^ 32) @ be32 (unat v)) (writeFloat64 v w)"
  unfolding writeFloat64_def
  by (rule emits_store [where upd = "\<lambda>buf off. set_at (buf[off := 0xfb]) (off + 1)
        (be32 (unat v div 2 ^ 32) @ be32 (unat v))"])
    (auto simp: store_simps)

definition arg_bytes :: "nat \<Rightarrow> nat \<Rightarrow> byte list" where
  "arg_bytes m v =
     (if v < 24 then [of_nat (32 * m + v)]
      else if v \<le> 0xff then [of_nat (32 * m + 24), of_nat v]
      else if v \<le> 0xffff then of_nat (32 * m + 25) # be16 v
      else if v \<le> MAX_UINT32 then of_nat (32 * m + 26) # be32 v
      else of_nat (32 * m + 27) # be32 (v div UINT32_BASE) @ be32 (v mod UINT32_BASE))"

lemma prefix_or: "m < 8 \<Longrightarrow> v < 28 \<Longrightarrow> push_bit 5 m OR v = 32 * m + (v :: nat)"
proof -
  have "\<forall>m \<in> set [0..<8]. \<forall>v \<in> set [0..<28]. push_bit 5 m OR v = 32 * m + (v :: nat)"
    by code_simp
  then show "m < 8 \<Longrightarrow> v < 28 \<Longrightarrow> ?thesis" by simp
qed

lemma emits_writeArgument:
  assumes "cw_inv w" "m < 8"
  shows "emits w (arg_bytes m v) (writeArgument m v w)"
proof -
  have inv: "appends w w' bs \<Longrightarrow> cw_inv w'" for w w' bs by (simp add: appends_def)
  have two: "emits w ([of_nat (32 * m + k)] @ cs) (rbind (writeByte (32 * m + k) w) f)"
    if "\<And>w'. cw_inv w' \<Longrightarrow> emits w' cs (f w')" for k cs f
    using emits_bind [OF emits_writeByte [OF assms(1)]] that inv by blast
  have u64: "emits w' (be32 (v div UINT32_BASE) @ be32 (v mod UINT32_BASE)) (writeUint64 v w')"
    if "cw_inv w'" for w'
    unfolding writeUint64_def Let_def minus_div_mult_eq_mod
    using emits_bind [OF emits_writeUint32 [OF that]] emits_writeUint32 inv by blast
  show ?thesis
    using assms(2) emits_writeByte [OF assms(1)] two [OF emits_writeByte] two [OF emits_writeUint16]
      two [OF emits_writeUint32] two [OF u64]
    by (auto simp: writeArgument_def arg_bytes_def Let_def prefix_or simp del: of_nat_add of_nat_mult)
qed

section \<open>The encoding as a pure function\<close>

definition text_bytes :: "jstring \<Rightarrow> byte list" where
  "text_bytes s = arg_bytes 3 (length (text_encode s)) @ text_encode s"

fun num_bytes :: "jsnum \<Rightarrow> byte list" where
  "num_bytes (NInt i) = (if i \<ge> 0 then arg_bytes 0 (nat i) else arg_bytes 1 (nat (- 1 - i)))"
| "num_bytes (NDbl d) = (if d = f64_neg_zero then arg_bytes 0 0
     else 0xfb # be32 (unat d div 2 ^ 32) @ be32 (unat d))"

fun item_bytes :: "cbor_value \<Rightarrow> byte list"
and entries_bytes :: "(jstring \<times> cbor_value) list \<Rightarrow> byte list" where
  "item_bytes CNull = [0xf6]"
| "item_bytes (CBool b) = [if b then 0xf5 else 0xf4]"
| "item_bytes (CNum n) = num_bytes n"
| "item_bytes (CText s) = text_bytes s"
| "item_bytes (CBytes bs) = arg_bytes 2 (length bs) @ bs"
| "item_bytes (CArr vs) = arg_bytes 4 (length vs) @ concat (map item_bytes vs)"
| "item_bytes (CObj es) = arg_bytes 5 (length es) @ entries_bytes es"
| "item_bytes CUnsupported = []"
| "entries_bytes [] = []"
| "entries_bytes ((k, v) # es) = text_bytes k @ item_bytes v @ entries_bytes es"

text \<open>What the limits and the number ranges ask of a value at depth \<open>d\<close>.\<close>

fun num_fits :: "jsnum \<Rightarrow> bool" where
  "num_fits (NInt i) = (- MAX_SAFE_INTEGER - 1 \<le> i \<and> i \<le> MAX_SAFE_INTEGER)"
| "num_fits (NDbl d) = f64_finite d"

definition text_fits :: "cbor_options \<Rightarrow> jstring \<Rightarrow> bool" where
  "text_fits opt s \<longleftrightarrow> length (text_encode s) \<le> co_maxByteLength opt"

fun cbor_fits :: "cbor_options \<Rightarrow> nat \<Rightarrow> cbor_value \<Rightarrow> bool"
and entries_fit :: "cbor_options \<Rightarrow> nat \<Rightarrow> (jstring \<times> cbor_value) list \<Rightarrow> bool" where
  "cbor_fits opt d CNull = (d \<le> co_maxDepth opt)"
| "cbor_fits opt d (CBool b) = (d \<le> co_maxDepth opt)"
| "cbor_fits opt d (CNum n) = (d \<le> co_maxDepth opt \<and> num_fits n)"
| "cbor_fits opt d (CText s) = (d \<le> co_maxDepth opt \<and> text_fits opt s)"
| "cbor_fits opt d (CBytes bs) = (d \<le> co_maxDepth opt \<and> length bs \<le> co_maxByteLength opt)"
| "cbor_fits opt d (CArr vs) = (d \<le> co_maxDepth opt \<and> length vs \<le> co_maxContainerLength opt \<and>
     (\<forall>v \<in> set vs. cbor_fits opt (d + 1) v))"
| "cbor_fits opt d (CObj es) = (d \<le> co_maxDepth opt \<and> length es \<le> co_maxContainerLength opt \<and>
     entries_fit opt (d + 1) es)"
| "cbor_fits opt d CUnsupported = False"
| "entries_fit opt d [] = True"
| "entries_fit opt d ((k, v) # es) =
     (d \<le> co_maxDepth opt \<and> text_fits opt k \<and> cbor_fits opt d v \<and> entries_fit opt d es)"

text \<open>A step of the encoder meets its description: it emits the bytes, or cannot return.\<close>

definition meets :: "cbor_writer \<Rightarrow> bool \<Rightarrow> byte list \<Rightarrow> (cbor_error, cbor_writer) res \<Rightarrow> bool" where
  "meets w fits bs r \<longleftrightarrow> (if fits then emits w bs r else \<not> is_ok r)"

lemma is_ok_rbind: "is_ok (rbind r f) \<longleftrightarrow> (\<exists>x. r = Inr x \<and> is_ok (f x))"
  by (cases r) auto

lemma appends_inv: "appends w w' bs \<Longrightarrow> cw_inv w'"
  by (simp add: appends_def)

lemma meets_bind:
  assumes "meets w P bs r" "\<And>w'. cw_inv w' \<Longrightarrow> meets w' Q cs (f w')"
  shows "meets w (P \<and> Q) (bs @ cs) (rbind r f)"
proof (cases P)
  case False
  with assms(1) show ?thesis by (simp add: meets_def is_ok_rbind) (metis is_ok.simps(2))
next
  case True
  then have r: "emits w bs r" using assms(1) by (simp add: meets_def)
  show ?thesis
  proof (cases Q)
    case True
    with \<open>P\<close> assms(2) r show ?thesis
      by (auto simp: meets_def intro!: emits_bind dest: appends_inv)
  next
    case False
    with \<open>P\<close> assms(2) r show ?thesis
      by (auto simp: meets_def emits_def is_ok_rbind split: if_splits dest: appends_inv)
  qed
qed

lemma meets_emits: "emits w bs r \<Longrightarrow> meets w True bs r"
  by (simp add: meets_def)

lemma encodeNumber_meets: "cw_inv w \<Longrightarrow> meets w (num_fits n) (num_bytes n) (encodeNumber n w)"
  by (cases n)
    (auto simp: encodeNumber_def meets_def emits_writeArgument emits_writeFloat64 [simplified]
      MAX_SAFE_INTEGER_def)

lemma encodeText_meets: "cw_inv w \<Longrightarrow> meets w (text_fits opt s) (text_bytes s) (encodeText opt s w)"
  using meets_bind [OF meets_emits [OF emits_writeArgument [of w 3]] meets_emits [OF emits_writeBytes]]
  by (auto simp: encodeText_def text_fits_def text_bytes_def Let_def meets_def)

lemma encodeItems_meets:
  assumes "\<And>v w. v \<in> set vs \<Longrightarrow> cw_inv w \<Longrightarrow> meets w (cbor_fits opt d v) (item_bytes v) (encodeItem opt d v w)"
    and "cw_inv w"
  shows "meets w (\<forall>v \<in> set vs. cbor_fits opt d v) (concat (map item_bytes vs)) (encodeItems opt d vs w)"
  using assms
proof (induction vs arbitrary: w)
  case Nil
  then show ?case by (simp add: meets_def emits_def appends_def cw_inv_def)
next
  case (Cons v vs)
  have "meets w (cbor_fits opt d v \<and> (\<forall>v \<in> set vs. cbor_fits opt d v)) (item_bytes v @ concat (map item_bytes vs))
      (rbind (encodeItem opt d v w) (encodeItems opt d vs))"
    by (rule meets_bind) (use Cons in auto)
  then show ?case by simp
qed

lemma encodeEntries_meets:
  assumes "\<And>k v w. (k, v) \<in> set es \<Longrightarrow> cw_inv w \<Longrightarrow>
      meets w (cbor_fits opt d v) (item_bytes v) (encodeItem opt d v w)"
    and "cw_inv w"
  shows "meets w (entries_fit opt d es) (entries_bytes es) (encodeEntries opt d es w)"
  using assms
proof (induction es arbitrary: w)
  case Nil
  then show ?case by (simp add: meets_def emits_def appends_def cw_inv_def)
next
  case (Cons e es)
  obtain k v where e: "e = (k, v)" by fastforce
  have key: "meets w' (d \<le> co_maxDepth opt \<and> text_fits opt k) (text_bytes k)
      (if d > co_maxDepth opt then Throw DepthExceeded else encodeText opt k w')" if "cw_inv w'" for w'
    using encodeText_meets [OF that, of opt k] by (auto simp: meets_def)
  have "meets w ((d \<le> co_maxDepth opt \<and> text_fits opt k) \<and> cbor_fits opt d v \<and> entries_fit opt d es)
      (text_bytes k @ item_bytes v @ entries_bytes es) (encodeEntries opt d (e # es) w)"
    unfolding e encodeEntries.simps
    by (intro meets_bind key) (use Cons e in auto)
  then show ?case by (simp add: e)
qed

lemma encodeItem_meets: "cw_inv w \<Longrightarrow> meets w (cbor_fits opt d v) (item_bytes v) (encodeItem opt d v w)"
proof (induction v arbitrary: d w)
  case (CArr vs)
  have "meets w (\<forall>v \<in> set vs. cbor_fits opt (d + 1) v) (item_bytes (CArr vs))
      (rbind (writeArgument 4 (length vs) w) (encodeItems opt (d + 1) vs))"
    using meets_bind [OF meets_emits [OF emits_writeArgument [OF CArr.prems, of 4]] encodeItems_meets] CArr.IH
    by simp
  then show ?case by (auto simp: encodeItem.simps meets_def)
next
  case (CObj es)
  have "meets w (entries_fit opt (d + 1) es) (item_bytes (CObj es))
      (rbind (writeArgument 5 (length es) w) (encodeEntries opt (d + 1) es))"
    using meets_bind [OF meets_emits [OF emits_writeArgument [OF CObj.prems, of 5]]
        encodeEntries_meets [of es opt "d + 1"]] CObj.IH
    by (auto simp: snds.simps)
  then show ?case by (auto simp: encodeItem.simps meets_def)
next
  case (CBytes bs)
  have "meets w True (item_bytes (CBytes bs)) (rbind (writeArgument 2 (length bs) w) (writeBytes bs))"
    using meets_bind [OF meets_emits [OF emits_writeArgument [OF CBytes.prems, of 2]]
        meets_emits [OF emits_writeBytes]]
    by simp
  then show ?case by (auto simp: encodeItem.simps meets_def)
next
  case (CNum n)
  then show ?case using encodeNumber_meets [of w n] by (auto simp: encodeItem.simps meets_def)
next
  case (CText s)
  then show ?case using encodeText_meets [of w opt s] by (auto simp: encodeItem.simps meets_def)
next
  case CNull
  then show ?case using emits_writeByte [of w "0xf6"] by (auto simp: encodeItem.simps meets_def)
next
  case (CBool b)
  then show ?case
    using emits_writeByte [of w "0xf4"] emits_writeByte [of w "0xf5"]
    by (cases b) (auto simp: encodeItem.simps meets_def)
next
  case CUnsupported
  then show ?case by (simp add: encodeItem.simps meets_def)
qed

lemma newWriter_inv: "cw_inv (newWriter m)" "finishWriter (newWriter m) = []"
  "cw_offset (newWriter m) = 0" "cw_maxByteLength (newWriter m) = m"
  by (simp_all add: cw_inv_def newWriter_def finishWriter_def)

lemma encodeCbor_Ok_iff:
  "encodeCbor v options = Ok bs \<longleftrightarrow>
     (\<exists>opt. resolveOptions options = Ok opt \<and> cbor_fits opt 0 v \<and> bs = item_bytes v \<and>
        length bs \<le> co_maxByteLength opt)"
proof -
  have "(\<exists>w. encodeItem opt 0 v (newWriter (co_maxByteLength opt)) = Ok w \<and> finishWriter w = bs) \<longleftrightarrow>
      cbor_fits opt 0 v \<and> bs = item_bytes v \<and> length bs \<le> co_maxByteLength opt" for opt
    using encodeItem_meets [of "newWriter (co_maxByteLength opt)" opt 0 v]
    by (auto simp: newWriter_inv meets_def emits_def appends_def is_ok_iff split: if_splits)
  then show ?thesis by (auto simp: encodeCbor_def)
qed

text \<open>
  C8: the encoder returns exactly when the value fits the limits and its encoding fits the
  output limit, and it then returns that encoding.
\<close>

theorem encodeCbor_iff:
  "encodeCbor v options = Ok bs \<longleftrightarrow>
     (\<exists>opt. resolveOptions options = Ok opt \<and> cbor_fits opt 0 v \<and> bs = item_bytes v \<and>
        length bs \<le> co_maxByteLength opt)"
  by (rule encodeCbor_Ok_iff)

section \<open>The decoder inverts the encoder\<close>

fun num_wf :: "jsnum \<Rightarrow> bool" where
  "num_wf (NInt i) = is_safe_integer i"
| "num_wf (NDbl d) = (f64_finite d \<and> d \<noteq> f64_neg_zero \<and> num_of_bits d = NDbl d)"

text \<open>
  The values the round trip is about: safe integers, finite fractions in their one
  representation, well-formed strings, and objects with distinct keys.
\<close>

fun cbor_wf :: "cbor_value \<Rightarrow> bool"
and entries_wf :: "(jstring \<times> cbor_value) list \<Rightarrow> bool" where
  "cbor_wf CNull = True"
| "cbor_wf (CBool b) = True"
| "cbor_wf (CNum n) = num_wf n"
| "cbor_wf (CText s) = wf_utf16 s"
| "cbor_wf (CBytes bs) = True"
| "cbor_wf (CArr vs) = (\<forall>v \<in> set vs. cbor_wf v)"
| "cbor_wf (CObj es) = (distinct (map fst es) \<and> entries_wf es)"
| "cbor_wf CUnsupported = False"
| "entries_wf [] = True"
| "entries_wf ((k, v) # es) = (wf_utf16 k \<and> cbor_wf v \<and> entries_wf es)"

definition limits_ok :: "cbor_options \<Rightarrow> bool" where
  "limits_ok opt \<longleftrightarrow> co_maxByteLength opt \<le> MAX_UINT32 \<and> co_maxContainerLength opt \<le> MAX_UINT32 \<and>
     co_maxDepth opt \<le> MAX_CONFIGURED_DEPTH"

lemma resolveLimit_le: "resolveLimit v m = Ok n \<Longrightarrow> n \<le> m"
  by (auto simp: resolveLimit_def split: jsnum.splits if_splits)

lemma resolveOptions_ok: "resolveOptions options = Ok opt \<Longrightarrow> limits_ok opt"
  by (auto simp: resolveOptions_def limits_ok_def dest!: resolveLimit_le)

lemma readBytes_append [simp]: "length bs = n \<Longrightarrow> readBytes n (bs @ rest) = Ok (bs, rest)"
  by (auto simp: readBytes_def)

lemma be32_nth_val: "n < 2 ^ 32 \<Longrightarrow>
    unat (be32 n ! 0) * 16777216 + unat (be32 n ! Suc 0) * 65536 + unat (be32 n ! 2) * 256 + unat (be32 n ! 3) = n"
  using be_val_4 [of "be32 n"] be_val_be32 [of n] by simp

lemma be16_nth_val: "n < 2 ^ 16 \<Longrightarrow> unat (be16 n ! 0) * 256 + unat (be16 n ! Suc 0) = n"
  using be_val_be16 [of n] by (simp add: be16_def)

lemma read_arg_bytes:
  assumes "m < 8" "int v \<le> MAX_SAFE_INTEGER"
  shows "\<exists>b info tl. arg_bytes m v = b # tl \<and> unat b div 32 = m \<and> unat b mod 32 = info \<and>
    (\<forall>rest. readArgument info (tl @ rest) = Ok (v, rest))"
proof -
  have head: "unat (of_nat (32 * m + k) :: byte) div 32 = m \<and> unat (of_nat (32 * m + k) :: byte) mod 32 = k"
    if "k < 32" for k
    using that assms(1) unfolding unat_byte_of_nat by (subst mod_less) auto
  have safe: "is_safe_integer (int v)" using assms(2) by (simp add: is_safe_integer_def MAX_SAFE_INTEGER_def)
  have hi: "v div UINT32_BASE < 2 ^ 32" "v mod UINT32_BASE < 2 ^ 32" "v div UINT32_BASE * UINT32_BASE + v mod UINT32_BASE = v"
    using assms(2) by (auto simp: UINT32_BASE_def MAX_SAFE_INTEGER_def less_mult_imp_div_less)
  consider "v < 24" | "24 \<le> v" "v \<le> 0xff" | "0xff < v" "v \<le> 0xffff" | "0xffff < v" "v \<le> MAX_UINT32"
    | "MAX_UINT32 < v" by linarith
  then show ?thesis
  proof cases
    case 1
    then show ?thesis using head [of v] by (simp add: arg_bytes_def readArgument_def)
  next
    case 2
    then show ?thesis using head [of 24]
      by (simp add: arg_bytes_def readArgument_def readByte_def del: of_nat_add of_nat_mult)
  next
    case 3
    then have "\<forall>rest. readArgument 25 (be16 v @ rest) = Ok (v, rest)"
      using be16_nth_val [of v] by (simp add: readArgument_def)
    with 3 show ?thesis using head [of 25]
      by (simp add: arg_bytes_def del: of_nat_add of_nat_mult)
  next
    case 4
    then have "\<forall>rest. readArgument 26 (be32 v @ rest) = Ok (v, rest)"
      using be32_nth_val [of v] safe by (simp add: readArgument_def safe_nat_def MAX_UINT32_def)
    with 4 show ?thesis using head [of 26]
      by (simp add: arg_bytes_def MAX_UINT32_def del: of_nat_add of_nat_mult)
  next
    case 5
    let ?h = "be32 (v div UINT32_BASE)" and ?l = "be32 (v mod UINT32_BASE)"
    have nth: "(?h @ ?l) ! 0 = ?h ! 0" "(?h @ ?l) ! 1 = ?h ! Suc 0" "(?h @ ?l) ! 2 = ?h ! 2"
      "(?h @ ?l) ! 3 = ?h ! 3" "(?h @ ?l) ! 4 = ?l ! 0" "(?h @ ?l) ! 5 = ?l ! Suc 0"
      "(?h @ ?l) ! 6 = ?l ! 2" "(?h @ ?l) ! 7 = ?l ! 3"
      by (simp_all add: nth_append)
    have "readArgument 27 ((?h @ ?l) @ rest) = Ok (v, rest)" for rest
    proof -
      have "readBytes 8 ((?h @ ?l) @ rest) = Ok (?h @ ?l, rest)" by (rule readBytes_append) simp
      then show ?thesis
        unfolding readArgument_def
        by (simp only: rbind.simps prod.case Let_def nth be32_nth_val [OF hi(1)] be32_nth_val [OF hi(2)] hi(3))
          (simp add: safe_nat_def safe)
    qed
    with 5 show ?thesis using head [of 27]
      by (simp add: arg_bytes_def MAX_UINT32_def del: of_nat_add of_nat_mult)
  qed
qed

lemma be32_mod: "be32 (n mod 2 ^ 32) = be32 n"
proof -
  define q r where "q = n div 2 ^ 32" and "r = n mod 2 ^ 32"
  have n: "n = q * 256 * 2 ^ 24 + r" by (simp add: q_def r_def)
  have n': "n = q * 65536 * 2 ^ 16 + r" "n = q * 16777216 * 2 ^ 8 + r" "n = q * 2 ^ 24 * 256 + r"
    using n by simp_all
  have "n div 2 ^ 24 = q * 256 + r div 2 ^ 24" "n div 2 ^ 16 = q * 256 * 256 + r div 2 ^ 16"
    "n div 2 ^ 8 = q * 65536 * 256 + r div 2 ^ 8"
    by (subst n n'(1) n'(2), simp)+
  then have "n div 2 ^ 24 mod 256 = r div 2 ^ 24 mod 256" "n div 2 ^ 16 mod 256 = r div 2 ^ 16 mod 256"
    "n div 2 ^ 8 mod 256 = r div 2 ^ 8 mod 256"
    by (simp_all only: mod_mult_self3)
  moreover have "n mod 256 = r mod 256" by (subst n'(3)) (rule mod_mult_self3)
  ultimately show ?thesis
    unfolding be32_def r_def [symmetric] by (simp add: word_unat_eq_iff del: of_nat_add of_nat_mult)
qed

lemma be64_val: "be_val (be32 (n div 2 ^ 32) @ be32 n) = n" if "n < 2 ^ 64"
proof -
  have "n div 2 ^ 32 < 2 ^ 32" using that by (simp add: less_mult_imp_div_less)
  then have "be_val (be32 (n div 2 ^ 32) @ be32 (n mod 2 ^ 32)) = n div 2 ^ 32 * 2 ^ 32 + n mod 2 ^ 32"
    using be_val_be32 [of "n div 2 ^ 32"] be_val_be32 [of "n mod 2 ^ 32"] by (simp add: be_val_append)
  then show ?thesis by (simp only: be32_mod div_mult_mod_eq)
qed

lemma read_float:
  assumes "num_wf (NDbl d)"
  shows "readSimple 27 (be32 (unat d div 2 ^ 32) @ be32 (unat d) @ rest) = Ok (CNum (NDbl d), rest)"
proof -
  let ?bs = "be32 (unat d div 2 ^ 32) @ be32 (unat d)"
  have "unat d < 2 ^ LENGTH(64)" by (rule unsigned_less)
  then have v: "be_val ?bs = unat d" by (intro be64_val) simp
  have r: "readBytes 8 (?bs @ rest) = Ok (?bs, rest)" by (rule readBytes_append) simp
  have "readSimple 27 (?bs @ rest) = Ok (CNum (NDbl d), rest)"
    unfolding readSimple_def r using assms by (simp only: rbind.simps prod.case v Let_def) simp
  then show ?thesis by simp
qed

lemma readItem_head:
  assumes "d \<le> co_maxDepth opt" "m < 8" "int v \<le> MAX_SAFE_INTEGER"
  shows "\<exists>info tl. (\<forall>rest. readArgument info (tl @ rest) = Ok (v, rest)) \<and>
    (\<forall>rest. readItem opt d (arg_bytes m v @ rest) =
      (if m = 0 then Ok (CNum (NInt (int v)), rest)
       else if m = 1 then
         (if is_safe_integer (- 1 - int v) then Ok (CNum (NInt (- 1 - int v)), rest) else Throw DecodedUnsafe)
       else if m = 2 then rbind (readLength info (co_maxByteLength opt) (tl @ rest)) (\<lambda>(len, bs).
             rbind (readBytes len bs) (\<lambda>(b, bs). Ok (CBytes b, bs)))
       else if m = 3 then readText opt info (tl @ rest)
       else if m = 4 then rbind (readLength info (co_maxContainerLength opt) (tl @ rest)) (\<lambda>(len, bs).
             rbind (readItems opt (d + 1) len bs) (\<lambda>(vs, bs). Ok (CArr vs, bs)))
       else if m = 5 then rbind (readLength info (co_maxContainerLength opt) (tl @ rest)) (\<lambda>(len, bs).
             rbind (readEntries opt (d + 1) len [] bs) (\<lambda>(es, bs). Ok (CObj es, bs)))
       else if m = 6 then Throw TagsUnsupported else readSimple info (tl @ rest)))"
proof -
  obtain b info tl where b: "arg_bytes m v = b # tl" "unat b div 32 = m" "unat b mod 32 = info"
    "\<forall>rest. readArgument info (tl @ rest) = Ok (v, rest)"
    using read_arg_bytes [OF assms(2,3)] by blast
  then show ?thesis
    using assms(1,2)
    by (intro exI [of _ info] exI [of _ tl]) (simp add: readItem.simps readByte_def Let_def)
qed

lemma len_safe: "len \<le> MAX_UINT32 \<Longrightarrow> int len \<le> MAX_SAFE_INTEGER"
  by (simp add: MAX_UINT32_def MAX_SAFE_INTEGER_def)

lemma readItem_text:
  assumes "limits_ok opt" "d \<le> co_maxDepth opt" "text_fits opt s" "wf_utf16 s"
  shows "readItem opt d (text_bytes s @ rest) = Ok (CText s, rest)"
proof -
  let ?e = "text_encode s"
  have "length ?e \<le> MAX_UINT32" using assms(1,3) by (simp add: limits_ok_def text_fits_def)
  from readItem_head [OF assms(2) _ len_safe [OF this], of 3] obtain info tl where
    r: "\<forall>rest. readArgument info (tl @ rest) = Ok (length ?e, rest)"
    "\<forall>rest. readItem opt d (arg_bytes 3 (length ?e) @ rest) = readText opt info (tl @ rest)"
    by auto
  have "readItem opt d (text_bytes s @ rest) = readText opt info (tl @ ?e @ rest)"
    using r(2) by (simp add: text_bytes_def)
  with r(1) assms(3,4) show ?thesis
    by (simp add: readText_def readLength_def text_fits_def text_decode_encode)
qed

lemma readItems_ok:
  assumes "\<And>v rest. v \<in> set vs \<Longrightarrow> readItem opt d (item_bytes v @ rest) = Ok (v, rest)"
  shows "readItems opt d (length vs) (concat (map item_bytes vs) @ rest) = Ok (vs, rest)"
  using assms by (induction vs) simp_all

lemma readEntries_ok:
  assumes "\<And>k v rest. (k, v) \<in> set es \<Longrightarrow> readItem opt d (item_bytes v @ rest) = Ok (v, rest)"
    and "\<And>k rest. k \<in> fst ` set es \<Longrightarrow> readItem opt d (text_bytes k @ rest) = Ok (CText k, rest)"
    and "distinct (map fst (acc @ es))"
  shows "readEntries opt d (length es) acc (entries_bytes es @ rest) = Ok (acc @ es, rest)"
  using assms
proof (induction es arbitrary: acc)
  case Nil
  then show ?case by simp
next
  case (Cons e es)
  obtain k v where e: "e = (k, v)" by fastforce
  have "readEntries opt d (length es) (acc @ [(k, v)]) (entries_bytes es @ rest) = Ok ((acc @ [(k, v)]) @ es, rest)"
    by (rule Cons.IH) (use Cons.prems e in auto)
  moreover have "k \<notin> set (map fst acc)" using Cons.prems(3) e by auto
  ultimately show ?case
    using Cons.prems(1) [of k v] Cons.prems(2) [of k] by (simp add: e del: set_map)
qed

lemma entries_fit_iff: "entries_fit opt d es \<longleftrightarrow>
    (\<forall>(k, v) \<in> set es. d \<le> co_maxDepth opt \<and> text_fits opt k \<and> cbor_fits opt d v)"
  by (induction es) auto

lemma entries_wf_iff: "entries_wf es \<longleftrightarrow> (\<forall>(k, v) \<in> set es. wf_utf16 k \<and> cbor_wf v)"
  by (induction es) auto

lemma readItem_simple:
  assumes "d \<le> co_maxDepth opt" "unat b div 32 = 7"
  shows "readItem opt d (b # rest) = readSimple (unat b mod 32) rest"
  using assms by (simp add: readItem.simps readByte_def Let_def)

lemma readItem_num:
  assumes "d \<le> co_maxDepth opt" "num_fits n" "num_wf n"
  shows "readItem opt d (num_bytes n @ rest) = Ok (CNum n, rest)"
proof (cases n)
  case (NInt i)
  show ?thesis
  proof (cases "i \<ge> 0")
    case True
    with NInt assms(2) have "int (nat i) \<le> MAX_SAFE_INTEGER" by simp
    from readItem_head [OF assms(1) _ this, of 0] True NInt show ?thesis by auto
  next
    case False
    with NInt assms(2) have "int (nat (- 1 - i)) \<le> MAX_SAFE_INTEGER" by simp
    from readItem_head [OF assms(1) _ this, of 1] False NInt assms(3) show ?thesis by auto
  qed
next
  case (NDbl w)
  then show ?thesis
    using readItem_simple [OF assms(1), of 251 "be32 (unat w div 2 ^ 32) @ be32 (unat w) @ rest"]
      read_float [of w rest] assms(3) by simp
qed

lemma readItem_item_bytes:
  assumes lim: "limits_ok opt"
  shows "cbor_fits opt d v \<Longrightarrow> cbor_wf v \<Longrightarrow> readItem opt d (item_bytes v @ rest) = Ok (v, rest)"
proof (induction v arbitrary: d rest)
  case (CArr vs)
  have d: "d \<le> co_maxDepth opt" and len: "length vs \<le> co_maxContainerLength opt"
    using CArr.prems by auto
  from len lim have "int (length vs) \<le> MAX_SAFE_INTEGER" by (intro len_safe) (simp add: limits_ok_def)
  from readItem_head [OF d _ this, of 4] obtain info tl where
    r: "\<forall>rest. readArgument info (tl @ rest) = Ok (length vs, rest)"
    "\<forall>rest. readItem opt d (arg_bytes 4 (length vs) @ rest) =
      rbind (readLength info (co_maxContainerLength opt) (tl @ rest)) (\<lambda>(len, bs).
        rbind (readItems opt (d + 1) len bs) (\<lambda>(vs, bs). Ok (CArr vs, bs)))"
    by auto
  have "readItems opt (d + 1) (length vs) (concat (map item_bytes vs) @ rest) = Ok (vs, rest)"
    by (rule readItems_ok) (use CArr in auto)
  with r len show ?case by (simp add: readLength_def)
next
  case (CObj es)
  have d: "d \<le> co_maxDepth opt" and len: "length es \<le> co_maxContainerLength opt"
    and fit: "entries_fit opt (d + 1) es" and wf: "distinct (map fst es)" "entries_wf es"
    using CObj.prems by auto
  from len lim have "int (length es) \<le> MAX_SAFE_INTEGER" by (intro len_safe) (simp add: limits_ok_def)
  from readItem_head [OF d _ this, of 5] obtain info tl where
    r: "\<forall>rest. readArgument info (tl @ rest) = Ok (length es, rest)"
    "\<forall>rest. readItem opt d (arg_bytes 5 (length es) @ rest) =
      rbind (readLength info (co_maxContainerLength opt) (tl @ rest)) (\<lambda>(len, bs).
        rbind (readEntries opt (d + 1) len [] bs) (\<lambda>(es, bs). Ok (CObj es, bs)))"
    by auto
  have "readEntries opt (d + 1) (length es) [] (entries_bytes es @ rest) = Ok ([] @ es, rest)"
  proof (rule readEntries_ok)
    show "readItem opt (d + 1) (item_bytes v @ rest) = Ok (v, rest)" if "(k, v) \<in> set es" for k v rest
      using that fit wf by (intro CObj.IH) (force simp: entries_fit_iff entries_wf_iff snds.simps)+
    show "readItem opt (d + 1) (text_bytes k @ rest) = Ok (CText k, rest)" if "k \<in> fst ` set es" for k rest
      using that fit wf by (intro readItem_text [OF lim]) (force simp: entries_fit_iff entries_wf_iff)+
  qed (use wf in simp)
  with r len show ?case by (simp add: readLength_def)
next
  case (CBytes bs)
  have d: "d \<le> co_maxDepth opt" and len: "length bs \<le> co_maxByteLength opt"
    using CBytes.prems by auto
  from len lim have "int (length bs) \<le> MAX_SAFE_INTEGER" by (intro len_safe) (simp add: limits_ok_def)
  from readItem_head [OF d _ this, of 2] obtain info tl where
    r: "\<forall>rest. readArgument info (tl @ rest) = Ok (length bs, rest)"
    "\<forall>rest. readItem opt d (arg_bytes 2 (length bs) @ rest) =
      rbind (readLength info (co_maxByteLength opt) (tl @ rest)) (\<lambda>(len, bs).
        rbind (readBytes len bs) (\<lambda>(b, bs). Ok (CBytes b, bs)))"
    by auto
  with len show ?case by (simp add: readLength_def)
next
  case (CText s)
  then show ?case using readItem_text [OF lim, of d s rest] by simp
next
  case (CNum n)
  then show ?case by (simp add: readItem_num)
next
  case CNull
  then show ?case using readItem_simple [of d opt 246 rest] by (simp add: readSimple_def)
next
  case (CBool b)
  then show ?case
    using readItem_simple [of d opt 244 rest] readItem_simple [of d opt 245 rest] by (simp add: readSimple_def)
next
  case CUnsupported
  then show ?case by simp
qed

lemma decodeCbor_encodeCbor:
  assumes "encodeCbor v options = Ok bs" and "cbor_wf v"
  shows "decodeCbor bs options = Ok v"
proof -
  from assms(1) obtain opt where opt: "resolveOptions options = Ok opt" "cbor_fits opt 0 v" "bs = item_bytes v"
    by (auto simp: encodeCbor_Ok_iff)
  then show ?thesis
    using readItem_item_bytes [OF resolveOptions_ok [OF opt(1)] opt(2) assms(2), of "[]"]
    by (simp add: decodeCbor_def)
qed

text \<open>
  C1: what the encoder returns for a well-formed value, the decoder turns back into that
  value, under the same options.
\<close>

theorem cbor_roundtrip:
  assumes "encodeCbor v options = Ok bs" and "cbor_wf v"
  shows "decodeCbor bs options = Ok v"
  using assms by (rule decodeCbor_encodeCbor)

text \<open>The default options, resolved.\<close>

definition no_options :: cbor_raw_options where
  "no_options = \<lparr>ro_maxByteLength = None, ro_maxContainerLength = None, ro_maxDepth = None\<rparr>"

lemma resolve_no_options: "resolveOptions no_options =
    Ok \<lparr>co_maxByteLength = 16777216, co_maxContainerLength = 1000000, co_maxDepth = 64\<rparr>"
  by (simp add: resolveOptions_def no_options_def option_or_def resolveLimit_def is_safe_integer_def
      MAX_SAFE_INTEGER_def MAX_UINT32_def MAX_CONFIGURED_DEPTH_def DEFAULT_MAX_CBOR_BYTE_LENGTH_def
      DEFAULT_MAX_CBOR_CONTAINER_LENGTH_def DEFAULT_MAX_CBOR_DEPTH_def)

theorem cbor_roundtrip_witness:
  "encodeCbor (CObj [([97], CArr [CNum (NInt 300), CBool True, CNull])]) no_options
     = Ok [0xa1, 0x61, 97, 0x83, 0x19, 1, 44, 0xf5, 0xf6] \<and>
   decodeCbor [0xa1, 0x61, 97, 0x83, 0x19, 1, 44, 0xf5, 0xf6] no_options
     = Ok (CObj [([97], CArr [CNum (NInt 300), CBool True, CNull])])"
proof -
  let ?v = "CObj [([97], CArr [CNum (NInt 300), CBool True, CNull])]"
  have e: "encodeCbor ?v no_options = Ok [0xa1, 0x61, 97, 0x83, 0x19, 1, 44, 0xf5, 0xf6]"
    by (simp add: encodeCbor_Ok_iff resolve_no_options text_fits_def text_encode_def utf8_cp_def
        is_high_def is_low_def arg_bytes_def text_bytes_def be16_def MAX_SAFE_INTEGER_def)
  moreover have "cbor_wf ?v" by (simp add: is_safe_integer_def MAX_SAFE_INTEGER_def is_high_def is_low_def)
  ultimately show ?thesis using cbor_roundtrip [OF e] by simp
qed

text \<open>
  C40: the encoder accepts the integer \<open>-2^53\<close>, but the decoder refuses what it wrote: the two
  sides check the safe range on different numbers.
\<close>

theorem cbor_min_integer_asymmetry:
  "\<exists>bs. encodeCbor (CNum (NInt (- MAX_SAFE_INTEGER - 1))) no_options = Ok bs \<and>
     decodeCbor bs no_options = Throw DecodedUnsafe"
proof -
  have safe: "int (nat MAX_SAFE_INTEGER) \<le> MAX_SAFE_INTEGER" by (simp add: MAX_SAFE_INTEGER_def)
  let ?opt = "\<lparr>co_maxByteLength = 16777216, co_maxContainerLength = 1000000, co_maxDepth = 64\<rparr>"
  have bytes: "num_bytes (NInt (- MAX_SAFE_INTEGER - 1)) = arg_bytes 1 (nat MAX_SAFE_INTEGER)"
    by (simp add: MAX_SAFE_INTEGER_def)
  have "readItem ?opt 0 (arg_bytes 1 (nat MAX_SAFE_INTEGER) @ []) = Throw DecodedUnsafe"
    using readItem_head [of 0 ?opt 1, OF _ _ safe]
    by (auto simp: is_safe_integer_def MAX_SAFE_INTEGER_def dest: spec [of _ "[]"])
  moreover have "length (arg_bytes 1 (nat MAX_SAFE_INTEGER)) \<le> 16777216"
    by (simp add: arg_bytes_def)
  moreover have "0 \<le> MAX_SAFE_INTEGER" by (simp add: MAX_SAFE_INTEGER_def)
  ultimately show ?thesis
    by (intro exI [of _ "num_bytes (NInt (- MAX_SAFE_INTEGER - 1))"])
      (simp add: encodeCbor_Ok_iff decodeCbor_def resolve_no_options bytes)
qed

section \<open>What a decoded value satisfies\<close>

fun shape_ok :: "cbor_options \<Rightarrow> nat \<Rightarrow> cbor_value \<Rightarrow> bool"
and entries_ok :: "cbor_options \<Rightarrow> nat \<Rightarrow> (jstring \<times> cbor_value) list \<Rightarrow> bool" where
  "shape_ok opt d CNull = (d \<le> co_maxDepth opt)"
| "shape_ok opt d (CBool b) = (d \<le> co_maxDepth opt)"
| "shape_ok opt d (CNum n) = (d \<le> co_maxDepth opt \<and>
     (case n of NInt i \<Rightarrow> is_safe_integer i | NDbl w \<Rightarrow> f64_finite w))"
| "shape_ok opt d (CText s) = (d \<le> co_maxDepth opt \<and> wf_utf16 s \<and> length (text_encode s) \<le> co_maxByteLength opt)"
| "shape_ok opt d (CBytes bs) = (d \<le> co_maxDepth opt \<and> length bs \<le> co_maxByteLength opt)"
| "shape_ok opt d (CArr vs) = (d \<le> co_maxDepth opt \<and> length vs \<le> co_maxContainerLength opt \<and>
     (\<forall>v \<in> set vs. shape_ok opt (d + 1) v))"
| "shape_ok opt d (CObj es) = (d \<le> co_maxDepth opt \<and> length es \<le> co_maxContainerLength opt \<and>
     distinct (map fst es) \<and> entries_ok opt (d + 1) es)"
| "shape_ok opt d CUnsupported = False"
| "entries_ok opt d [] = True"
| "entries_ok opt d ((k, v) # es) = (wf_utf16 k \<and> length (text_encode k) \<le> co_maxByteLength opt \<and> shape_ok opt d v \<and>
     entries_ok opt d es)"

text \<open>A key is bounded like a text string.\<close>

lemma entries_ok_iff: "entries_ok opt d es \<longleftrightarrow>
    (\<forall>(k, v) \<in> set es. wf_utf16 k \<and> length (text_encode k) \<le> co_maxByteLength opt \<and> shape_ok opt d v)"
  by (induction es) auto

lemma byte_pair_bound: "unat (x :: byte) * 256 + unat (y :: byte) < 65536"
  using unat_byte_less [of x] unat_byte_less [of y] by linarith

lemma byte_pair_safe: "int (unat (x :: byte) * 256 + unat (y :: byte)) \<le> MAX_SAFE_INTEGER"
  unfolding MAX_SAFE_INTEGER_def using byte_pair_bound [of x y] by linarith

lemma byte_safe: "int (unat (x :: byte)) \<le> MAX_SAFE_INTEGER"
  unfolding MAX_SAFE_INTEGER_def using unat_byte_less [of x] by linarith

lemma safe_nat_Ok: "safe_nat v bs = Ok (n, rest) \<Longrightarrow> int n \<le> MAX_SAFE_INTEGER"
  by (simp add: safe_nat_def is_safe_integer_def split: if_splits)

lemma readArgument_safe:
  assumes r: "readArgument info bs = Ok (n, rest)"
  shows "int n \<le> MAX_SAFE_INTEGER"
proof -
  consider "info < 24" | "info = 24" | "info = 25" | "info = 26" | "info = 27" | "info > 27"
    by linarith
  then show ?thesis
  proof cases
    case 1
    then show ?thesis using r unfolding MAX_SAFE_INTEGER_def by (simp add: readArgument_def)
  next
    case 2
    then show ?thesis using r byte_safe by (auto simp: readArgument_def readByte_def split: list.splits)
  next
    case 3
    then obtain b where "n = unat (b ! 0 :: byte) * 256 + unat (b ! 1 :: byte)"
      using r by (auto simp: readArgument_def)
    then show ?thesis using byte_pair_safe by blast
  next
    case 4
    then show ?thesis using r by (auto simp: readArgument_def dest: safe_nat_Ok)
  next
    case 5
    then show ?thesis using r by (auto simp: readArgument_def Let_def dest: safe_nat_Ok)
  next
    case 6
    then show ?thesis using r by (simp add: readArgument_def)
  qed
qed

lemma readSimple_shape: "readSimple info bs = Ok (v, rest) \<Longrightarrow> d \<le> co_maxDepth opt \<Longrightarrow> shape_ok opt d v"
  by (auto simp: readSimple_def Let_def num_of_bits_def split: if_splits jsnum.splits option.splits)

lemma read_shape:
  "readItem opt d bs = Ok (v, rest) \<Longrightarrow> shape_ok opt d v"
  "readItems opt d n bs = Ok (vs, rest) \<Longrightarrow> length vs = n \<and> (\<forall>v \<in> set vs. shape_ok opt d v)"
  "readEntries opt d n acc bs = Ok (es, rest) \<Longrightarrow> distinct (map fst acc) \<Longrightarrow> entries_ok opt d acc \<Longrightarrow>
     length es = length acc + n \<and> distinct (map fst es) \<and> entries_ok opt d es"
proof (induction opt d bs and opt d n bs and opt d n acc bs arbitrary: v rest and vs rest and es rest
    rule: readItem_readItems_readEntries.induct)
  case (1 opt d bs)
  then have d: "d \<le> co_maxDepth opt"
    by (subst (asm) readItem.simps) (auto split: if_splits)
  then obtain b bs1 where b: "readByte bs = Ok (b, bs1)"
    using "1.prems" unfolding readItem.simps [of opt d bs] by auto
  define m i where "m = b div 32" and "i = b mod 32"
  have ih4: "readItems opt (d + 1) len bs2 = Ok (vs, rest) \<Longrightarrow> m = 4 \<Longrightarrow>
      readLength i (co_maxContainerLength opt) bs1 = Ok (len, bs2) \<Longrightarrow>
      length vs = len \<and> (\<forall>v \<in> set vs. shape_ok opt (d + 1) v)" for len bs2 vs rest
    using "1.IH"(1) [OF _ b] d by (simp add: m_def i_def)
  have ih5: "readEntries opt (d + 1) len [] bs2 = Ok (es, rest) \<Longrightarrow> m = 5 \<Longrightarrow>
      readLength i (co_maxContainerLength opt) bs1 = Ok (len, bs2) \<Longrightarrow>
      length es = len \<and> distinct (map fst es) \<and> entries_ok opt (d + 1) es" for len bs2 es rest
    using "1.IH"(2) [OF _ b] d by (simp add: m_def i_def)
  have len: "readLength i lim bs1 = Ok (len, bs2) \<Longrightarrow> len \<le> lim" for lim len bs2
    by (auto simp: readLength_def split: if_splits)
  show ?case
    using "1.prems" d b ih4 ih5 len
    unfolding readItem.simps [of opt d bs]
    by (auto simp: Let_def m_def [symmetric] i_def [symmetric] is_safe_integer_def readText_def readBytes_def
        dest: readArgument_safe readSimple_shape dest!: text_encode_decode split: if_splits option.splits)
next
  case (2 opt d bs)
  then show ?case by simp
next
  case (3 opt d n bs)
  then show ?case by auto
next
  case (4 opt d acc bs)
  then show ?case by simp
next
  case (5 opt d n acc bs)
  from "5.prems"(1) obtain k bs1 where k: "readItem opt d bs = Ok (k, bs1)"
    by auto
  with "5.prems"(1) obtain s where s: "k = CText s"
    by (cases k) auto
  with "5.prems"(1) k have new: "s \<notin> set (map fst acc)"
    by (auto split: if_splits)
  from "5.prems"(1) k s new obtain v bs2 where v: "readItem opt d bs1 = Ok (v, bs2)"
    and r: "readEntries opt d n (acc @ [(s, v)]) bs2 = Ok (es, rest)"
    by auto
  have "shape_ok opt d v"
    using "5.IH"(2) k s new v by blast
  moreover have "shape_ok opt d (CText s)" using "5.IH"(1) k s by blast
  moreover have "length es = length (acc @ [(s, v)]) + n \<and> distinct (map fst es) \<and> entries_ok opt d es"
    if "shape_ok opt d v" "shape_ok opt d (CText s)"
  proof (rule "5.IH"(3) [OF k refl s new v refl r])
    show "distinct (map fst (acc @ [(s, v)]))" using "5.prems"(2) new by simp
    show "entries_ok opt d (acc @ [(s, v)])" using "5.prems"(3) that by (auto simp: entries_ok_iff)
  qed
  ultimately show ?case by simp
qed

text \<open>
  C12: whatever bytes arrive, a value the decoder returns respects the configured limits:
  its depth, its container lengths, the byte lengths of its byte strings, texts and object keys, safe integers, finite numbers, and
  distinct object keys.
\<close>

theorem decodeCbor_bounds:
  assumes "decodeCbor bs options = Ok v"
  shows "\<exists>opt. resolveOptions options = Ok opt \<and> shape_ok opt 0 v"
  using assms by (auto simp: decodeCbor_def dest: read_shape(1) split: if_splits)

theorem decodeCbor_bounds_witness:
  "decodeCbor [0x81, 0x20] no_options = Ok (CArr [CNum (NInt (- 1))]) \<and>
   (\<exists>opt. resolveOptions no_options = Ok opt \<and> shape_ok opt 0 (CArr [CNum (NInt (- 1))]))"
proof -
  have "encodeCbor (CArr [CNum (NInt (- 1))]) no_options = Ok [0x81, 0x20]"
    by (simp add: encodeCbor_Ok_iff resolve_no_options arg_bytes_def MAX_SAFE_INTEGER_def)
  then have e: "decodeCbor [0x81, 0x20] no_options = Ok (CArr [CNum (NInt (- 1))])"
    by (intro decodeCbor_encodeCbor) (simp_all add: is_safe_integer_def MAX_SAFE_INTEGER_def)
  then show ?thesis using decodeCbor_bounds [OF e] by simp
qed

end
