(* ===== verification/Codec.thy ===== *)
theory Codec
  imports Framing CborProofs
begin

text \<open>
  \<open>packages/protocol/src/codec.ts\<close>: a payload is the CBOR encoding of a value in one frame.
  \<open>encodeProtocolPayload\<close> and \<open>decodeProtocolPayload\<close> handle a single frame,
  \<open>StreamPayloadDecoder\<close> a stream of them. A validator is an optional predicate, and the
  errors keep what they wrap (the source keeps its message, cut at 500 characters).

  The interface between the stream and what is in its frames is the locale
  \<open>payload_format\<close>: decoding inverts encoding on the values of a domain.
\<close>

datatype codec_error =
    FailedValidation
  | UnableToEncode "frame_error + cbor_error"
  | CodecFrame frame_error
  | CodecCbor cbor_error

definition max_frame :: "jsnum option \<Rightarrow> jsnum" where
  "max_frame options = option_or options DEFAULT_MAX_FRAME_LENGTH"

definition byte_limit :: "jsnum \<Rightarrow> cbor_raw_options" where
  "byte_limit m = \<lparr>ro_maxByteLength = Some m, ro_maxContainerLength = None, ro_maxDepth = None\<rparr>"

definition rejects :: "(cbor_value \<Rightarrow> bool) option \<Rightarrow> cbor_value \<Rightarrow> bool" where
  "rejects validator v = (case validator of None \<Rightarrow> False | Some ok \<Rightarrow> \<not> ok v)"

definition as_error :: "('e \<Rightarrow> 'f) \<Rightarrow> ('e, 'a) res \<Rightarrow> ('f, 'a) res" where
  "as_error f r = (case r of Inl e \<Rightarrow> Inl (f e) | Inr x \<Rightarrow> Inr x)"

definition encodeProtocolPayload ::
  "cbor_value \<Rightarrow> (cbor_value \<Rightarrow> bool) option \<Rightarrow> jsnum option \<Rightarrow> (codec_error, byte list) res" where
  "encodeProtocolPayload value validator options =
     (if rejects validator value then Throw FailedValidation
      else as_error UnableToEncode
        (let maxFrameLength = max_frame options
         in rbind (as_error Inr (encodeCbor value (byte_limit maxFrameLength))) (\<lambda>cborBytes.
            rbind (as_error Inl (encodeFrame cborBytes)) (\<lambda>frame.
            rbind (as_error Inl (assertCompleteFrame frame (Some maxFrameLength))) (\<lambda>_.
              Ok frame)))))"

definition decodeProtocolPayload ::
  "byte list \<Rightarrow> (cbor_value \<Rightarrow> bool) option \<Rightarrow> jsnum option \<Rightarrow> (codec_error, cbor_value) res" where
  "decodeProtocolPayload frameBytes validator options =
     (let maxFrameLength = max_frame options
      in rbind (as_error CodecFrame (assertCompleteFrame frameBytes (Some maxFrameLength))) (\<lambda>_.
         rbind (as_error CodecCbor (decodeCbor (drop 4 frameBytes) (byte_limit maxFrameLength))) (\<lambda>decoded.
           if rejects validator decoded then Throw FailedValidation else Ok decoded)))"

section \<open>The stream decoder\<close>

record payload_decoder =
  pd_frames :: frame_decoder
  pd_validator :: "(cbor_value \<Rightarrow> bool) option"
  pd_maxFrameLength :: jsnum

definition newPayloadDecoder ::
  "(cbor_value \<Rightarrow> bool) option \<Rightarrow> jsnum option \<Rightarrow> (codec_error, payload_decoder) res" where
  "newPayloadDecoder validator options =
     rbind (as_error CodecFrame (newFrameDecoder options)) (\<lambda>frames.
       Ok \<lparr>pd_frames = frames, pd_validator = validator, pd_maxFrameLength = max_frame options\<rparr>)"

text \<open>The loop over the payloads of one chunk; it throws at the first one that does not decode.\<close>

fun decode_payloads :: "(cbor_value \<Rightarrow> bool) option \<Rightarrow> jsnum \<Rightarrow> byte list list \<Rightarrow>
    (codec_error, cbor_value list) res" where
  "decode_payloads validator m [] = Ok []"
| "decode_payloads validator m (p # ps) =
     rbind (as_error CodecCbor (decodeCbor p (byte_limit m))) (\<lambda>decoded.
       if rejects validator decoded then Throw FailedValidation
       else rbind (decode_payloads validator m ps) (\<lambda>results. Ok (decoded # results)))"

definition pd_push :: "payload_decoder \<Rightarrow> byte list \<Rightarrow>
    ((codec_error, cbor_value list) res \<times> payload_decoder) option" where
  "pd_push d chunk =
     map_option (\<lambda>(r, frames).
        (rbind (as_error CodecFrame r) (decode_payloads (pd_validator d) (pd_maxFrameLength d)),
         d\<lparr>pd_frames := frames\<rparr>))
       (fd_push (pd_frames d) chunk)"

definition pd_end :: "payload_decoder \<Rightarrow> (codec_error, unit) res \<times> payload_decoder" where
  "pd_end d = (let (r, frames) = fd_end (pd_frames d) in (as_error CodecFrame r, d\<lparr>pd_frames := frames\<rparr>))"

section \<open>The interface of a payload format\<close>

locale payload_format =
  fixes enc :: "'v \<Rightarrow> ('e, byte list) res"
    and dec :: "byte list \<Rightarrow> ('f, 'v) res"
    and dom_ok :: "'v \<Rightarrow> bool"
    and limit :: nat
  assumes dec_enc: "dom_ok v \<Longrightarrow> enc v = Ok bs \<Longrightarrow> dec bs = Ok v"
    and enc_bound: "enc v = Ok bs \<Longrightarrow> length bs \<le> limit"
begin

lemma enc_inj: "dom_ok v \<Longrightarrow> dom_ok w \<Longrightarrow> enc v = Ok bs \<Longrightarrow> enc w = Ok bs \<Longrightarrow> v = w"
  using dec_enc [of v bs] dec_enc [of w bs] by simp

lemma dec_stream:
  "list_all2 (\<lambda>v p. enc v = Ok p) vs ps \<Longrightarrow> \<forall>v \<in> set vs. dom_ok v \<Longrightarrow>
     map dec ps = map Ok vs \<and> (\<forall>p \<in> set ps. length p \<le> limit)"
  by (induction rule: list_all2_induct) (auto simp: dec_enc enc_bound)

end

lemma resolveLimit_unique: "resolveLimit v m = Ok n \<Longrightarrow> v = NInt (int n)"
  by (auto simp: resolveLimit_def split: jsnum.splits if_splits)

lemma resolve_byte_limit:
  "resolveOptions (byte_limit (NInt (int n))) = Ok opt \<Longrightarrow> co_maxByteLength opt = n"
  by (auto simp: resolveOptions_def byte_limit_def option_or_def resolveLimit_def split: if_splits)

interpretation cbor_format: payload_format
  "\<lambda>v. encodeCbor v (byte_limit (NInt (int n)))" "\<lambda>bs. decodeCbor bs (byte_limit (NInt (int n)))"
  cbor_wf n for n
  by unfold_locales (auto intro: decodeCbor_encodeCbor dest: resolve_byte_limit simp: encodeCbor_Ok_iff)

section \<open>A frame that was encoded is decoded\<close>

lemma as_error_Ok [simp]: "as_error f r = Ok x \<longleftrightarrow> r = Ok x"
  by (simp add: as_error_def split: sum.splits)

lemma resolveMaxFrameLength_conv:
  "resolveMaxFrameLength options = Ok m \<Longrightarrow> max_frame options = NInt (int m) \<and>
     resolveMaxFrameLength (Some (NInt (int m))) = Ok m"
  by (auto simp: resolveMaxFrameLength_def max_frame_def option_or_def Let_def DEFAULT_MAX_FRAME_LENGTH_def
      split: option.splits jsnum.splits if_splits)

lemma resolve_max_frame:
  "resolveMaxFrameLength (Some (max_frame options)) = resolveMaxFrameLength options"
  by (simp add: resolveMaxFrameLength_def max_frame_def option_or_def split: option.splits)

lemma assert_frame:
  "length p \<le> m \<Longrightarrow> resolveMaxFrameLength options = Ok m \<Longrightarrow> encodeFrame p = Ok f \<Longrightarrow>
     assertCompleteFrame f (Some (max_frame options)) = Ok ()"
  using frame_accepted [of p m "Some (max_frame options)" f] by (simp add: resolve_max_frame)

lemma encode_payload_Ok:
  assumes "encodeProtocolPayload v validator options = Ok f"
  obtains m p where "\<not> rejects validator v" "resolveMaxFrameLength options = Ok m"
    "encodeCbor v (byte_limit (NInt (int m))) = Ok p" "encodeFrame p = Ok f" "length p \<le> m"
proof -
  from assms obtain p where p: "\<not> rejects validator v" "encodeCbor v (byte_limit (max_frame options)) = Ok p"
    "encodeFrame p = Ok f" "assertCompleteFrame f (Some (max_frame options)) = Ok ()"
    by (auto simp: encodeProtocolPayload_def Let_def split: if_splits)
  from p(4) obtain m where "resolveMaxFrameLength (Some (max_frame options)) = Ok m"
    by (auto simp: assertCompleteFrame_def Let_def split: if_splits)
  then have m: "resolveMaxFrameLength options = Ok m" by (simp add: resolve_max_frame)
  with p(2) have e: "encodeCbor v (byte_limit (NInt (int m))) = Ok p"
    by (simp add: resolveMaxFrameLength_conv)
  then have "length p \<le> m" by (rule cbor_format.enc_bound)
  with that p(1,3) m e show thesis by blast
qed

lemma decode_payloads_all:
  "map (\<lambda>p. decodeCbor p (byte_limit m)) ps = map Ok vs \<Longrightarrow> \<forall>v \<in> set vs. \<not> rejects validator v \<Longrightarrow>
     decode_payloads validator m ps = Ok vs"
  by (induction ps arbitrary: vs) (auto simp: as_error_def)

lemma decode_payloads_append:
  "decode_payloads validator m (ps @ qs) =
     rbind (decode_payloads validator m ps) (\<lambda>vs.
     rbind (decode_payloads validator m qs) (\<lambda>ws. Ok (vs @ ws)))"
proof (induction ps)
  case Nil
  then show ?case by (cases "decode_payloads validator m qs") simp_all
next
  case (Cons p ps)
  then show ?case
    by (cases "decodeCbor p (byte_limit m)"; cases "decode_payloads validator m ps";
        cases "decode_payloads validator m qs") (simp_all add: as_error_def)
qed

text \<open>A client that pushes the chunks of a stream, until the first throw.\<close>

fun pd_push_all :: "payload_decoder \<Rightarrow> byte list list \<Rightarrow>
    ((codec_error, cbor_value list) res \<times> payload_decoder) option" where
  "pd_push_all d [] = Some (Ok [], d)"
| "pd_push_all d (c # cs) =
     (case pd_push d c of
        None \<Rightarrow> None
      | Some (Inl e, d') \<Rightarrow> Some (Inl e, d')
      | Some (Inr vs, d') \<Rightarrow>
          (case pd_push_all d' cs of
             Some (Inr ws, d'') \<Rightarrow> Some (Inr (vs @ ws), d'')
           | other \<Rightarrow> other))"

lemma pd_push_all_ok:
  "push_all (pd_frames d) chunks = Some (Ok fs, e) \<Longrightarrow>
     decode_payloads (pd_validator d) (pd_maxFrameLength d) fs = Ok vs \<Longrightarrow>
     pd_push_all d chunks = Some (Ok vs, d\<lparr>pd_frames := e\<rparr>)"
proof (induction chunks arbitrary: d fs vs)
  case Nil
  then show ?case by simp
next
  case (Cons c cs)
  from Cons.prems(1) obtain f1 f2 d1 where f: "fd_push (pd_frames d) c = Some (Ok f1, d1)"
    "push_all d1 cs = Some (Ok f2, e)" "fs = f1 @ f2"
    by (auto split: option.splits sum.splits prod.splits)
  from Cons.prems(2) f(3) obtain v1 v2 where v:
    "decode_payloads (pd_validator d) (pd_maxFrameLength d) f1 = Ok v1"
    "decode_payloads (pd_validator d) (pd_maxFrameLength d) f2 = Ok v2" "vs = v1 @ v2"
    by (auto simp: decode_payloads_append)
  have "pd_push_all (d\<lparr>pd_frames := d1\<rparr>) cs = Some (Ok v2, d\<lparr>pd_frames := e\<rparr>)"
    using Cons.IH [of "d\<lparr>pd_frames := d1\<rparr>" f2 v2] f(2) v(2) by simp
  then show ?case using f(1) v(1,3) by (simp add: pd_push_def as_error_def)
qed

section \<open>Properties\<close>

text \<open>
  a value that \<open>encodeProtocolPayload\<close> encodes is returned by \<open>decodeProtocolPayload\<close> under
  the same validator and options.
\<close>

theorem protocol_payload_roundtrip:
  assumes "encodeProtocolPayload v validator options = Ok f" and "cbor_wf v"
  shows "decodeProtocolPayload f validator options = Ok v"
proof -
  from assms(1) obtain m p where p: "\<not> rejects validator v" "resolveMaxFrameLength options = Ok m"
    "encodeCbor v (byte_limit (NInt (int m))) = Ok p" "encodeFrame p = Ok f" "length p \<le> m"
    by (rule encode_payload_Ok)
  have "decodeCbor p (byte_limit (NInt (int m))) = Ok v"
    using assms(2) p(3) by (rule cbor_format.dec_enc)
  moreover have "drop 4 f = p" using p(4) by (simp add: encodeFrame_Ok)
  ultimately show ?thesis
    using p(1) assert_frame [OF p(5,2,4)] resolveMaxFrameLength_conv [OF p(2)]
    by (simp add: decodeProtocolPayload_def as_error_def)
qed

theorem protocol_payload_roundtrip_witness:
  "encodeProtocolPayload (CArr [CNull]) None None = Ok [0, 0, 0, 2, 0x81, 0xf6] \<and>
   decodeProtocolPayload [0, 0, 0, 2, 0x81, 0xf6] None None = Ok (CArr [CNull])"
proof -
  have "resolveOptions (byte_limit (NInt 16777216)) =
      Ok \<lparr>co_maxByteLength = 16777216, co_maxContainerLength = 1000000, co_maxDepth = 64\<rparr>"
    by (simp add: resolveOptions_def byte_limit_def option_or_def resolveLimit_def is_safe_integer_def
        MAX_SAFE_INTEGER_def MAX_UINT32_def MAX_CONFIGURED_DEPTH_def
        DEFAULT_MAX_CBOR_CONTAINER_LENGTH_def DEFAULT_MAX_CBOR_DEPTH_def)
  then have "encodeCbor (CArr [CNull]) (byte_limit (NInt 16777216)) = Ok [0x81, 0xf6]"
    by (simp add: encodeCbor_Ok_iff arg_bytes_def)
  moreover have "encodeFrame [0x81, 0xf6] = Ok [0, 0, 0, 2, 0x81, 0xf6]"
    by (simp add: encodeFrame_Ok be32_def MAX_UINT32_def)
  moreover have "assertCompleteFrame [0, 0, 0, 2, 0x81, 0xf6] (Some (NInt 16777216)) = Ok ()"
    by (simp add: assertCompleteFrame_def resolveMaxFrameLength_def FRAME_HEADER_LENGTH_def
        is_safe_integer_def MAX_SAFE_INTEGER_def MAX_UINT32_def)
  ultimately have e: "encodeProtocolPayload (CArr [CNull]) None None = Ok [0, 0, 0, 2, 0x81, 0xf6]"
    by (simp add: encodeProtocolPayload_def rejects_def max_frame_def option_or_def
        DEFAULT_MAX_FRAME_LENGTH_def as_error_def)
  then show ?thesis using protocol_payload_roundtrip [OF e] by simp
qed

text \<open>
  C2: values encoded as protocol payloads, concatenated and cut into chunks anywhere, come out
  of a \<open>StreamPayloadDecoder\<close> exactly and in order, and \<open>end\<close> accepts the stream.
\<close>

theorem payload_stream_roundtrip:
  assumes "list_all2 (\<lambda>v f. encodeProtocolPayload v validator options = Ok f) vs fs"
    and "\<forall>v \<in> set vs. cbor_wf v" and "concat chunks = concat fs"
    and "resolveMaxFrameLength options = Ok m"
  shows "\<exists>d d'. newPayloadDecoder validator options = Ok d \<and> pd_push_all d chunks = Some (Ok vs, d') \<and>
    fst (pd_end d') = Ok ()"
proof -
  have "\<exists>p. \<not> rejects validator v \<and> encodeCbor v (byte_limit (NInt (int m))) = Ok p \<and> encodeFrame p = Ok f"
    if "encodeProtocolPayload v validator options = Ok f" for v f
    using that assms(4) by (elim encode_payload_Ok) auto
  with assms(1) have "\<exists>ps. list_all2 (\<lambda>v p. encodeCbor v (byte_limit (NInt (int m))) = Ok p) vs ps \<and>
      list_all2 (\<lambda>p f. encodeFrame p = Ok f) ps fs \<and> (\<forall>v \<in> set vs. \<not> rejects validator v)"
  proof (induction rule: list_all2_induct)
    case (Cons v vs f fs)
    then obtain p ps where "\<not> rejects validator v" "encodeCbor v (byte_limit (NInt (int m))) = Ok p"
      "encodeFrame p = Ok f" "list_all2 (\<lambda>v p. encodeCbor v (byte_limit (NInt (int m))) = Ok p) vs ps"
      "list_all2 (\<lambda>p f. encodeFrame p = Ok f) ps fs" "\<forall>v \<in> set vs. \<not> rejects validator v"
      by meson
    then show ?case by (intro exI [of _ "p # ps"]) simp
  qed simp
  then obtain ps where ps: "list_all2 (\<lambda>v p. encodeCbor v (byte_limit (NInt (int m))) = Ok p) vs ps"
    "list_all2 (\<lambda>p f. encodeFrame p = Ok f) ps fs" "\<forall>v \<in> set vs. \<not> rejects validator v"
    by blast
  note dec = cbor_format.dec_stream [OF ps(1) assms(2)]
  obtain d d' where d: "newFrameDecoder options = Inr d" "push_all d chunks = Some (Ok ps, d')"
    "fst (fd_end d') = Ok ()"
    using stream_decoded [OF assms(4) ps(2) _ assms(3)] dec by blast
  let ?D = "\<lparr>pd_frames = d, pd_validator = validator, pd_maxFrameLength = max_frame options\<rparr>"
  have "pd_push_all ?D chunks = Some (Ok vs, ?D\<lparr>pd_frames := d'\<rparr>)"
    using pd_push_all_ok [of ?D chunks ps d' vs] d(2) decode_payloads_all [of "NInt (int m)" ps vs validator]
      dec ps(3) resolveMaxFrameLength_conv [OF assms(4)] by simp
  then show ?thesis
    using d(1,3) by (auto simp: newPayloadDecoder_def as_error_def pd_end_def split: prod.splits)
qed

theorem payload_stream_roundtrip_witness:
  "\<exists>d d'. newPayloadDecoder None (Some (NInt 8)) = Ok d \<and>
     pd_push_all d [[0, 0, 0], [1, 0xf6, 0, 0, 0, 1], [0xf5]] = Some (Ok [CNull, CBool True], d') \<and>
     fst (pd_end d') = Ok ()"
proof -
  have opt: "resolveOptions (byte_limit (NInt 8)) =
      Ok \<lparr>co_maxByteLength = 8, co_maxContainerLength = 1000000, co_maxDepth = 64\<rparr>"
    by (simp add: resolveOptions_def byte_limit_def option_or_def resolveLimit_def is_safe_integer_def
        MAX_SAFE_INTEGER_def MAX_UINT32_def MAX_CONFIGURED_DEPTH_def
        DEFAULT_MAX_CBOR_CONTAINER_LENGTH_def DEFAULT_MAX_CBOR_DEPTH_def)
  have "encodeFrame [b] = Ok [0, 0, 0, 1, b]" for b
    by (simp add: encodeFrame_Ok be32_def MAX_UINT32_def)
  then have enc: "encodeProtocolPayload v None (Some (NInt 8)) = Ok [0, 0, 0, 1, b]"
    if "encodeCbor v (byte_limit (NInt 8)) = Ok [b]" for v b
    using that by (simp add: encodeProtocolPayload_def rejects_def max_frame_def option_or_def as_error_def
        assertCompleteFrame_def resolveMaxFrameLength_def MAX_UINT32_def
        FRAME_HEADER_LENGTH_def is_safe_integer_def MAX_SAFE_INTEGER_def)
  have "list_all2 (\<lambda>v f. encodeProtocolPayload v None (Some (NInt 8)) = Ok f)
      [CNull, CBool True] [[0, 0, 0, 1, 0xf6], [0, 0, 0, 1, 0xf5]]"
    by (simp add: enc encodeCbor_Ok_iff opt)
  moreover have "resolveMaxFrameLength (Some (NInt 8)) = Ok 8"
    by (simp add: resolveMaxFrameLength_def is_safe_integer_def MAX_SAFE_INTEGER_def MAX_UINT32_def)
  ultimately show ?thesis
    by (intro payload_stream_roundtrip [where fs = "[[0, 0, 0, 1, 0xf6], [0, 0, 0, 1, 0xf5]]" and m = 8]) simp_all
qed

end
