(* ===== verification/Leases.thy ===== *)
theory Leases
  imports Utf8
begin

text \<open>
  \<open>packages/storage/src/leases.ts\<close>: exclusive writer leases with fencing tokens. The SQL table
  \<open>writer_leases\<close> is a map from lease ids to rows (the token column is \<open>NOT NULL\<close>); a call
  that runs its statement in a transaction is one step on the map. \<open>Date.now()\<close> is the
  argument \<open>now\<close>; times are whole milliseconds, a time to live may also be a non-finite
  number. Every method returns its result or error and the table after it.
\<close>

datatype lease_error =
    LeaseIdEmpty
  | HolderIdEmpty
  | TtlInvalid
  | TokenInvalid

datatype ttl = Ms int | NonFinite

record lease_row =
  lr_holder_id :: jstring
  lr_acquired_at :: int
  lr_expires_at :: int
  lr_fencing_token :: int
  lr_metadata :: "jstring option"

record lease_grant =
  lg_leaseId :: jstring
  lg_holderId :: jstring
  lg_acquiredAt :: int
  lg_expiresAt :: int
  lg_fencingToken :: int
  lg_metadata :: "jstring option"

type_synonym lease_db = "jstring \<Rightarrow> lease_row option"

section \<open>Operations\<close>

fun valid_ttl :: "ttl \<Rightarrow> int option" where
  "valid_ttl NonFinite = None"
| "valid_ttl (Ms n) = (if n \<le> 0 then None else Some n)"

definition newLeaseManager :: "ttl \<Rightarrow> (lease_error, ttl) res" where
  "newLeaseManager defaultTtlMs = (case valid_ttl defaultTtlMs of None \<Rightarrow> Throw TtlInvalid | Some _ \<Rightarrow> Ok defaultTtlMs)"

definition validateLeaseArguments :: "jstring \<Rightarrow> jstring \<Rightarrow> ttl \<Rightarrow> (lease_error, int) res" where
  "validateLeaseArguments leaseId holderId ttlMs =
     (if js_trim leaseId = [] then Throw LeaseIdEmpty
      else if js_trim holderId = [] then Throw HolderIdEmpty
      else case valid_ttl ttlMs of None \<Rightarrow> Throw TtlInvalid | Some n \<Rightarrow> Ok n)"

definition validateFencingToken :: "int \<Rightarrow> (lease_error, unit) res" where
  "validateFencingToken t = (if \<not> is_safe_integer t \<or> t < 1 then Throw TokenInvalid else Ok ())"

definition optional_token :: "int option \<Rightarrow> (lease_error, unit) res" where
  "optional_token t = (case t of None \<Rightarrow> Ok () | Some n \<Rightarrow> validateFencingToken n)"

definition acquireLease :: "int \<Rightarrow> jstring \<Rightarrow> jstring \<Rightarrow> ttl \<Rightarrow> jstring option \<Rightarrow> lease_db \<Rightarrow>
    (lease_error, lease_grant option \<times> lease_db) res" where
  "acquireLease now leaseId holderId ttlMs metadata db =
     rbind (validateLeaseArguments leaseId holderId ttlMs) (\<lambda>ttl.
       let expiresAt = now + ttl;
           existing = db leaseId;
           isActive = (case existing of None \<Rightarrow> False | Some row \<Rightarrow> lr_expires_at row > now)
       in if isActive \<and> map_option lr_holder_id existing \<noteq> Some holderId then Ok (None, db)
          else let fencingToken = max 0 (case existing of None \<Rightarrow> 0 | Some row \<Rightarrow> lr_fencing_token row) + 1
               in Ok (Some \<lparr>lg_leaseId = leaseId, lg_holderId = holderId, lg_acquiredAt = now,
                            lg_expiresAt = expiresAt, lg_fencingToken = fencingToken, lg_metadata = metadata\<rparr>,
                      db(leaseId \<mapsto> \<lparr>lr_holder_id = holderId, lr_acquired_at = now,
                            lr_expires_at = expiresAt, lr_fencing_token = fencingToken,
                            lr_metadata = metadata\<rparr>)))"

definition acquire :: "int \<Rightarrow> jstring \<Rightarrow> jstring \<Rightarrow> ttl \<Rightarrow> jstring option \<Rightarrow> lease_db \<Rightarrow>
    (lease_error, bool \<times> lease_db) res" where
  "acquire now leaseId holderId ttlMs metadata db =
     rbind (acquireLease now leaseId holderId ttlMs metadata db) (\<lambda>(grant, db'). Ok (grant \<noteq> None, db'))"

text \<open>The \<open>UPDATE\<close> of one row; the number of changed rows is one when the row matches.\<close>

definition update_where :: "(lease_row \<Rightarrow> bool) \<Rightarrow> (lease_row \<Rightarrow> lease_row) \<Rightarrow> jstring \<Rightarrow> lease_db \<Rightarrow> bool \<times> lease_db" where
  "update_where cond f leaseId db =
     (case db leaseId of
        None \<Rightarrow> (False, db)
      | Some row \<Rightarrow> (if cond row then (True, db(leaseId \<mapsto> f row)) else (False, db)))"

definition renew :: "int \<Rightarrow> jstring \<Rightarrow> jstring \<Rightarrow> ttl \<Rightarrow> int option \<Rightarrow> lease_db \<Rightarrow>
    (lease_error, bool \<times> lease_db) res" where
  "renew now leaseId holderId ttlMs fencingToken db =
     rbind (validateLeaseArguments leaseId holderId ttlMs) (\<lambda>ttl.
     rbind (optional_token fencingToken) (\<lambda>_.
       Ok (update_where
         (\<lambda>row. lr_holder_id row = holderId
            \<and> (case fencingToken of None \<Rightarrow> True | Some t \<Rightarrow> lr_fencing_token row = t)
            \<and> lr_expires_at row > now)
         (lr_expires_at_update (\<lambda>_. now + ttl)) leaseId db)))"

definition release :: "int \<Rightarrow> jstring \<Rightarrow> jstring \<Rightarrow> int option \<Rightarrow> lease_db \<Rightarrow>
    (lease_error, bool \<times> lease_db) res" where
  "release now leaseId holderId fencingToken db =
     rbind (validateLeaseArguments leaseId holderId (Ms 1)) (\<lambda>_.
     rbind (optional_token fencingToken) (\<lambda>_.
       Ok (update_where
         (\<lambda>row. lr_holder_id row = holderId
            \<and> (case fencingToken of None \<Rightarrow> True | Some t \<Rightarrow> lr_fencing_token row = t))
         (\<lambda>row. row\<lparr>lr_expires_at := now - 1, lr_metadata := None\<rparr>) leaseId db)))"

definition getLease :: "jstring \<Rightarrow> lease_db \<Rightarrow> lease_row option" where
  "getLease leaseId db = db leaseId"

definition isLeaseActive :: "int \<Rightarrow> jstring \<Rightarrow> jstring \<Rightarrow> int \<Rightarrow> lease_db \<Rightarrow> (lease_error, bool) res" where
  "isLeaseActive now leaseId holderId fencingToken db =
     rbind (validateFencingToken fencingToken) (\<lambda>_.
       Ok (case getLease leaseId db of
             None \<Rightarrow> False
           | Some lease \<Rightarrow> lr_holder_id lease = holderId \<and> lr_fencing_token lease = fencingToken
                          \<and> lr_expires_at lease > now))"

definition isLockedByOther :: "int \<Rightarrow> jstring \<Rightarrow> jstring \<Rightarrow> lease_db \<Rightarrow> bool" where
  "isLockedByOther now leaseId currentHolderId db =
     (case getLease leaseId db of
        None \<Rightarrow> False
      | Some lease \<Rightarrow> lr_expires_at lease > now \<and> lr_holder_id lease \<noteq> currentHolderId)"

section \<open>Sequences of operations\<close>

text \<open>Any caller, in any order; a call that throws leaves the table as it is.\<close>

datatype lease_op =
    OpAcquire jstring jstring ttl "jstring option"
  | OpRenew jstring jstring ttl "int option"
  | OpRelease jstring jstring "int option"

definition keep_on_throw :: "lease_db \<Rightarrow> (lease_error, 'a \<times> lease_db) res \<Rightarrow> lease_db" where
  "keep_on_throw db r = (case r of Inl _ \<Rightarrow> db | Inr (_, db') \<Rightarrow> db')"

fun lease_step :: "int \<Rightarrow> lease_op \<Rightarrow> lease_db \<Rightarrow> lease_db" where
  "lease_step now (OpAcquire i h t m) db = keep_on_throw db (acquireLease now i h t m db)"
| "lease_step now (OpRenew i h t k) db = keep_on_throw db (renew now i h t k db)"
| "lease_step now (OpRelease i h k) db = keep_on_throw db (release now i h k db)"

fun lease_run :: "(int \<times> lease_op) list \<Rightarrow> lease_db \<Rightarrow> lease_db" where
  "lease_run [] db = db"
| "lease_run ((now, x) # xs) db = lease_run xs (lease_step now x db)"

definition token_at :: "jstring \<Rightarrow> lease_db \<Rightarrow> int" where
  "token_at i db = (case db i of None \<Rightarrow> 0 | Some row \<Rightarrow> max 0 (lr_fencing_token row))"

text \<open>A grant: holder \<open>h\<close> held lease \<open>i\<close> with token \<open>t\<close> when the state was \<open>db\<close>.\<close>

definition holds :: "jstring \<Rightarrow> jstring \<Rightarrow> int \<Rightarrow> lease_db \<Rightarrow> bool" where
  "holds i h t db \<longleftrightarrow> (\<exists>row. db i = Some row \<and> lr_holder_id row = h \<and> lr_fencing_token row = t)"

section \<open>The contract of a fenced lock\<close>

text \<open>
  What a client of leases relies on: tokens only grow, a grant's token is new, a token names
  at most one holder until it is superseded, and only the current token is active.
\<close>

locale fenced_lock =
  fixes step :: "'t \<Rightarrow> 'op \<Rightarrow> 'db \<Rightarrow> 'db"
    and tok :: "'i \<Rightarrow> 'db \<Rightarrow> int"
    and owner :: "'i \<Rightarrow> 'db \<Rightarrow> 'h option"
    and active :: "'t \<Rightarrow> 'i \<Rightarrow> 'h \<Rightarrow> int \<Rightarrow> 'db \<Rightarrow> bool"
  assumes tok_mono: "tok i db \<le> tok i (step now x db)"
    and owner_stable: "tok i (step now x db) = tok i db \<Longrightarrow> owner i db \<noteq> None \<Longrightarrow>
          owner i (step now x db) = owner i db"
    and active_current: "active now i h t db \<Longrightarrow> tok i db = t \<and> owner i db = Some h"
begin

fun run :: "('t \<times> 'op) list \<Rightarrow> 'db \<Rightarrow> 'db" where
  "run [] db = db"
| "run ((now, x) # xs) db = run xs (step now x db)"

lemma run_append: "run (xs @ ys) db = run ys (run xs db)"
  by (induction xs arbitrary: db) auto

lemma run_tok_mono: "tok i db \<le> tok i (run xs db)"
proof (induction xs arbitrary: db)
  case (Cons x xs)
  then show ?case using tok_mono [of i db "fst x" "snd x"] by (cases x) (simp, meson order_trans)
qed simp

lemma superseded_never_active: "t < tok i db \<Longrightarrow> \<not> active now i h t (run xs db)"
  using run_tok_mono [of i db xs] active_current [of now i h t "run xs db"] by auto

lemma run_owner_stable:
  "tok i (run xs db) = tok i db \<Longrightarrow> owner i db \<noteq> None \<Longrightarrow> owner i (run xs db) = owner i db"
proof (induction xs arbitrary: db)
  case (Cons x xs)
  obtain now a where x: "x = (now, a)" by fastforce
  have "tok i (step now a db) = tok i db"
    using Cons.prems(1) tok_mono [of i db now a] run_tok_mono [of i "step now a db" xs] by (simp add: x)
  then show ?case using Cons owner_stable [of i now a db] by (simp add: x)
qed simp

lemma one_holder_per_token:
  assumes "active n1 i h1 t db" and "active n2 i h2 t (run xs db)"
  shows "h1 = h2"
  using active_current [OF assms(1)] active_current [OF assms(2)] run_owner_stable [of i xs db] by simp

end

section \<open>The leases meet the contract\<close>

named_theorems lease_defs

lemmas [lease_defs] = acquireLease_def renew_def release_def update_where_def keep_on_throw_def Let_def

definition owner_at :: "jstring \<Rightarrow> lease_db \<Rightarrow> jstring option" where
  "owner_at i db = map_option lr_holder_id (db i)"

definition active_at :: "int \<Rightarrow> jstring \<Rightarrow> jstring \<Rightarrow> int \<Rightarrow> lease_db \<Rightarrow> bool" where
  "active_at now i h t db \<longleftrightarrow> isLeaseActive now i h t db = Ok True"

lemma active_at_iff: "active_at now i h t db \<longleftrightarrow> 1 \<le> t \<and> is_safe_integer t \<and>
    (\<exists>row. db i = Some row \<and> lr_holder_id row = h \<and> lr_fencing_token row = t \<and> now < lr_expires_at row)"
  by (auto simp: active_at_def isLeaseActive_def validateFencingToken_def getLease_def split: option.splits)

lemma acquire_step:
  "lease_step now (OpAcquire i h t m) db = db \<or>
   (\<exists>row. lease_step now (OpAcquire i h t m) db = db(i \<mapsto> row) \<and> lr_holder_id row = h \<and>
      lr_fencing_token row = token_at i db + 1)"
proof (cases "acquireLease now i h t m db")
  case (Inl e)
  then show ?thesis by (simp add: keep_on_throw_def)
next
  case (Inr r)
  then show ?thesis
    by (auto simp: keep_on_throw_def acquireLease_def token_at_def Let_def split: if_splits option.splits)
qed

definition keeps_identity :: "lease_db \<Rightarrow> lease_db \<Rightarrow> bool" where
  "keeps_identity db db' \<longleftrightarrow> (\<forall>j. token_at j db' = token_at j db \<and> owner_at j db' = owner_at j db)"

lemma update_where_keeps:
  assumes "\<And>row. lr_holder_id (f row) = lr_holder_id row \<and> lr_fencing_token (f row) = lr_fencing_token row"
  shows "keeps_identity db (snd (update_where c f i db))"
  using assms by (auto simp: keeps_identity_def update_where_def token_at_def owner_at_def split: option.splits)

lemma keep_on_throw_cases:
  "keep_on_throw db r = db \<or> (\<exists>x. r = Ok x \<and> keep_on_throw db r = snd x)"
  by (auto simp: keep_on_throw_def split: sum.splits prod.splits)

lemma keep_on_throw_keeps:
  "(\<And>x. r = Ok x \<Longrightarrow> keeps_identity db (snd x)) \<Longrightarrow> keeps_identity db (keep_on_throw db r)"
  using keep_on_throw_cases [of db r] by (auto simp: keeps_identity_def)

lemma renew_keeps: "keeps_identity db (lease_step now (OpRenew i h t k) db)"
proof -
  have "\<exists>c n. x = update_where c (lr_expires_at_update (\<lambda>_. n)) i db" if "renew now i h t k db = Ok x" for x
    using that unfolding renew_def rbind_Ok_iff sum.inject by metis
  then have "keeps_identity db (snd x)" if "renew now i h t k db = Ok x" for x
    using that update_where_keeps by fastforce
  then show ?thesis by (simp add: keep_on_throw_keeps)
qed

lemma release_keeps: "keeps_identity db (lease_step now (OpRelease i h k) db)"
proof -
  have "\<exists>c. x = update_where c (\<lambda>row. row\<lparr>lr_expires_at := now - 1, lr_metadata := None\<rparr>) i db"
    if "release now i h k db = Ok x" for x
    using that unfolding release_def rbind_Ok_iff sum.inject by metis
  then have "keeps_identity db (snd x)" if "release now i h k db = Ok x" for x
    using that update_where_keeps by fastforce
  then show ?thesis by (simp add: keep_on_throw_keeps)
qed

lemmas steps_keep = renew_keeps [unfolded keeps_identity_def, rule_format]
  release_keeps [unfolded keeps_identity_def, rule_format]

lemma token_at_mono: "token_at j db \<le> token_at j (lease_step now x db)"
proof (cases x)
  case (OpAcquire i h t m)
  then show ?thesis using acquire_step [of now i h t m db] by (cases "i = j") (auto simp: token_at_def)
qed (simp_all add: steps_keep del: lease_step.simps)

lemma owner_at_stable:
  assumes "token_at j (lease_step now x db) = token_at j db" "owner_at j db \<noteq> None"
  shows "owner_at j (lease_step now x db) = owner_at j db"
proof (cases x)
  case (OpAcquire i h t m)
  then show ?thesis
    using acquire_step [of now i h t m db] assms by (cases "i = j") (auto simp: token_at_def owner_at_def)
qed (simp_all add: steps_keep del: lease_step.simps)

interpretation leases: fenced_lock lease_step token_at owner_at active_at
proof unfold_locales
  show "token_at i db = t \<and> owner_at i db = Some h" if "active_at now i h t db" for now i h t db
    using that by (auto simp: active_at_iff token_at_def owner_at_def)
qed (rule token_at_mono owner_at_stable; assumption)+

lemma lease_run_eq: "lease_run xs db = leases.run xs db"
  by (induction xs arbitrary: db) auto

lemma acquireLease_grant:
  assumes "acquireLease now i h ttl m db = Ok (Some g, db')"
  shows "lg_leaseId g = i \<and> lg_holderId g = h \<and> lg_fencingToken g = token_at i db + 1 \<and>
    token_at i db' = token_at i db + 1 \<and> lg_expiresAt g > now \<and>
    db' i = Some \<lparr>lr_holder_id = h, lr_acquired_at = now, lr_expires_at = lg_expiresAt g,
      lr_fencing_token = lg_fencingToken g, lr_metadata = m\<rparr> \<and> (\<forall>j. j \<noteq> i \<longrightarrow> db' j = db j)"
proof -
  have ttl: "validateLeaseArguments i k ttl = Ok n \<Longrightarrow> n > 0" for n k
    by (cases ttl) (auto simp: validateLeaseArguments_def split: if_splits)
  show ?thesis
    using assms by (auto simp: acquireLease_def token_at_def Let_def dest: ttl split: if_splits option.splits)
qed

lemma acquireLease_refused:
  "acquireLease now i h ttl m db = Ok (None, db') \<longleftrightarrow>
     db' = db \<and> is_ok (validateLeaseArguments i h ttl) \<and> isLockedByOther now i h db"
  by (auto simp: acquireLease_def isLockedByOther_def getLease_def is_ok_iff Let_def split: if_splits option.splits)

section \<open>Properties\<close>

text \<open>
  C3: fencing. Once a lease has been granted again, the token of any earlier grant is dead for
  ever: after every later sequence of calls it is never active, it cannot be renewed, and a
  release with it changes nothing.
\<close>

theorem stale_token_is_fenced:
  assumes "acquireLease now i h ttl m db = Ok (Some g, db1)" and "t < lg_fencingToken g"
    and "db2 = lease_run ops db1"
  shows "isLeaseActive later i h' t db2 \<noteq> Ok True \<and>
    (\<forall>ttl'. lease_step later (OpRenew i h' ttl' (Some t)) db2 = db2) \<and>
    lease_step later (OpRelease i h' (Some t)) db2 = db2"
proof -
  have t: "t < token_at i db1" using acquireLease_grant [OF assms(1)] assms(2) by simp
  have "t < token_at i db2"
    using t leases.run_tok_mono [of i db1 ops] assms(3) by (simp add: lease_run_eq)
  moreover have "1 \<le> t \<or> t < 1" by linarith
  ultimately have "lr_fencing_token row \<noteq> t \<or> validateFencingToken t = Throw TokenInvalid" if "db2 i = Some row" for row
    using that by (auto simp: token_at_def validateFencingToken_def)
  then show ?thesis
    using leases.superseded_never_active [OF t, of later h' ops] assms(3)
    by (auto simp: lease_run_eq active_at_def renew_def release_def optional_token_def update_where_def
        keep_on_throw_def split: sum.splits option.splits)
qed

theorem stale_token_is_fenced_witness:
  "isLeaseActive 120 [108] [97] 1
     (lease_run [(105, OpAcquire [108] [98] (Ms 50) None)]
       (lease_step 104 (OpAcquire [108] [97] (Ms 10) None) (lease_step 100 (OpAcquire [108] [97] (Ms 10) None) Map.empty)))
     \<noteq> Ok True"
proof -
  let ?db = "lease_step 100 (OpAcquire [108] [97] (Ms 10) None) Map.empty"
  have "acquireLease 104 [108] [97] (Ms 10) None ?db =
     Ok (Some \<lparr>lg_leaseId = [108], lg_holderId = [97], lg_acquiredAt = 104, lg_expiresAt = 114,
               lg_fencingToken = 2, lg_metadata = None\<rparr>,
         lease_step 104 (OpAcquire [108] [97] (Ms 10) None) ?db)"
    by (simp add: acquireLease_def validateLeaseArguments_def js_trim_def js_space_def keep_on_throw_def)
  then show ?thesis
    by (rule stale_token_is_fenced [where ops = "[(105, OpAcquire [108] [98] (Ms 50) None)]", THEN conjunct1])
      (simp_all del: lease_step.simps)
qed

text \<open>
  C25: mutual exclusion. A lease that is active for one holder is not granted to another before
  it expires: the other's \<open>acquireLease\<close> returns \<open>undefined\<close> and leaves the table unchanged, and
  its release with any token or none changes nothing either.
\<close>

theorem active_lease_excludes_others:
  assumes "isLeaseActive now i h t db = Ok True" and "h' \<noteq> h" and "js_trim h' \<noteq> []"
    and "js_trim i \<noteq> []"
  shows "(\<forall>n m. 0 < n \<longrightarrow> acquireLease now i h' (Ms n) m db = Ok (None, db)) \<and>
    isLockedByOther now i h' db \<and> (\<forall>k. lease_step now (OpRelease i h' k) db = db) \<and>
    (\<forall>n k. lease_step now (OpRenew i h' n k) db = db)"
proof -
  from assms(1) obtain row where row: "db i = Some row" "lr_holder_id row = h" "now < lr_expires_at row"
    using active_at_iff [of now i h t db] by (auto simp: active_at_def)
  then have other: "isLockedByOther now i h' db"
    using assms(2) by (simp add: isLockedByOther_def getLease_def)
  moreover have "acquireLease now i h' (Ms n) m db = Ok (None, db)" if "0 < n" for n m
    using other that assms(3,4) by (simp add: acquireLease_refused validateLeaseArguments_def)
  ultimately show ?thesis
    using row assms(2)
    by (auto simp: release_def renew_def update_where_def keep_on_throw_def split: sum.splits)
qed

theorem active_lease_excludes_others_witness:
  "acquireLease 103 [108] [98] (Ms 50) None (lease_step 100 (OpAcquire [108] [97] (Ms 10) None) Map.empty) =
     Ok (None, lease_step 100 (OpAcquire [108] [97] (Ms 10) None) Map.empty)"
proof -
  let ?db = "lease_step 100 (OpAcquire [108] [97] (Ms 10) None) Map.empty"
  have "isLeaseActive 103 [108] [97] 1 ?db = Ok True"
    by (simp add: acquireLease_def validateLeaseArguments_def js_trim_def js_space_def keep_on_throw_def
        isLeaseActive_def validateFencingToken_def is_safe_integer_def MAX_SAFE_INTEGER_def getLease_def)
  from active_lease_excludes_others [OF this, of "[98]"] show ?thesis
    by (simp add: js_trim_def js_space_def)
qed

end
