(* ===== verification/MutationQueue.thy ===== *)
theory MutationQueue
  imports Leases
begin

text \<open>
  \<open>packages/storage/src/mutation-queue.ts\<close>: mutations of a document run one at a time, in the
  order they were enqueued, each under a fenced lease. \<open>processQueue\<close> is an asynchronous
  function: its frame for a document, between two suspensions, is a \<open>worker\<close>. A step is the code
  between two points where something else may happen; the model also lets other callers step
  between the synchronous parts of one round of the loop, so it has every interleaving of the
  code and more. Each step reads its own clock. The body of a mutation is the caller's code: the
  step that ends it takes its outcome. The calls of \<open>resolve\<close> and \<open>reject\<close> are the log
  \<open>mq_settled\<close>. Other users of the same lease table step through \<open>lease_step\<close>.
\<close>

record mq_task =
  mt_id :: jstring
  mt_documentId :: jstring
  mt_holderId :: jstring

datatype ('v, 'e) settlement =
    Resolved 'v
  | LockedByOther
  | LeaseUnavailable
  | LeaseLost int
  | LeaseFailure lease_error
  | BodyError 'e

datatype worker =
    WLoop
  | WGranted mq_task lease_grant
  | WRunning mq_task lease_grant bool

record ('v, 'e) mq =
  mq_leases :: lease_db
  mq_ttl :: ttl
  mq_queues :: "(jstring \<times> mq_task list) list"
  mq_active :: "jstring set"
  mq_workers :: "jstring \<Rightarrow> worker option"
  mq_settled :: "(mq_task \<times> ('v, 'e) settlement) list"

datatype mq_error = MutationTtlInvalid | DocumentIdEmpty | MutationHolderEmpty

section \<open>Operations\<close>

definition DEFAULT_MUTATION_TTL_MS :: ttl where
  "DEFAULT_MUTATION_TTL_MS = Ms 15000"

definition newMutationQueue :: "lease_db \<Rightarrow> ttl \<Rightarrow> (mq_error, ('v, 'e) mq) res" where
  "newMutationQueue db ttl =
     (case valid_ttl ttl of
        None \<Rightarrow> Throw MutationTtlInvalid
      | Some _ \<Rightarrow> Ok \<lparr>mq_leases = db, mq_ttl = ttl, mq_queues = [], mq_active = {},
                     mq_workers = Map.empty, mq_settled = []\<rparr>)"

definition pending :: "jstring \<Rightarrow> ('v, 'e) mq \<Rightarrow> mq_task list" where
  "pending d s = (case map_of (mq_queues s) d of None \<Rightarrow> [] | Some q \<Rightarrow> q)"

text \<open>The part of \<open>processQueue\<close> before its loop.\<close>

definition startProcessing :: "jstring \<Rightarrow> ('v, 'e) mq \<Rightarrow> ('v, 'e) mq" where
  "startProcessing d s =
     (if d \<in> mq_active s then s
      else if pending d s = [] then s\<lparr>mq_queues := AList.delete d (mq_queues s)\<rparr>
      else s\<lparr>mq_active := insert d (mq_active s), mq_workers := (mq_workers s)(d \<mapsto> WLoop)\<rparr>)"

definition enqueue :: "mq_task \<Rightarrow> ('v, 'e) mq \<Rightarrow> (mq_error, ('v, 'e) mq) res" where
  "enqueue t s =
     (if js_trim (mt_documentId t) = [] then Throw DocumentIdEmpty
      else if js_trim (mt_holderId t) = [] then Throw MutationHolderEmpty
      else let d = mt_documentId t;
               queues = (if map_of (mq_queues s) d = None then AList.update d [] (mq_queues s) else mq_queues s);
               s1 = s\<lparr>mq_queues := queues\<rparr>
           in Ok (startProcessing d (s1\<lparr>mq_queues := AList.update d (pending d s1 @ [t]) (mq_queues s1)\<rparr>)))"

definition isDocumentBusy :: "jstring \<Rightarrow> ('v, 'e) mq \<Rightarrow> bool" where
  "isDocumentBusy d s \<longleftrightarrow> d \<in> mq_active s \<or> length (pending d s) > 0"

definition getPendingCount :: "jstring option \<Rightarrow> ('v, 'e) mq \<Rightarrow> nat" where
  "getPendingCount d s =
     (case d of
        Some d' \<Rightarrow> if d' \<noteq> [] then length (pending d' s) else sum_list (map (length \<circ> snd) (mq_queues s))
      | None \<Rightarrow> sum_list (map (length \<circ> snd) (mq_queues s)))"

text \<open>The \<open>finally\<close> block of \<open>processQueue\<close>, where its frame ends.\<close>

definition endProcessing :: "jstring \<Rightarrow> ('v, 'e) mq \<Rightarrow> ('v, 'e) mq" where
  "endProcessing d s =
     (let s1 = s\<lparr>mq_active := mq_active s - {d}, mq_workers := (mq_workers s)(d := None)\<rparr>
      in if pending d s1 = [] then s1\<lparr>mq_queues := AList.delete d (mq_queues s1)\<rparr>
         else startProcessing d s1)"

definition lease_of :: "jstring \<Rightarrow> jstring" where
  "lease_of d = [108, 101, 97, 115, 101, 95] @ d"

definition mutation_meta :: "mq_task \<Rightarrow> jstring" where
  "mutation_meta t = [109, 117, 116, 97, 116, 105, 111, 110, 58] @ mt_id t"

definition settle :: "mq_task \<Rightarrow> ('v, 'e) settlement \<Rightarrow> ('v, 'e) mq \<Rightarrow> ('v, 'e) mq" where
  "settle t r s = s\<lparr>mq_settled := mq_settled s @ [(t, r)]\<rparr>"

text \<open>One round of the \<open>while\<close> loop, up to the call of \<open>executeWithLease\<close>.\<close>

definition loopStep :: "int \<Rightarrow> int \<Rightarrow> jstring \<Rightarrow> ('v, 'e) mq \<Rightarrow> ('v, 'e) mq" where
  "loopStep now now2 d s =
     (case pending d s of
        [] \<Rightarrow> endProcessing d s
      | t # rest \<Rightarrow>
          (let s1 = s\<lparr>mq_queues := AList.update d rest (mq_queues s)\<rparr>
           in case acquireLease now (lease_of d) (mt_holderId t) (mq_ttl s) (Some (mutation_meta t)) (mq_leases s) of
                Inl _ \<Rightarrow> endProcessing d s1
              | Inr (None, db) \<Rightarrow>
                  settle t (if isLockedByOther now2 (lease_of d) (mt_holderId t) db then LockedByOther
                            else LeaseUnavailable) (s1\<lparr>mq_leases := db\<rparr>)
              | Inr (Some g, db) \<Rightarrow>
                  s1\<lparr>mq_leases := db, mq_workers := (mq_workers s1)(d \<mapsto> WGranted t g)\<rparr>))"

text \<open>\<open>context.assertActive\<close>: what it throws, if it throws.\<close>

definition assertActive :: "int \<Rightarrow> lease_grant \<Rightarrow> bool \<Rightarrow> lease_db \<Rightarrow> ('v, 'e) settlement option" where
  "assertActive now g leaseLost db =
     (if leaseLost then Some (LeaseLost (lg_fencingToken g))
      else case isLeaseActive now (lg_leaseId g) (lg_holderId g) (lg_fencingToken g) db of
             Inl e \<Rightarrow> Some (LeaseFailure e)
           | Inr active \<Rightarrow> if active then None else Some (LeaseLost (lg_fencingToken g)))"

text \<open>\<open>executeWithLease\<close> settles the task, then releases the lease and returns to the loop.\<close>

definition settleAndRelease ::
  "int \<Rightarrow> jstring \<Rightarrow> mq_task \<Rightarrow> lease_grant \<Rightarrow> ('v, 'e) settlement \<Rightarrow> ('v, 'e) mq \<Rightarrow> ('v, 'e) mq" where
  "settleAndRelease now d t g r s =
     (let s1 = settle t r s
      in case release now (lg_leaseId g) (lg_holderId g) (Some (lg_fencingToken g)) (mq_leases s1) of
           Inl _ \<Rightarrow> endProcessing d s1
         | Inr (_, db) \<Rightarrow> s1\<lparr>mq_leases := db, mq_workers := (mq_workers s1)(d \<mapsto> WLoop)\<rparr>)"

definition beginBody :: "int \<Rightarrow> int \<Rightarrow> jstring \<Rightarrow> mq_task \<Rightarrow> lease_grant \<Rightarrow> ('v, 'e) mq \<Rightarrow> ('v, 'e) mq" where
  "beginBody now now2 d t g s =
     (case assertActive now g False (mq_leases s) of
        Some r \<Rightarrow> settleAndRelease now2 d t g r s
      | None \<Rightarrow> s\<lparr>mq_workers := (mq_workers s)(d \<mapsto> WRunning t g False)\<rparr>)"

definition bodyAsserts :: "int \<Rightarrow> jstring \<Rightarrow> mq_task \<Rightarrow> lease_grant \<Rightarrow> bool \<Rightarrow> ('v, 'e) mq \<Rightarrow> ('v, 'e) mq" where
  "bodyAsserts now d t g lost s =
     s\<lparr>mq_workers := (mq_workers s)(d \<mapsto> WRunning t g
        (lost \<or> isLeaseActive now (lg_leaseId g) (lg_holderId g) (lg_fencingToken g) (mq_leases s) = Ok False))\<rparr>"

definition heartbeat :: "int \<Rightarrow> jstring \<Rightarrow> mq_task \<Rightarrow> lease_grant \<Rightarrow> bool \<Rightarrow> ('v, 'e) mq \<Rightarrow> ('v, 'e) mq" where
  "heartbeat now d t g lost s =
     (case renew now (lg_leaseId g) (lg_holderId g) (mq_ttl s) (Some (lg_fencingToken g)) (mq_leases s) of
        Inl _ \<Rightarrow> s
      | Inr (renewed, db) \<Rightarrow>
          s\<lparr>mq_leases := db, mq_workers := (mq_workers s)(d \<mapsto> WRunning t g (lost \<or> \<not> renewed))\<rparr>)"

definition endBody ::
  "int \<Rightarrow> int \<Rightarrow> jstring \<Rightarrow> mq_task \<Rightarrow> lease_grant \<Rightarrow> bool \<Rightarrow> ('e, 'v) res \<Rightarrow> ('v, 'e) mq \<Rightarrow> ('v, 'e) mq" where
  "endBody now now2 d t g lost outcome s =
     settleAndRelease now2 d t g
       (case outcome of
          Inl e \<Rightarrow> BodyError e
        | Inr v \<Rightarrow> (case assertActive now g lost (mq_leases s) of Some r \<Rightarrow> r | None \<Rightarrow> Resolved v)) s"

section \<open>Steps and reachable states\<close>

inductive mq_step :: "('v, 'e) mq \<Rightarrow> ('v, 'e) mq \<Rightarrow> bool" where
  Loop: "mq_workers s d = Some WLoop \<Longrightarrow> mq_step s (loopStep now now2 d s)"
| Begin: "mq_workers s d = Some (WGranted t g) \<Longrightarrow> mq_step s (beginBody now now2 d t g s)"
| Assert: "mq_workers s d = Some (WRunning t g lost) \<Longrightarrow> mq_step s (bodyAsserts now d t g lost s)"
| Heartbeat: "mq_workers s d = Some (WRunning t g lost) \<Longrightarrow> mq_step s (heartbeat now d t g lost s)"
| End: "mq_workers s d = Some (WRunning t g lost) \<Longrightarrow> mq_step s (endBody now now2 d t g lost outcome s)"
| Others: "mq_step s (s\<lparr>mq_leases := lease_step now x (mq_leases s)\<rparr>)"

text \<open>\<open>mq_reach ts s\<close>: \<open>s\<close> is reached after exactly the tasks \<open>ts\<close> were enqueued, in that order.\<close>

inductive mq_reach :: "mq_task list \<Rightarrow> ('v, 'e) mq \<Rightarrow> bool" where
  Init: "newMutationQueue db ttl = Ok s \<Longrightarrow> mq_reach [] s"
| Enqueue: "mq_reach ts s \<Longrightarrow> enqueue t s = Ok s' \<Longrightarrow> mq_reach (ts @ [t]) s'"
| Step: "mq_reach ts s \<Longrightarrow> mq_step s s' \<Longrightarrow> mq_reach ts s'"

inductive_cases mq_stepE: "mq_step s s'"

section \<open>What the steps do\<close>

lemma dropWhile_rev_Nil: "dropWhile P (rev xs) = [] \<longleftrightarrow> (\<forall>x \<in> set xs. P x)"
  by (simp add: dropWhile_eq_Nil_conv)

lemma js_trim_Nil: "js_trim s = [] \<longleftrightarrow> (\<forall>c \<in> set s. js_space c)"
proof
  assume "js_trim s = []"
  then have *: "\<forall>c \<in> set (dropWhile js_space s). js_space c"
    by (simp add: js_trim_def dropWhile_rev_Nil)
  show "\<forall>c \<in> set s. js_space c"
  proof (cases "dropWhile js_space s")
    case Nil
    then show ?thesis by (simp add: dropWhile_eq_Nil_conv)
  next
    case (Cons c cs)
    then have "\<not> js_space c" by (simp add: dropWhile_eq_Cons_conv)
    with * Cons show ?thesis by simp
  qed
next
  assume "\<forall>c \<in> set s. js_space c"
  then have "dropWhile js_space s = []" by (simp add: dropWhile_eq_Nil_conv)
  then show "js_trim s = []" unfolding js_trim_def by (metis dropWhile.simps(1) rev.simps(1))
qed

lemma lease_of_not_blank: "js_trim (lease_of d) \<noteq> []"
  by (simp add: js_trim_Nil lease_of_def js_space_def)

named_theorems mq_simps

lemma pending_update [mq_simps]:
  "pending d' (s\<lparr>mq_queues := AList.update d q (mq_queues s)\<rparr>) = (if d' = d then q else pending d' s)"
  by (simp add: pending_def update_conv')

lemma pending_delete [mq_simps]:
  "pending d' (s\<lparr>mq_queues := AList.delete d (mq_queues s)\<rparr>) = (if d' = d then [] else pending d' s)"
  by (simp add: pending_def delete_conv')

lemma pending_others [mq_simps]:
  "pending d (s\<lparr>mq_leases := x\<rparr>) = pending d s" "pending d (s\<lparr>mq_active := a\<rparr>) = pending d s"
  "pending d (s\<lparr>mq_workers := w\<rparr>) = pending d s" "pending d (s\<lparr>mq_settled := l\<rparr>) = pending d s"
  "pending d (s\<lparr>mq_active := a, mq_workers := w\<rparr>) = pending d s"
  by (simp_all add: pending_def)

lemma startProcessing_simps [mq_simps]:
  "pending d' (startProcessing d s) = pending d' s"
  "mq_settled (startProcessing d s) = mq_settled s"
  "mq_ttl (startProcessing d s) = mq_ttl s"
  "mq_leases (startProcessing d s) = mq_leases s"
  "mq_active (startProcessing d s) = (if pending d s = [] then mq_active s else insert d (mq_active s))"
  "mq_workers (startProcessing d s) =
     (if d \<in> mq_active s \<or> pending d s = [] then mq_workers s else (mq_workers s)(d \<mapsto> WLoop))"
  by (auto simp: startProcessing_def mq_simps)

lemma endProcessing_simps [mq_simps]:
  "pending d' (endProcessing d s) = pending d' s"
  "mq_settled (endProcessing d s) = mq_settled s"
  "mq_ttl (endProcessing d s) = mq_ttl s"
  "mq_leases (endProcessing d s) = mq_leases s"
  "mq_active (endProcessing d s) = (if pending d s = [] then mq_active s - {d} else insert d (mq_active s))"
  "mq_workers (endProcessing d s) = (mq_workers s)(d := if pending d s = [] then None else Some WLoop)"
proof -
  let ?s1 = "s\<lparr>mq_active := mq_active s - {d}, mq_workers := (mq_workers s)(d := None)\<rparr>"
  have "pending d' (?s1\<lparr>mq_queues := AList.delete d (mq_queues ?s1)\<rparr>) =
      (if d' = d then [] else pending d' s)" for d'
    unfolding pending_delete by (simp add: mq_simps)
  then show "pending d' (endProcessing d s) = pending d' s"
    by (simp add: endProcessing_def Let_def mq_simps)
qed (auto simp: endProcessing_def Let_def mq_simps)

lemma settle_simps [mq_simps]:
  "pending d' (settle t r s) = pending d' s" "mq_settled (settle t r s) = mq_settled s @ [(t, r)]"
  "mq_ttl (settle t r s) = mq_ttl s" "mq_active (settle t r s) = mq_active s"
  "mq_workers (settle t r s) = mq_workers s" "mq_leases (settle t r s) = mq_leases s"
  by (simp_all add: settle_def mq_simps)

section \<open>Invariant\<close>

definition current :: "jstring \<Rightarrow> ('v, 'e) mq \<Rightarrow> mq_task list" where
  "current d s = (case mq_workers s d of
     Some (WGranted t g) \<Rightarrow> [t] | Some (WRunning t g lost) \<Rightarrow> [t] | _ \<Rightarrow> [])"

definition for_doc :: "jstring \<Rightarrow> mq_task list \<Rightarrow> mq_task list" where
  "for_doc d ts = filter (\<lambda>t. mt_documentId t = d) ts"

definition grant_ok :: "jstring \<Rightarrow> mq_task \<Rightarrow> lease_grant \<Rightarrow> bool" where
  "grant_ok d t g \<longleftrightarrow> lg_leaseId g = lease_of d \<and> lg_holderId g = mt_holderId t \<and> mt_documentId t = d"

definition worker_ok :: "jstring \<Rightarrow> worker option \<Rightarrow> bool" where
  "worker_ok d w = (case w of Some (WGranted t g) \<Rightarrow> grant_ok d t g
     | Some (WRunning t g lost) \<Rightarrow> grant_ok d t g | _ \<Rightarrow> True)"

definition doc_inv :: "mq_task list \<Rightarrow> ('v, 'e) mq \<Rightarrow> jstring \<Rightarrow> bool" where
  "doc_inv ts s d \<longleftrightarrow>
     (d \<in> mq_active s \<longleftrightarrow> mq_workers s d \<noteq> None) \<and> (pending d s \<noteq> [] \<longrightarrow> d \<in> mq_active s) \<and>
     worker_ok d (mq_workers s d) \<and>
     for_doc d ts = for_doc d (map fst (mq_settled s)) @ current d s @ pending d s"

definition mq_inv :: "mq_task list \<Rightarrow> ('v, 'e) mq \<Rightarrow> bool" where
  "mq_inv ts s \<longleftrightarrow> valid_ttl (mq_ttl s) \<noteq> None \<and>
     (\<forall>t \<in> set ts. js_trim (mt_holderId t) \<noteq> []) \<and> (\<forall>d. doc_inv ts s d)"

lemma for_doc_simps [simp]:
  "for_doc d [] = []" "for_doc d (xs @ ys) = for_doc d xs @ for_doc d ys"
  "for_doc d (t # ts) = (if mt_documentId t = d then t # for_doc d ts else for_doc d ts)"
  by (simp_all add: for_doc_def)

text \<open>A step of document \<open>d\<close> leaves what the invariant says of the others.\<close>

lemma doc_inv_cong:
  "doc_inv ts s d \<Longrightarrow> (d \<in> mq_active s' \<longleftrightarrow> d \<in> mq_active s) \<Longrightarrow> mq_workers s' d = mq_workers s d \<Longrightarrow>
     pending d s' = pending d s \<Longrightarrow>
     for_doc d (map fst (mq_settled s')) = for_doc d (map fst (mq_settled s)) \<Longrightarrow> doc_inv ts s' d"
  by (auto simp: doc_inv_def current_def)

lemma mq_inv_step:
  assumes "mq_inv ts s" and "mq_ttl s' = mq_ttl s" and "doc_inv ts s' d"
    and "\<And>d'. d' \<noteq> d \<Longrightarrow> (d' \<in> mq_active s' \<longleftrightarrow> d' \<in> mq_active s) \<and> mq_workers s' d' = mq_workers s d' \<and>
       pending d' s' = pending d' s \<and> for_doc d' (map fst (mq_settled s')) = for_doc d' (map fst (mq_settled s))"
  shows "mq_inv ts s'"
proof -
  have "doc_inv ts s' d'" for d'
    using assms by (cases "d' = d") (auto simp: mq_inv_def intro: doc_inv_cong)
  then show ?thesis using assms(1,2) by (simp add: mq_inv_def)
qed

lemma mq_inv_doc: "mq_inv ts s \<Longrightarrow> doc_inv ts s d"
  by (simp add: mq_inv_def)

lemma task_acquires:
  assumes "mq_inv ts s" "pending d s = t # rest"
  shows "mt_documentId t = d"
    and "\<exists>r. acquireLease now (lease_of d) (mt_holderId t) (mq_ttl s) m db = Ok r"
proof -
  have "t \<in> set (for_doc d ts)"
    using mq_inv_doc [OF assms(1), of d] assms(2) by (simp add: doc_inv_def)
  then have t: "mt_documentId t = d" "js_trim (mt_holderId t) \<noteq> []"
    using assms(1) by (auto simp: for_doc_def mq_inv_def)
  then show "mt_documentId t = d" by simp
  obtain n where "validateLeaseArguments (lease_of d) (mt_holderId t) (mq_ttl s) = Ok n"
    using t(2) assms(1) lease_of_not_blank [of d] by (auto simp: validateLeaseArguments_def mq_inv_def)
  then show "\<exists>r. acquireLease now (lease_of d) (mt_holderId t) (mq_ttl s) m db = Ok r"
    by (simp add: acquireLease_def Let_def)
qed

lemma enqueue_inv:
  assumes "mq_inv ts s" and "enqueue t s = Ok s'"
  shows "mq_inv (ts @ [t]) s'"
proof -
  let ?d = "mt_documentId t"
  define s1 where "s1 = s\<lparr>mq_queues := if map_of (mq_queues s) ?d = None
    then AList.update ?d [] (mq_queues s) else mq_queues s\<rparr>"
  define s2 where "s2 = s1\<lparr>mq_queues := AList.update ?d (pending ?d s1 @ [t]) (mq_queues s1)\<rparr>"
  have p1: "pending d s1 = pending d s" for d
    by (auto simp: s1_def pending_def update_conv')
  have s2: "pending d s2 = (if d = ?d then pending d s @ [t] else pending d s)" "mq_active s2 = mq_active s"
    "mq_workers s2 = mq_workers s" "mq_settled s2 = mq_settled s" "mq_ttl s2 = mq_ttl s" for d
    by (simp_all add: s2_def pending_update p1) (simp_all add: s1_def)
  have s': "s' = startProcessing ?d s2" "js_trim (mt_holderId t) \<noteq> []"
    using assms(2) by (auto simp: enqueue_def s1_def s2_def Let_def split: if_splits)
  have "doc_inv (ts @ [t]) s' d" for d
    using mq_inv_doc [OF assms(1), of d]
    by (auto simp: s' doc_inv_def mq_simps s2 current_def worker_ok_def split: option.splits worker.splits)
  with assms(1) s'(2) show ?thesis by (simp add: mq_inv_def s'(1) mq_simps s2)
qed

lemma settleAndRelease_inv:
  assumes inv: "mq_inv ts s" and cur: "current d s = [t]"
  shows "mq_inv ts (settleAndRelease now d t g r s)"
proof (rule mq_inv_step [OF inv, where d = d])
  have d: "mt_documentId t = d" 
    using mq_inv_doc [OF inv, of d] cur
    by (auto simp: doc_inv_def worker_ok_def current_def grant_ok_def split: option.splits worker.splits)
  have "mq_workers s d \<noteq> None" using cur by (auto simp: current_def split: option.splits)
  then show "doc_inv ts (settleAndRelease now d t g r s) d"
    using mq_inv_doc [OF inv, of d] cur d
    by (cases "release now (lg_leaseId g) (lg_holderId g) (Some (lg_fencingToken g)) (mq_leases s)")
      (auto simp: settleAndRelease_def Let_def doc_inv_def mq_simps worker_ok_def current_def split: prod.splits)
  show "mq_ttl (settleAndRelease now d t g r s) = mq_ttl s"
    by (simp add: settleAndRelease_def Let_def mq_simps split: sum.split prod.split)
  show "(d' \<in> mq_active (settleAndRelease now d t g r s)) = (d' \<in> mq_active s) \<and>
      mq_workers (settleAndRelease now d t g r s) d' = mq_workers s d' \<and>
      pending d' (settleAndRelease now d t g r s) = pending d' s \<and>
      for_doc d' (map fst (mq_settled (settleAndRelease now d t g r s))) = for_doc d' (map fst (mq_settled s))"
    if "d' \<noteq> d" for d'
    using that d by (auto simp: settleAndRelease_def Let_def mq_simps split: sum.split prod.split)
qed

lemma loopStep_inv:
  assumes inv: "mq_inv ts s" and w: "mq_workers s d = Some WLoop"
  shows "mq_inv ts (loopStep now now2 d s)"
proof (cases "pending d s")
  case Nil
  then have "loopStep now now2 d s = endProcessing d s" by (simp add: loopStep_def)
  then show ?thesis
    using mq_inv_doc [OF inv, of d] w Nil
    by (auto intro!: mq_inv_step [OF inv, where d = d] simp: mq_simps doc_inv_def current_def worker_ok_def)
next
  case (Cons t rest)
  note t = task_acquires [OF inv Cons]
  let ?s1 = "s\<lparr>mq_queues := AList.update d rest (mq_queues s)\<rparr>"
  obtain g db where a: "acquireLease now (lease_of d) (mt_holderId t) (mq_ttl s) (Some (mutation_meta t)) (mq_leases s)
      = Ok (g, db)"
    using t(2) by force
  have p: "pending d' (?s1\<lparr>mq_leases := db\<rparr>) = (if d' = d then rest else pending d' s)" for d'
    by (simp add: mq_simps)
  show ?thesis
  proof (cases g)
    case None
    then show ?thesis
      using mq_inv_doc [OF inv, of d] w Cons t(1) a
      by (intro mq_inv_step [OF inv, where d = d])
        (auto simp: loopStep_def Let_def mq_simps p doc_inv_def current_def worker_ok_def)
  next
    case (Some g')
    then have "grant_ok d t g'" using acquireLease_grant a t(1) by (auto simp: grant_ok_def)
    then show ?thesis
      using mq_inv_doc [OF inv, of d] w Cons t(1) a Some
      by (intro mq_inv_step [OF inv, where d = d])
        (auto simp: loopStep_def Let_def mq_simps doc_inv_def current_def worker_ok_def)
  qed
qed

lemma mq_step_inv:
  assumes inv: "mq_inv ts s" and step: "mq_step s s'"
  shows "mq_inv ts s'"
  using step
proof cases
  case (Loop d now now2)
  then show ?thesis using inv loopStep_inv by blast
next
  case (Begin d t g now now2)
  note d = mq_inv_doc [OF inv, of d]
  have cur: "current d s = [t]" using Begin by (simp add: current_def)
  show ?thesis
  proof (cases "assertActive now g False (mq_leases s) :: ('a, 'b) settlement option")
    case None
    then show ?thesis
      using d Begin by (intro mq_inv_step [OF inv, where d = d])
        (auto simp: beginBody_def mq_simps doc_inv_def current_def worker_ok_def)
  next
    case (Some r)
    then show ?thesis using settleAndRelease_inv [OF inv cur] Begin by (simp add: beginBody_def)
  qed
next
  case (Assert d t g lost now)
  then show ?thesis
    using mq_inv_doc [OF inv, of d] by (intro mq_inv_step [OF inv, where d = d])
      (auto simp: bodyAsserts_def mq_simps doc_inv_def current_def worker_ok_def)
next
  case (Heartbeat d t g lost now)
  then show ?thesis
    using mq_inv_doc [OF inv, of d] by (intro mq_inv_step [OF inv, where d = d])
      (auto simp: heartbeat_def mq_simps doc_inv_def current_def worker_ok_def split: sum.splits prod.splits)
next
  case (End d t g lost now now2 outcome)
  then have "current d s = [t]" by (simp add: current_def)
  from settleAndRelease_inv [OF inv this] show ?thesis using End by (simp add: endBody_def)
next
  case (Others now x)
  then show ?thesis
    using inv by (auto simp: mq_inv_def doc_inv_def current_def mq_simps)
qed

lemma mq_reach_inv: "mq_reach ts s \<Longrightarrow> mq_inv ts s"
proof (induction rule: mq_reach.induct)
  case (Init db ttl s)
  then show ?case
    by (auto simp: newMutationQueue_def mq_inv_def doc_inv_def pending_def current_def worker_ok_def
        split: option.splits)
qed (auto intro: enqueue_inv mq_step_inv)

section \<open>Properties\<close>

text \<open>
  C9: in every reachable state, whatever other callers do to the leases, the tasks enqueued for
  a document are, in this order and each exactly once: the settled ones, the one that runs
  (at most one), and the pending ones. So mutations of a document are serial and first in,
  first out, and none is dropped or settled twice.
\<close>

theorem mutations_serial_and_settled_once:
  assumes "mq_reach ts s"
  shows "for_doc d ts = for_doc d (map fst (mq_settled s)) @ current d s @ pending d s \<and>
    length (current d s) \<le> 1"
  using mq_inv_doc [OF mq_reach_inv [OF assms], of d]
  by (auto simp: doc_inv_def current_def split: option.splits worker.splits)

text \<open>A run on one document, for the witnesses: the state after each of its steps.\<close>

definition demo_task :: mq_task where
  "demo_task = \<lparr>mt_id = [49], mt_documentId = [100], mt_holderId = [97]\<rparr>"

definition demo_start :: "(nat, nat) mq" where
  "demo_start = \<lparr>mq_leases = Map.empty, mq_ttl = Ms 9, mq_queues = [], mq_active = {},
     mq_workers = Map.empty, mq_settled = []\<rparr>"

definition demo_queued :: "(nat, nat) mq" where
  "demo_queued = demo_start\<lparr>mq_queues := [([100], [demo_task])], mq_active := {[100]},
     mq_workers := [[100] \<mapsto> WLoop]\<rparr>"

definition demo_grant :: lease_grant where
  "demo_grant = \<lparr>lg_leaseId = lease_of [100], lg_holderId = [97], lg_acquiredAt = 1, lg_expiresAt = 10,
     lg_fencingToken = 1, lg_metadata = Some (mutation_meta demo_task)\<rparr>"

definition demo_granted :: "(nat, nat) mq" where
  "demo_granted = demo_queued\<lparr>mq_leases := [lease_of [100] \<mapsto> \<lparr>lr_holder_id = [97], lr_acquired_at = 1,
     lr_expires_at = 10, lr_fencing_token = 1, lr_metadata = Some (mutation_meta demo_task)\<rparr>],
     mq_queues := [([100], [])], mq_workers := [[100] \<mapsto> WGranted demo_task demo_grant]\<rparr>"

definition demo_running :: "(nat, nat) mq" where
  "demo_running = demo_granted\<lparr>mq_workers := [[100] \<mapsto> WRunning demo_task demo_grant False]\<rparr>"

named_theorems demo_defs

lemmas [demo_defs] = demo_task_def demo_start_def demo_queued_def demo_grant_def demo_granted_def demo_running_def

lemma demo_reach_queued: "mq_reach [demo_task] demo_queued"
proof -
  have "mq_reach [] demo_start"
    by (rule mq_reach.Init [of Map.empty "Ms 9"]) (simp add: newMutationQueue_def demo_start_def)
  moreover have "enqueue demo_task demo_start = Ok demo_queued"
    by (simp add: enqueue_def startProcessing_def pending_def demo_defs js_trim_Nil js_space_def Let_def)
  ultimately show ?thesis by (auto dest: mq_reach.Enqueue)
qed

lemma demo_validate: "validateLeaseArguments (lease_of [100]) [97] (Ms n) = (if n \<le> 0 then Throw TtlInvalid else Ok n)"
  by (simp add: validateLeaseArguments_def lease_of_def js_trim_Nil js_space_def)

lemma demo_reach_running: "mq_reach [demo_task] demo_running"
proof -
  have "loopStep 1 1 [100] demo_queued = demo_granted"
    by (simp add: loopStep_def pending_def demo_defs acquireLease_def demo_validate)
  then have "mq_step demo_queued demo_granted"
    using mq_step.Loop [of demo_queued "[100]" 1 1] by (simp add: demo_defs)
  moreover have "beginBody 2 2 [100] demo_task demo_grant demo_granted = demo_running"
    by (simp add: beginBody_def assertActive_def isLeaseActive_def validateFencingToken_def getLease_def
        is_safe_integer_def MAX_SAFE_INTEGER_def demo_defs)
  then have "mq_step demo_granted demo_running"
    using mq_step.Begin [of demo_granted "[100]" demo_task demo_grant 2 2] by (simp add: demo_defs)
  ultimately show ?thesis using demo_reach_queued by (blast intro: mq_reach.Step)
qed

theorem mutations_serial_and_settled_once_witness:
  "for_doc [100] [demo_task] = for_doc [100] (map fst (mq_settled demo_running)) @
     current [100] demo_running @ pending [100] demo_running \<and> current [100] demo_running = [demo_task]"
  using mutations_serial_and_settled_once [OF demo_reach_running, of "[100]"]
  by (simp add: current_def demo_running_def)

text \<open>
  C32: a document with a pending mutation always has its one processing loop running, and every
  loop has a step to take: the queue never stalls with work in it.
\<close>

theorem pending_document_is_processed:
  assumes "mq_reach ts s" and "pending d s \<noteq> []"
  shows "d \<in> mq_active s \<and> (\<exists>w. mq_workers s d = Some w) \<and> isDocumentBusy d s \<and>
    (\<exists>s'. mq_step s s' \<and> (mq_workers s' d \<noteq> mq_workers s d \<or> mq_settled s' \<noteq> mq_settled s))"
proof -
  note d = mq_inv_doc [OF mq_reach_inv [OF assms(1)], of d]
  then obtain w where w: "mq_workers s d = Some w" and a: "d \<in> mq_active s"
    using assms(2) by (auto simp: doc_inv_def)
  have "\<exists>s'. mq_step s s' \<and> (mq_workers s' d \<noteq> mq_workers s d \<or> mq_settled s' \<noteq> mq_settled s)"
  proof (cases w)
    case WLoop
    obtain t rest where p: "pending d s = t # rest" using assms(2) by (cases "pending d s") auto
    obtain g db where "acquireLease 0 (lease_of d) (mt_holderId t) (mq_ttl s) (Some (mutation_meta t)) (mq_leases s)
        = Ok (g, db)"
      using task_acquires(2) [OF mq_reach_inv [OF assms(1)] p] by force
    then have "mq_workers (loopStep 0 0 d s) d \<noteq> mq_workers s d \<or> mq_settled (loopStep 0 0 d s) \<noteq> mq_settled s"
      using w p WLoop by (cases g) (auto simp: loopStep_def Let_def mq_simps)
    then show ?thesis using w WLoop by (blast intro: mq_step.Loop)
  next
    case (WGranted t g)
    have "mq_workers (beginBody 0 0 d t g s) d \<noteq> mq_workers s d \<or> mq_settled (beginBody 0 0 d t g s) \<noteq> mq_settled s"
      using w WGranted
      by (auto simp: beginBody_def settleAndRelease_def Let_def mq_simps split: option.splits sum.splits prod.splits)
    then show ?thesis using w WGranted by (blast intro: mq_step.Begin)
  next
    case (WRunning t g lost)
    have "mq_settled (endBody 0 0 d t g lost (Inl e) s) \<noteq> mq_settled s" for e
      by (auto simp: endBody_def settleAndRelease_def Let_def mq_simps split: sum.splits prod.splits)
    then show ?thesis using w WRunning by (blast intro: mq_step.End)
  qed
  with w a show ?thesis by (auto simp: isDocumentBusy_def)
qed

theorem pending_document_is_processed_witness:
  "pending [100] demo_queued = [demo_task] \<and> [100] \<in> mq_active demo_queued \<and> isDocumentBusy [100] demo_queued"
proof -
  have "pending [100] demo_queued = [demo_task]" by (simp add: pending_def demo_queued_def)
  then show ?thesis using pending_document_is_processed [OF demo_reach_queued, of "[100]"] by simp
qed

text \<open>
  C27: a mutation is resolved by the end of its body and by nothing else, and exactly when the body
  returned, no call reported the lease lost, and at the clock that end reads the row of the document's lease
  names the task's holder and the granted fencing token and has not expired.
\<close>

theorem resolved_only_under_active_lease:
  assumes "mq_reach ts s"
  shows "(\<forall>d t g lost now now2 outcome v. mq_workers s d = Some (WRunning t g lost) \<longrightarrow>
      (mq_settled (endBody now now2 d t g lost outcome s) = mq_settled s @ [(t, Resolved v)] \<longleftrightarrow>
         outcome = Inr v \<and> \<not> lost \<and> 1 \<le> lg_fencingToken g \<and> is_safe_integer (lg_fencingToken g) \<and>
         (\<exists>row. mq_leases s (lease_of (mt_documentId t)) = Some row \<and> lr_holder_id row = mt_holderId t \<and>
            lr_fencing_token row = lg_fencingToken g \<and> now < lr_expires_at row))) \<and>
    (\<forall>s' t v. mq_step s s' \<and> mq_settled s' = mq_settled s @ [(t, Resolved v)] \<longrightarrow>
      (\<exists>d g lost now now2. mq_workers s d = Some (WRunning t g lost) \<and> s' = endBody now now2 d t g lost (Inr v) s))"
proof -
  have act: "assertActive now g lost db = (None :: ('a, 'b) settlement option) \<longleftrightarrow> \<not> lost \<and>
      active_at now (lg_leaseId g) (lg_holderId g) (lg_fencingToken g) db" for now g lost db
    by (auto simp: assertActive_def active_at_def split: sum.splits)
  have never: "assertActive now g lost db \<noteq> (Some (Resolved v) :: ('a, 'b) settlement option)" for now g lost db v
    by (auto simp: assertActive_def split: sum.splits)
  have sr: "mq_settled (settleAndRelease n d t' g r s) = mq_settled s @ [(t', r)]" for n d t' g r
    by (auto simp: settleAndRelease_def Let_def mq_simps split: sum.splits prod.splits)
  have ended: "mq_settled (endBody now now2 d t g lost outcome s) = mq_settled s @ [(t', Resolved v)] \<longleftrightarrow>
      t' = t \<and> outcome = Inr v \<and> \<not> lost \<and> active_at now (lg_leaseId g) (lg_holderId g) (lg_fencingToken g) (mq_leases s)"
    for now now2 d t g lost outcome v t'
    using act[of now g lost "mq_leases s"] never[of now g lost "mq_leases s" v]
    by (auto simp: endBody_def sr split: sum.splits option.splits)
  have grant: "grant_ok d t g" if "mq_workers s d = Some (WRunning t g lost)" for d t g lost
    using mq_inv_doc [OF mq_reach_inv [OF assms(1)], of d] that by (simp add: doc_inv_def worker_ok_def)
  have only: "\<exists>d g lost now now2. mq_workers s d = Some (WRunning t g lost) \<and> s' = endBody now now2 d t g lost (Inr v) s"
    if step: "mq_step s s'" and res: "mq_settled s' = mq_settled s @ [(t, Resolved v)]" for s' t v
    using step
  proof cases
    case (Loop d now now2)
    then show ?thesis using res
      by (auto simp: loopStep_def Let_def mq_simps split: list.splits sum.splits option.splits if_splits)
  next
    case (Begin d t' g now now2)
    then show ?thesis using res never
      by (auto simp: beginBody_def sr split: option.splits)
  next
    case (Assert d t' g lost now)
    then show ?thesis using res by (simp add: bodyAsserts_def)
  next
    case (Heartbeat d t' g lost now)
    then show ?thesis using res by (auto simp: heartbeat_def split: sum.splits prod.splits)
  next
    case (End d t' g lost now now2 outcome)
    then have "t = t'" "outcome = Inr v" using res ended[of now now2 d t' g lost outcome t v] by simp_all
    then show ?thesis using End by blast
  next
    case (Others now x)
    then show ?thesis using res by simp
  qed
  have "mq_settled (endBody now now2 d t g lost outcome s) = mq_settled s @ [(t, Resolved v)] \<longleftrightarrow>
      outcome = Inr v \<and> \<not> lost \<and> 1 \<le> lg_fencingToken g \<and> is_safe_integer (lg_fencingToken g) \<and>
      (\<exists>row. mq_leases s (lease_of (mt_documentId t)) = Some row \<and> lr_holder_id row = mt_holderId t \<and>
         lr_fencing_token row = lg_fencingToken g \<and> now < lr_expires_at row)"
    if "mq_workers s d = Some (WRunning t g lost)" for d t g lost now now2 outcome v
    using grant[OF that] unfolding ended active_at_iff grant_ok_def by auto
  then show ?thesis using only by (intro conjI allI impI) simp_all
qed

theorem resolved_only_under_active_lease_witness:
  "(demo_task, Resolved 7) \<in> set (mq_settled (endBody 3 3 [100] demo_task demo_grant False (Inr 7) demo_running)) \<and>
   mq_settled (endBody 99999 3 [100] demo_task demo_grant False (Inr 7) demo_running) \<noteq> mq_settled demo_running @ [(demo_task, Resolved 7)]"
proof -
  have w: "mq_workers demo_running [100] = Some (WRunning demo_task demo_grant False)" by (simp add: demo_running_def)
  note T = conjunct1[OF resolved_only_under_active_lease[OF demo_reach_running], rule_format, OF w]
  have "mq_settled (endBody 3 3 [100] demo_task demo_grant False (Inr 7) demo_running) = mq_settled demo_running @ [(demo_task, Resolved 7)]"
    unfolding T by (simp add: demo_defs is_safe_integer_def MAX_SAFE_INTEGER_def lease_of_def)
  moreover have "\<not> mq_settled (endBody 99999 3 [100] demo_task demo_grant False (Inr 7) demo_running) = mq_settled demo_running @ [(demo_task, Resolved 7)]"
    unfolding T by (simp add: demo_defs is_safe_integer_def MAX_SAFE_INTEGER_def lease_of_def)
  ultimately show ?thesis by simp
qed

end
