(* ===== verification/Json.thy ===== *)
theory Json
  imports Cbor
begin

text \<open>
  \<open>packages/protocol/src/json.ts\<close>: which values may cross a serializable boundary. A JavaScript
  value may share objects and may be cyclic, so values live in a heap: the list of the objects,
  an object's address being its index. \<open>findJsonValueErrorInternal\<close> walks it with the set of
  the objects it is inside of; it terminates because that set grows within the heap. The
  specification is \<open>denotes\<close>: the finite JSON trees that values of the heap unfold to.
\<close>

datatype jsv =
    VNull
  | VBool bool
  | VNum jsnum
  | VStr jstring
  | VUndef
  | VOther
  | VRef nat

text \<open>
  An object: whether it is an array, whether its prototype is \<open>Object.prototype\<close> or \<open>null\<close>,
  whether it has symbol keys, the elements of an array (\<open>None\<close> for a hole), the enumerable keys
  of an array that are not indices, with their values, and the entries of an object.
\<close>

record jobj =
  jo_array :: bool
  jo_plain :: bool
  jo_symbols :: bool
  jo_elems :: "jsv option list"
  jo_extra :: "(jstring \<times> jsv) list"
  jo_entries :: "(jstring \<times> jsv) list"

type_synonym jheap = "jobj list"

datatype json_message =
    ExpectedFiniteNumber
  | UndefinedValue
  | UnsupportedValueType
  | CyclicReference
  | ExpectedPlain
  | SymbolKeys
  | SparseArray
  | NonIndexProperty
  | ExpectedJsonObject

text \<open>An issue keeps its path and message; the offending value itself is not modelled.\<close>

record json_issue =
  ji_path :: jstring
  ji_message :: json_message

section \<open>The check\<close>

fun nat_str :: "nat \<Rightarrow> jstring" where
  "nat_str n = (if n < 10 then [48 + n] else nat_str (n div 10) @ [48 + n mod 10])"

declare nat_str.simps [simp del]

definition index_path :: "jstring \<Rightarrow> nat \<Rightarrow> jstring" where
  "index_path path i = path @ [91] @ nat_str i @ [93]"

definition key_path :: "jstring \<Rightarrow> jstring \<Rightarrow> jstring" where
  "key_path path key = path @ [46] @ key"

definition isArrayIndexKey :: "jstring \<Rightarrow> nat \<Rightarrow> bool" where
  "isArrayIndexKey key len \<longleftrightarrow> key \<in> set (map nat_str [0..<len])"

text \<open>\<open>Object.keys\<close> of an array: the indices of its elements, then its other keys.\<close>

definition array_keys :: "jobj \<Rightarrow> jstring list" where
  "array_keys ob =
     map nat_str (filter (\<lambda>i. jo_elems ob ! i \<noteq> None) [0..<length (jo_elems ob)]) @ map fst (jo_extra ob)"

definition check_keys :: "jstring \<Rightarrow> jobj \<Rightarrow> json_issue option" where
  "check_keys path ob =
     (case find (\<lambda>key. \<not> isArrayIndexKey key (length (jo_elems ob))) (array_keys ob) of
        None \<Rightarrow> None
      | Some key \<Rightarrow> Some \<lparr>ji_path = key_path path key, ji_message = NonIndexProperty\<rparr>)"

definition isPlainObject :: "jheap \<Rightarrow> jsv \<Rightarrow> bool" where
  "isPlainObject H v = (case v of VRef a \<Rightarrow> a < length H \<and> jo_plain (H ! a) | _ \<Rightarrow> False)"

lemma ancestors_decrease:
  "(a :: nat) < n \<Longrightarrow> a \<notin> set ancestors \<Longrightarrow>
     card ({..<n} - set ancestors) - Suc 0 < card ({..<n} - set ancestors)"
proof -
  assume "a < n" "a \<notin> set ancestors"
  then have "0 < card ({..<n} - set ancestors)" by (subst card_gt_0_iff) auto
  then show ?thesis by (rule diff_Suc_less)
qed

text \<open>A reference outside the heap, which JavaScript does not have, is treated as a cycle.\<close>

function (sequential) findInternal :: "jheap \<Rightarrow> jsv \<Rightarrow> jstring \<Rightarrow> nat list \<Rightarrow> json_issue option"
and findElems :: "jheap \<Rightarrow> jsv option list \<Rightarrow> nat \<Rightarrow> jstring \<Rightarrow> nat list \<Rightarrow> json_issue option"
and findEntries :: "jheap \<Rightarrow> (jstring \<times> jsv) list \<Rightarrow> jstring \<Rightarrow> nat list \<Rightarrow> json_issue option"
where
  "findInternal H v path ancestors =
     (case v of
        VNull \<Rightarrow> None
      | VStr s \<Rightarrow> None
      | VBool b \<Rightarrow> None
      | VNum n \<Rightarrow>
          (case n of
             NInt i \<Rightarrow> None
           | NDbl w \<Rightarrow> if f64_finite w then None else Some \<lparr>ji_path = path, ji_message = ExpectedFiniteNumber\<rparr>)
      | VUndef \<Rightarrow> Some \<lparr>ji_path = path, ji_message = UndefinedValue\<rparr>
      | VOther \<Rightarrow> Some \<lparr>ji_path = path, ji_message = UnsupportedValueType\<rparr>
      | VRef a \<Rightarrow>
          (if a \<in> set ancestors \<or> \<not> a < length H then Some \<lparr>ji_path = path, ji_message = CyclicReference\<rparr>
           else let ob = H ! a in
             if \<not> jo_array ob \<and> \<not> isPlainObject H v then Some \<lparr>ji_path = path, ji_message = ExpectedPlain\<rparr>
             else if jo_symbols ob then Some \<lparr>ji_path = path, ji_message = SymbolKeys\<rparr>
             else if jo_array ob then
               (case findElems H (jo_elems ob) 0 path (a # ancestors) of
                  Some issue \<Rightarrow> Some issue
                | None \<Rightarrow> check_keys path ob)
             else findEntries H (jo_entries ob) path (a # ancestors)))"
| "findElems H [] i path ancestors = None"
| "findElems H (None # xs) i path ancestors = Some \<lparr>ji_path = index_path path i, ji_message = SparseArray\<rparr>"
| "findElems H (Some v # xs) i path ancestors =
     (case findInternal H v (index_path path i) ancestors of
        Some issue \<Rightarrow> Some issue
      | None \<Rightarrow> findElems H xs (Suc i) path ancestors)"
| "findEntries H [] path ancestors = None"
| "findEntries H ((key, v) # xs) path ancestors =
     (case findInternal H v (key_path path key) ancestors of
        Some issue \<Rightarrow> Some issue
      | None \<Rightarrow> findEntries H xs path ancestors)"
  by pat_completeness auto

termination
  by (relation "measures
      [\<lambda>x. case x of Inl (H, _, _, anc) \<Rightarrow> card ({..<length H} - set anc)
                 | Inr (Inl (H, _, _, _, anc)) \<Rightarrow> card ({..<length H} - set anc)
                 | Inr (Inr (H, _, _, anc)) \<Rightarrow> card ({..<length H} - set anc),
       \<lambda>x. case x of Inl _ \<Rightarrow> 0 | Inr _ \<Rightarrow> 1,
       \<lambda>x. case x of Inl _ \<Rightarrow> 0 | Inr (Inl (_, xs, _)) \<Rightarrow> length xs | Inr (Inr (_, xs, _)) \<Rightarrow> length xs]")
    (auto simp: ancestors_decrease)

declare findInternal.simps [simp del]

definition findJsonValueError :: "jheap \<Rightarrow> jsv \<Rightarrow> jstring \<Rightarrow> json_issue option" where
  "findJsonValueError H v path = findInternal H v path []"

definition findJsonObjectError :: "jheap \<Rightarrow> jsv \<Rightarrow> jstring \<Rightarrow> json_issue option" where
  "findJsonObjectError H v path =
     (if \<not> isPlainObject H v then Some \<lparr>ji_path = path, ji_message = ExpectedJsonObject\<rparr>
      else findJsonValueError H v path)"

definition isJsonValue :: "jheap \<Rightarrow> jsv \<Rightarrow> bool" where
  "isJsonValue H v \<longleftrightarrow> findJsonValueError H v [36] = None"

definition isJsonObject :: "jheap \<Rightarrow> jsv \<Rightarrow> bool" where
  "isJsonObject H v \<longleftrightarrow> findJsonObjectError H v [36] = None"

definition assertJsonValue :: "jheap \<Rightarrow> jsv \<Rightarrow> (json_issue, unit) res" where
  "assertJsonValue H v = (case findJsonValueError H v [36] of Some issue \<Rightarrow> Throw issue | None \<Rightarrow> Ok ())"

definition assertJsonObject :: "jheap \<Rightarrow> jsv \<Rightarrow> (json_issue, unit) res" where
  "assertJsonObject H v = (case findJsonObjectError H v [36] of Some issue \<Rightarrow> Throw issue | None \<Rightarrow> Ok ())"

section \<open>The specification: finite JSON trees\<close>

datatype json =
    JNull
  | JBool bool
  | JNum jsnum
  | JStr jstring
  | JArr "json list"
  | JObj "(jstring \<times> json) list"

fun finite_num :: "jsnum \<Rightarrow> bool" where
  "finite_num (NInt i) = True"
| "finite_num (NDbl w) = f64_finite w"

inductive denotes :: "jheap \<Rightarrow> jsv \<Rightarrow> json \<Rightarrow> bool" for H where
  Null: "denotes H VNull JNull"
| Bool: "denotes H (VBool b) (JBool b)"
| Num: "finite_num n \<Longrightarrow> denotes H (VNum n) (JNum n)"
| Str: "denotes H (VStr s) (JStr s)"
| Arr: "a < length H \<Longrightarrow> jo_array (H ! a) \<Longrightarrow> \<not> jo_symbols (H ! a) \<Longrightarrow> jo_extra (H ! a) = [] \<Longrightarrow>
    list_all2 (\<lambda>x t. \<exists>v. x = Some v \<and> denotes H v t) (jo_elems (H ! a)) ts \<Longrightarrow> denotes H (VRef a) (JArr ts)"
| Obj: "a < length H \<Longrightarrow> \<not> jo_array (H ! a) \<Longrightarrow> jo_plain (H ! a) \<Longrightarrow> \<not> jo_symbols (H ! a) \<Longrightarrow>
    list_all2 (\<lambda>x y. fst y = fst x \<and> denotes H (snd x) (snd y)) (jo_entries (H ! a)) es \<Longrightarrow> denotes H (VRef a) (JObj es)"

inductive_cases denotesE: "denotes H v t"
inductive_simps denotes_simps:
  "denotes H VNull t" "denotes H (VBool b) t" "denotes H (VNum n) t" "denotes H (VStr s) t"
  "denotes H VUndef t" "denotes H VOther t" "denotes H (VRef a) t"

text \<open>A heap of JavaScript: a key of an array that is one of its indices is an element.\<close>

definition heap_ok :: "jheap \<Rightarrow> bool" where
  "heap_ok H \<longleftrightarrow> (\<forall>ob \<in> set H. \<forall>kv \<in> set (jo_extra ob). \<not> isArrayIndexKey (fst kv) (length (jo_elems ob)))"

lemma find_keys_None:
  "\<forall>x \<in> set xs. \<not> P x \<Longrightarrow> \<forall>y \<in> set ys. P (fst y) \<Longrightarrow> find P (xs @ map fst ys) = None \<longleftrightarrow> ys = []"
  by (cases ys) (auto simp: find_None_iff)

lemma check_keys_None:
  assumes "heap_ok H" "a < length H"
  shows "check_keys path (H ! a) = None \<longleftrightarrow> jo_extra (H ! a) = []"
proof -
  have "find (\<lambda>key. \<not> isArrayIndexKey key (length (jo_elems (H ! a)))) (array_keys (H ! a)) = None \<longleftrightarrow>
      jo_extra (H ! a) = []"
    unfolding array_keys_def using assms
    by (intro find_keys_None) (auto simp: heap_ok_def isArrayIndexKey_def)
  then show ?thesis
    by (cases "find (\<lambda>key. \<not> isArrayIndexKey key (length (jo_elems (H ! a)))) (array_keys (H ! a))")
      (simp_all add: check_keys_def)
qed

lemma find_sound:
  "findInternal H v path anc = None \<Longrightarrow> heap_ok H \<Longrightarrow> \<exists>t. denotes H v t"
  "findElems H xs i path anc = None \<Longrightarrow> heap_ok H \<Longrightarrow>
     \<exists>ts. list_all2 (\<lambda>x t. \<exists>v. x = Some v \<and> denotes H v t) xs ts"
  "findEntries H es path anc = None \<Longrightarrow> heap_ok H \<Longrightarrow>
     \<exists>ts. list_all2 (\<lambda>x y. fst y = fst x \<and> denotes H (snd x) (snd y)) es ts"
proof (induction H v path anc and H xs i path anc and H es path anc
    rule: findInternal_findElems_findEntries.induct)
  case (1 H v path anc)
  show ?case
  proof (cases v)
    case (VRef a)
    define ob where "ob = H ! a"
    have a: "a \<notin> set anc" "a < length H" "jo_array ob \<or> isPlainObject H v" "\<not> jo_symbols ob"
      using "1.prems"(1) VRef unfolding VRef findInternal.simps [of H "VRef a"] by (auto simp: ob_def Let_def split: if_splits)
    show ?thesis
    proof (cases "jo_array ob")
      case True
      then have "findElems H (jo_elems ob) 0 path (a # anc) = None" "check_keys path ob = None"
        using "1.prems"(1) VRef a
        unfolding VRef findInternal.simps [of H "VRef a"] by (auto simp: ob_def Let_def split: if_splits option.splits)
      then show ?thesis
        using "1.IH"(1) [OF VRef _ ob_def] a True "1.prems"(2) VRef
        by (auto simp: denotes_simps ob_def check_keys_None)
    next
      case False
      then have "findEntries H (jo_entries ob) path (a # anc) = None"
        using "1.prems"(1) VRef a
        unfolding VRef findInternal.simps [of H "VRef a"] by (auto simp: ob_def Let_def split: if_splits option.splits)
      then show ?thesis
        using "1.IH"(2) [OF VRef _ ob_def] a False "1.prems"(2) VRef
        by (auto simp: denotes_simps ob_def isPlainObject_def)
    qed
  next
    case (VNum n)
    then show ?thesis using "1.prems"(1)
      by (cases n) (auto simp: denotes_simps findInternal.simps [of H "VNum n"] findInternal.simps [of H "VNum (NDbl w)" for w] split: if_splits)
  qed (use "1.prems"(1) in \<open>auto simp: denotes_simps findInternal.simps [of H VUndef] findInternal.simps [of H VOther]\<close>)
next
  case (4 H v xs i path anc)
  then have "\<exists>t. denotes H v t"
      "\<exists>ts. list_all2 (\<lambda>x t. \<exists>v. x = Some v \<and> denotes H v t) xs ts"
    by (auto split: option.splits)
  then show ?case by (auto simp: list_all2_Cons1)
next
  case (6 H key v xs path anc)
  then have "\<exists>t. denotes H v t"
      "\<exists>ts. list_all2 (\<lambda>x y. fst y = fst x \<and> denotes H (snd x) (snd y)) xs ts"
    by (auto split: option.splits)
  then show ?case by (auto simp: list_all2_Cons1)
qed auto

lemma denotes_det: "denotes H v t \<Longrightarrow> denotes H v t' \<Longrightarrow> t' = t"
proof (induction arbitrary: t' rule: denotes.induct)
  case (Arr a ts)
  from Arr.prems Arr.hyps obtain us where us: "t' = JArr us"
    "list_all2 (\<lambda>x t. \<exists>v. x = Some v \<and> denotes H v t) (jo_elems (H ! a)) us"
    by (auto simp: denotes_simps)
  have "us = ts"
  proof (rule nth_equalityI)
    show len: "length us = length ts" using Arr.IH us(2) by (simp add: list_all2_conv_all_nth)
    show "us ! i = ts ! i" if i: "i < length us" for i
    proof -
      obtain v where "jo_elems (H ! a) ! i = Some v" "denotes H v (us ! i)"
        using us(2) i by (auto simp: list_all2_conv_all_nth)
      then show ?thesis using list_all2_nthD2 [OF Arr.IH, of i] i len by auto
    qed
  qed
  with us(1) show ?case by simp
next
  case (Obj a es)
  from Obj.prems Obj.hyps obtain us where us: "t' = JObj us"
    "list_all2 (\<lambda>x y. fst y = fst x \<and> denotes H (snd x) (snd y)) (jo_entries (H ! a)) us"
    by (auto simp: denotes_simps)
  have "us = es"
  proof (rule nth_equalityI)
    show len: "length us = length es" using Obj.IH us(2) by (simp add: list_all2_conv_all_nth)
    show "us ! i = es ! i" if i: "i < length us" for i
      using list_all2_nthD2 [OF Obj.IH, of i] list_all2_nthD2 [OF us(2), of i] i len
      by (auto simp: prod_eq_iff)
  qed
  with us(1) show ?case by simp
qed (auto simp: denotes_simps)

lemma findElems_None:
  "(\<And>x. x \<in> set xs \<Longrightarrow> \<exists>v. x = Some v \<and> (\<forall>p. findInternal H v p anc = None)) \<Longrightarrow>
     findElems H xs i path anc = None"
  by (induction xs arbitrary: i) fastforce+

lemma findEntries_None:
  "(\<And>kv p. kv \<in> set es \<Longrightarrow> findInternal H (snd kv) p anc = None) \<Longrightarrow> findEntries H es path anc = None"
  by (induction es) fastforce+

definition above :: "jheap \<Rightarrow> nat list \<Rightarrow> json \<Rightarrow> bool" where
  "above H anc t \<longleftrightarrow> (\<forall>a \<in> set anc. \<forall>t'. denotes H (VRef a) t' \<longrightarrow> size t < size t')"

lemma above_child: "above H anc t \<Longrightarrow> denotes H (VRef a) t \<Longrightarrow> size u < size t \<Longrightarrow> above H (a # anc) u"
  by (fastforce simp: above_def dest: denotes_det)

lemma above_not_in: "above H anc t \<Longrightarrow> denotes H (VRef a) t \<Longrightarrow> a \<notin> set anc"
  by (auto simp: above_def)

lemma size_elem: "u \<in> set ts \<Longrightarrow> size u < size (JArr ts)"
  by (induction ts) auto

lemma size_entry: "(k, u) \<in> set es \<Longrightarrow> size u < size (JObj es)"
  by (induction es) auto

lemma find_complete:
  "denotes H v t \<Longrightarrow> heap_ok H \<Longrightarrow> above H anc t \<Longrightarrow> findInternal H v path anc = None"
proof (induction arbitrary: path anc rule: denotes.induct)
  case (Num n)
  then show ?case by (cases n) (auto simp: findInternal.simps)
next
  case (Arr a ts)
  have d: "denotes H (VRef a) (JArr ts)"
    using Arr.hyps Arr.IH by (auto intro!: denotes.Arr elim: list_all2_mono)
  have "findElems H (jo_elems (H ! a)) 0 path (a # anc) = None"
  proof (rule findElems_None)
    fix x assume "x \<in> set (jo_elems (H ! a))"
    then obtain i where i: "i < length ts" "x = jo_elems (H ! a) ! i"
      using Arr.IH by (auto simp: in_set_conv_nth list_all2_conv_all_nth)
    then obtain v where v: "x = Some v" "denotes H v (ts ! i)"
      and ih: "\<And>path anc. heap_ok H \<Longrightarrow> above H anc (ts ! i) \<Longrightarrow> findInternal H v path anc = None"
      using Arr.IH by (auto simp: list_all2_conv_all_nth)
    have "above H (a # anc) (ts ! i)"
      using above_child [OF Arr.prems(2) d] size_elem i(1) by (simp del: json.size)
    then show "\<exists>v. x = Some v \<and> (\<forall>p. findInternal H v p (a # anc) = None)"
      using v(1) ih Arr.prems(1) by blast
  qed
  then show ?case
    using Arr.hyps above_not_in [OF Arr.prems(2) d] check_keys_None [OF Arr.prems(1) Arr.hyps(1)]
    by (simp add: findInternal.simps [of H "VRef a"] Let_def)
next
  case (Obj a es)
  have d: "denotes H (VRef a) (JObj es)"
    using Obj.hyps Obj.IH by (auto intro!: denotes.Obj elim: list_all2_mono)
  have "findEntries H (jo_entries (H ! a)) path (a # anc) = None"
  proof (rule findEntries_None)
    fix kv p assume "kv \<in> set (jo_entries (H ! a))"
    then obtain i where i: "i < length es" "kv = jo_entries (H ! a) ! i"
      using Obj.IH by (auto simp: in_set_conv_nth list_all2_conv_all_nth)
    have "(fst (es ! i), snd (es ! i)) \<in> set es" using i(1) by simp
    then have "above H (a # anc) (snd (es ! i))"
      using above_child [OF Obj.prems(2) d] size_entry by blast
    then show "findInternal H (snd kv) p (a # anc) = None"
      using i Obj.IH Obj.prems(1) by (auto simp: list_all2_conv_all_nth)
  qed
  then show ?case
    using Obj.hyps above_not_in [OF Obj.prems(2) d]
    by (simp add: findInternal.simps [of H "VRef a"] Let_def isPlainObject_def)
qed (simp_all add: findInternal.simps)

section \<open>Properties\<close>

text \<open>
  C10: on any heap, with any sharing and any cycles, the check ends, and it accepts a value
  exactly when the value unfolds to a finite JSON tree, which is then unique.
\<close>

theorem isJsonValue_iff:
  assumes "heap_ok H"
  shows "isJsonValue H v \<longleftrightarrow> (\<exists>!t. denotes H v t)"
proof -
  have "isJsonValue H v \<longleftrightarrow> (\<exists>t. denotes H v t)"
    using assms find_sound(1) [of H v] find_complete [of H v]
    by (auto simp: isJsonValue_def findJsonValueError_def above_def)
  then show ?thesis using denotes_det by blast
qed

text \<open>A shared object is accepted, a cycle through it is not.\<close>

theorem isJsonValue_iff_witness:
  "isJsonValue [\<lparr>jo_array = True, jo_plain = False, jo_symbols = False,
        jo_elems = [Some (VRef 1), Some (VRef 1)], jo_extra = [], jo_entries = []\<rparr>,
      \<lparr>jo_array = False, jo_plain = True, jo_symbols = False, jo_elems = [], jo_extra = [],
       jo_entries = [([97], VNull)]\<rparr>] (VRef 0) \<and>
   \<not> (\<exists>!t. denotes [\<lparr>jo_array = False, jo_plain = True, jo_symbols = False, jo_elems = [], jo_extra = [],
       jo_entries = [([97], VRef 0)]\<rparr>] (VRef 0) t)"
proof
  let ?H = "[\<lparr>jo_array = False, jo_plain = True, jo_symbols = False, jo_elems = [], jo_extra = [],
       jo_entries = [([97], VRef 0)]\<rparr>]"
  have "heap_ok ?H" by (simp add: heap_ok_def)
  moreover have "\<not> isJsonValue ?H (VRef 0)"
    by (simp add: isJsonValue_def findJsonValueError_def findInternal.simps isPlainObject_def)
  ultimately show "\<not> (\<exists>!t. denotes ?H (VRef 0) t)" using isJsonValue_iff [of ?H "VRef 0"] by blast
qed (simp add: isJsonValue_def findJsonValueError_def findInternal.simps isPlainObject_def check_keys_def
    array_keys_def isArrayIndexKey_def nat_str.simps upt_rec)

end
