(* ===== verification/EntryContract.thy ===== *)
theory EntryContract
  imports Json
begin

text \<open>
  \<open>packages/session-backends/src/entry-contract.ts\<close>: what every session backend checks before
  it writes (\<open>prepareEntryBatch\<close>), how it pages a journal (\<open>pageEntries\<close>) and how it forks one
  (\<open>forkEntries\<close>). A journal is the list of a session's entries. Sequence numbers, versions and
  limits are integers; a timestamp is \<open>None\<close> when it is not finite, a payload is \<open>None\<close> when
  \<open>assertJsonValue\<close> refuses it; \<open>structuredClone\<close> is the identity on these values.
\<close>

record session_entry =
  se_id :: jstring
  se_sessionId :: jstring
  se_seq :: int
  se_parentId :: "jstring option"
  se_laneId :: "jstring option"
  se_operationId :: "jstring option"
  se_type :: jstring
  se_timestamp :: "int option"
  se_payload :: "json option"
  se_hash :: "jstring option"
  se_version :: "int option"

datatype entry_error =
    BadStorageId
  | NotJsonSafe
  | SessionMismatch
  | DuplicateOrInvalidId
  | SequenceNotIncreasing
  | ParentMissing
  | InvalidTypeOrTimestamp
  | UnsupportedVersion
  | PageLimitRange
  | InvalidCursor
  | ForkTargetNotEmpty
  | InvalidForkHead

section \<open>Operations\<close>

definition bad_path_char :: "nat \<Rightarrow> bool" where
  "bad_path_char c \<longleftrightarrow> c \<in> {92, 47, 58, 42, 63, 34, 60, 62, 124} \<or> c \<le> 31"

definition validateStorageId :: "jstring \<Rightarrow> (entry_error, unit) res" where
  "validateStorageId i =
     (if js_trim i = [] \<or> (\<exists>c \<in> set i. bad_path_char c) \<or> i = [46] \<or> i = [46, 46]
      then Throw BadStorageId else Ok ())"

definition last_seq :: "session_entry list \<Rightarrow> int" where
  "last_seq es = (if es = [] then 0 else se_seq (last es))"

definition with_version :: "session_entry \<Rightarrow> session_entry" where
  "with_version e = e\<lparr>se_version := Some (case se_version e of None \<Rightarrow> 1 | Some v \<Rightarrow> v)\<rparr>"

fun prepare_loop :: "jstring \<Rightarrow> jstring set \<Rightarrow> int \<Rightarrow> session_entry list \<Rightarrow> session_entry list \<Rightarrow>
    (entry_error, session_entry list) res" where
  "prepare_loop sessionId ids lastSeq prepared [] = Ok prepared"
| "prepare_loop sessionId ids lastSeq prepared (entry # entries) =
     (if se_payload entry = None then Throw NotJsonSafe
      else if se_sessionId entry \<noteq> sessionId then Throw SessionMismatch
      else if js_trim (se_id entry) = [] \<or> se_id entry \<in> ids then Throw DuplicateOrInvalidId
      else if \<not> is_safe_integer (se_seq entry) \<or> se_seq entry \<le> lastSeq then Throw SequenceNotIncreasing
      else if (case se_parentId entry of None \<Rightarrow> False | Some p \<Rightarrow> p \<notin> ids) then Throw ParentMissing
      else if se_timestamp entry = None \<or> se_type entry = [] then Throw InvalidTypeOrTimestamp
      else if (case se_version entry of None \<Rightarrow> False | Some v \<Rightarrow> v \<noteq> 1) then Throw UnsupportedVersion
      else prepare_loop sessionId (insert (se_id entry) ids) (se_seq entry)
             (prepared @ [with_version entry]) entries)"

text \<open>The error is a \<open>SessionCommitError\<close> of certainty \<open>rejected\<close> around the one thrown inside.\<close>

definition prepareEntryBatch :: "jstring \<Rightarrow> session_entry list \<Rightarrow> session_entry list \<Rightarrow>
    (entry_error, session_entry list) res" where
  "prepareEntryBatch sessionId current entries =
     rbind (validateStorageId sessionId) (\<lambda>_.
       prepare_loop sessionId (set (map se_id current)) (last_seq current) [] entries)"

datatype direction = Forward | Backward

record page_cursor =
  pc_version :: int
  pc_sessionId :: jstring
  pc_direction :: direction
  pc_upperSeq :: int
  pc_lastSeq :: int
  pc_lastId :: jstring

record page_options =
  po_limit :: "int option"
  po_direction :: "direction option"
  po_cursor :: "page_cursor option"

record entry_page =
  ep_entries :: "session_entry list"
  ep_nextCursor :: "page_cursor option"

definition page_direction :: "page_options \<Rightarrow> direction" where
  "page_direction options =
     (case po_direction options of
        Some d \<Rightarrow> d
      | None \<Rightarrow> (case po_cursor options of Some c \<Rightarrow> pc_direction c | None \<Rightarrow> Forward))"

definition cursor_invalid :: "jstring \<Rightarrow> session_entry list \<Rightarrow> direction \<Rightarrow> page_cursor \<Rightarrow> bool" where
  "cursor_invalid sessionId entries direction c \<longleftrightarrow>
     pc_version c \<noteq> 1 \<or> pc_sessionId c \<noteq> sessionId \<or> pc_direction c \<noteq> direction \<or>
     \<not> is_safe_integer (pc_upperSeq c) \<or> pc_upperSeq c < pc_lastSeq c \<or>
     \<not> (\<exists>e \<in> set entries. se_seq e = pc_upperSeq c) \<or>
     \<not> (\<exists>e \<in> set entries. se_seq e = pc_lastSeq c \<and> se_id e = pc_lastId c)"

definition pageEntries :: "jstring \<Rightarrow> session_entry list \<Rightarrow> page_options \<Rightarrow> (entry_error, entry_page) res" where
  "pageEntries sessionId entries options =
     rbind (validateStorageId sessionId) (\<lambda>_.
       let limit = (case po_limit options of None \<Rightarrow> 100 | Some l \<Rightarrow> l)
       in if \<not> is_safe_integer limit \<or> limit < 1 \<or> limit > 1000 then Throw PageLimitRange
          else let cursor = po_cursor options;
                   direction = page_direction options;
                   upperSeq = (case cursor of Some c \<Rightarrow> pc_upperSeq c | None \<Rightarrow> last_seq entries)
            in if (case cursor of None \<Rightarrow> False | Some c \<Rightarrow> cursor_invalid sessionId entries direction c)
               then Throw InvalidCursor
               else let eligible = filter (\<lambda>e. se_seq e \<le> upperSeq \<and>
                          (case cursor of
                             None \<Rightarrow> True
                           | Some c \<Rightarrow> if direction = Forward then se_seq e > pc_lastSeq c
                                      else se_seq e < pc_lastSeq c)) entries;
                        ordered = (if direction = Backward then rev eligible else eligible);
                        page = take (nat limit) ordered
                    in Ok \<lparr>ep_entries = page,
                           ep_nextCursor =
                             (if int (length ordered) > limit \<and> page \<noteq> []
                              then Some \<lparr>pc_version = 1, pc_sessionId = sessionId, pc_direction = direction,
                                         pc_upperSeq = upperSeq, pc_lastSeq = se_seq (last page),
                                         pc_lastId = se_id (last page)\<rparr>
                              else None)\<rparr>)"

text \<open>The \<open>Map\<close> from ids to entries keeps the last entry of an id.\<close>

definition by_id :: "session_entry list \<Rightarrow> jstring \<Rightarrow> session_entry option" where
  "by_id entries = map_of (rev (map (\<lambda>e. (se_id e, e)) entries))"

lemma by_id_in: "by_id entries i = Some e \<Longrightarrow> i \<in> se_id ` set entries"
  by (auto simp: by_id_def dest!: map_of_SomeD)

text \<open>The walk from the head to the root; it ends because \<open>seen\<close> grows within the ids.\<close>

function fork_walk :: "session_entry list \<Rightarrow> jstring set \<Rightarrow> session_entry list \<Rightarrow> jstring option \<Rightarrow>
    (entry_error, session_entry list) res" where
  "fork_walk entries seen selected None = Ok selected"
| "fork_walk entries seen selected (Some i) =
     (case by_id entries i of
        None \<Rightarrow> Throw InvalidForkHead
      | Some entry \<Rightarrow>
          if i \<in> seen then Throw InvalidForkHead
          else fork_walk entries (insert i seen) (selected @ [entry]) (se_parentId entry))"
  by pat_completeness auto

termination
proof (relation "measure (\<lambda>(entries, seen, _, _). card (se_id ` set entries - seen))")
  fix entries :: "session_entry list" and seen i and entry :: session_entry
    and selected :: "session_entry list"
  assume "by_id entries i = Some entry" "i \<notin> seen"
  then have "i \<in> se_id ` set entries - seen" by (simp add: by_id_in)
  then have "card (se_id ` set entries - insert i seen) < card (se_id ` set entries - seen)"
    by (intro psubset_card_mono) auto
  then show "((entries, insert i seen, selected @ [entry], se_parentId entry), entries, seen, selected, Some i)
      \<in> measure (\<lambda>(entries, seen, _, _). card (se_id ` set entries - seen))" by simp
qed simp

text \<open>\<open>headId\<close> is \<open>None\<close> when it is \<open>undefined\<close>, \<open>Some None\<close> when it is \<open>null\<close>.\<close>

definition forkEntries :: "jstring \<Rightarrow> jstring \<Rightarrow> session_entry list \<Rightarrow> session_entry list \<Rightarrow>
    jstring option option \<Rightarrow> (entry_error, session_entry list) res" where
  "forkEntries source target entries targetEntries headId =
     rbind (validateStorageId source) (\<lambda>_.
     rbind (validateStorageId target) (\<lambda>_.
       if source = target \<or> targetEntries \<noteq> [] then Throw ForkTargetNotEmpty
       else rbind (case headId of
                     None \<Rightarrow> Ok entries
                   | Some head \<Rightarrow> rbind (fork_walk entries {} [] head) (\<lambda>selected. Ok (rev selected)))
              (\<lambda>selected. Ok (map (\<lambda>e. e\<lparr>se_sessionId := target\<rparr>) selected))))"

section \<open>What a journal satisfies\<close>

text \<open>
  \<open>journal_from sid ids n es\<close>: the entries \<open>es\<close> continue a journal of session \<open>sid\<close> that has
  the ids \<open>ids\<close> and ends with sequence number \<open>n\<close>.
\<close>

definition entry_ok :: "jstring \<Rightarrow> jstring set \<Rightarrow> int \<Rightarrow> session_entry \<Rightarrow> bool" where
  "entry_ok sid ids n e \<longleftrightarrow> se_payload e \<noteq> None \<and> se_sessionId e = sid \<and> js_trim (se_id e) \<noteq> [] \<and>
     se_id e \<notin> ids \<and> is_safe_integer (se_seq e) \<and> n < se_seq e \<and>
     (\<forall>p. se_parentId e = Some p \<longrightarrow> p \<in> ids) \<and> se_timestamp e \<noteq> None \<and> se_type e \<noteq> [] \<and>
     se_version e = Some 1"

fun journal_from :: "jstring \<Rightarrow> jstring set \<Rightarrow> int \<Rightarrow> session_entry list \<Rightarrow> bool" where
  "journal_from sid ids n [] = True"
| "journal_from sid ids n (e # es) =
     (entry_ok sid ids n e \<and> journal_from sid (insert (se_id e) ids) (se_seq e) es)"

definition journal_ok :: "jstring \<Rightarrow> session_entry list \<Rightarrow> bool" where
  "journal_ok sid es = journal_from sid {} 0 es"

lemma with_version_simps [simp]:
  "se_id (with_version e) = se_id e" "se_sessionId (with_version e) = se_sessionId e"
  "se_seq (with_version e) = se_seq e" "se_parentId (with_version e) = se_parentId e"
  "se_type (with_version e) = se_type e" "se_timestamp (with_version e) = se_timestamp e"
  "se_payload (with_version e) = se_payload e"
  "se_version (with_version e) = Some (case se_version e of None \<Rightarrow> 1 | Some v \<Rightarrow> v)"
  by (simp_all add: with_version_def)

lemma with_version_id: "se_version e = Some v \<Longrightarrow> with_version e = e"
  by (simp add: with_version_def)

lemma prepare_loop_iff:
  "prepare_loop sid ids n prepared es = Ok r \<longleftrightarrow>
     journal_from sid ids n (map with_version es) \<and> r = prepared @ map with_version es"
proof (induction es arbitrary: ids n prepared)
  case (Cons e es)
  have "entry_ok sid ids n (with_version e) \<longleftrightarrow>
      se_payload e \<noteq> None \<and> se_sessionId e = sid \<and> js_trim (se_id e) \<noteq> [] \<and> se_id e \<notin> ids \<and>
      is_safe_integer (se_seq e) \<and> n < se_seq e \<and> \<not> (case se_parentId e of None \<Rightarrow> False | Some p \<Rightarrow> p \<notin> ids) \<and>
      se_timestamp e \<noteq> None \<and> se_type e \<noteq> [] \<and> \<not> (case se_version e of None \<Rightarrow> False | Some v \<Rightarrow> v \<noteq> 1)"
    by (auto simp: entry_ok_def split: option.splits)
  then show ?case by (auto simp: Cons.IH)
qed auto

lemma journal_from_append:
  "journal_from sid ids n (xs @ ys) \<longleftrightarrow> journal_from sid ids n xs \<and>
     journal_from sid (ids \<union> se_id ` set xs) (if xs = [] then n else se_seq (last xs)) ys"
proof (induction xs arbitrary: ids n)
  case (Cons x xs)
  have "insert (se_id x) ids \<union> se_id ` set xs = ids \<union> se_id ` set (x # xs)" by auto
  then show ?case by (auto simp: Cons.IH)
qed simp

lemma journal_ok_append:
  "journal_ok sid (xs @ ys) \<longleftrightarrow> journal_ok sid xs \<and> journal_from sid (se_id ` set xs) (last_seq xs) ys"
  by (simp add: journal_ok_def journal_from_append last_seq_def)

lemma journal_from_sorted:
  "journal_from sid ids n es \<Longrightarrow> sorted_wrt (<) (map se_seq es) \<and> (\<forall>e \<in> set es. n < se_seq e)"
proof (induction es arbitrary: ids n)
  case (Cons e es)
  then show ?case by (fastforce simp: entry_ok_def)
qed simp

lemma journal_from_ids:
  "journal_from sid ids n es \<Longrightarrow> distinct (map se_id es) \<and> se_id ` set es \<inter> ids = {}"
proof (induction es arbitrary: ids n)
  case (Cons e es)
  then show ?case by (fastforce simp: entry_ok_def)
qed simp

lemma journal_ok_sorted: "journal_ok sid es \<Longrightarrow> sorted_wrt (<) (map se_seq es)"
  by (simp add: journal_ok_def journal_from_sorted)

lemma journal_ok_entry:
  "journal_ok sid (xs @ e # ys) \<Longrightarrow> entry_ok sid (se_id ` set xs) (last_seq xs) e"
  by (simp add: journal_ok_append)

lemma journal_ok_distinct: "journal_ok sid es \<Longrightarrow> distinct (map se_id es)"
  by (simp add: journal_ok_def journal_from_ids)

lemma journal_from_relabel:
  "journal_from sid ids n es \<Longrightarrow> journal_from sid' ids n (map (\<lambda>e. e\<lparr>se_sessionId := sid'\<rparr>) es)"
  by (induction es arbitrary: ids n) (auto simp: entry_ok_def)

lemma journal_from_version: "journal_from sid ids n es \<Longrightarrow> map with_version es = es"
  by (induction es arbitrary: ids n) (auto simp: entry_ok_def with_version_id)

lemma prepare_iff:
  assumes "journal_ok sid current"
  shows "prepareEntryBatch sid current es = Ok batch \<longleftrightarrow>
    validateStorageId sid = Ok () \<and> batch = map with_version es \<and> journal_ok sid (current @ batch)"
  using assms by (auto simp: prepareEntryBatch_def prepare_loop_iff journal_ok_append)

section \<open>Reading a journal page by page\<close>

text \<open>
  A client follows \<open>nextCursor\<close>; the journal it reads may have grown at each request. The second
  component tells whether the last page was reached.
\<close>

fun read_pages :: "jstring \<Rightarrow> session_entry list list \<Rightarrow> page_options \<Rightarrow>
    (entry_error, session_entry list \<times> bool) res" where
  "read_pages sid [] options = Ok ([], False)"
| "read_pages sid (J # Js) options =
     rbind (pageEntries sid J options) (\<lambda>page.
       case ep_nextCursor page of
         None \<Rightarrow> Ok (ep_entries page, True)
       | Some c \<Rightarrow> rbind (read_pages sid Js (options\<lparr>po_cursor := Some c\<rparr>)) (\<lambda>(es, done).
           Ok (ep_entries page @ es, done)))"

definition grows_from :: "session_entry list \<Rightarrow> session_entry list \<Rightarrow> bool" where
  "grows_from es J \<longleftrightarrow> sorted_wrt (<) (map se_seq J) \<and> (\<exists>zs. J = es @ zs)"

definition cursor_at :: "jstring \<Rightarrow> direction \<Rightarrow> session_entry list \<Rightarrow> session_entry \<Rightarrow> page_cursor" where
  "cursor_at sid d es e = \<lparr>pc_version = 1, pc_sessionId = sid, pc_direction = d, pc_upperSeq = last_seq es,
     pc_lastSeq = se_seq e, pc_lastId = se_id e\<rparr>"

lemma sorted_before: "sorted_wrt (<) (map f (xs @ ys)) \<Longrightarrow> x \<in> set xs \<Longrightarrow> y \<in> set ys \<Longrightarrow> (f x :: int) < f y"
  by (auto simp: sorted_wrt_append)

lemma sorted_le_last:
  "sorted_wrt (<) (map se_seq es) \<Longrightarrow> e \<in> set es \<Longrightarrow> se_seq e \<le> last_seq es"
proof -
  assume s: "sorted_wrt (<) (map se_seq es)" and e: "e \<in> set es"
  then have "es = butlast es @ [last es]" by (cases es rule: rev_cases) auto
  with s e show ?thesis
    by (cases es rule: rev_cases) (auto simp: last_seq_def sorted_wrt_append)
qed

lemma cursor_valid:
  assumes "grows_from es J" "e \<in> set es" "\<forall>x \<in> set es. is_safe_integer (se_seq x)"
  shows "\<not> cursor_invalid sid J d (cursor_at sid d es e)"
proof -
  obtain zs where J: "J = es @ zs" "sorted_wrt (<) (map se_seq J)" using assms(1) by (auto simp: grows_from_def)
  have s: "sorted_wrt (<) (map se_seq es)" using J by (simp add: sorted_wrt_append)
  have l: "last es \<in> set es" "last_seq es = se_seq (last es)"
    using assms(2) by (cases es rule: rev_cases; auto simp: last_seq_def)+
  have "\<exists>x \<in> set J. se_seq x = last_seq es" "\<exists>x \<in> set J. se_seq x = se_seq e \<and> se_id x = se_id e"
    using l assms(2) J by auto
  then show ?thesis
    using sorted_le_last [OF s assms(2)] l assms(3) by (auto simp: cursor_invalid_def cursor_at_def)
qed

text \<open>What is still to be read: after \<open>xs\<close> forwards, before \<open>ys\<close> backwards.\<close>

lemma eligible_forward:
  assumes "grows_from (xs @ ys) J" "xs \<noteq> []"
  shows "filter (\<lambda>e. se_seq e \<le> last_seq (xs @ ys) \<and> se_seq e > se_seq (last xs)) J = ys"
proof -
  obtain zs where J: "J = (xs @ ys) @ zs" "sorted_wrt (<) (map se_seq J)"
    using assms(1) by (auto simp: grows_from_def)
  have s: "sorted_wrt (<) (map se_seq (xs @ ys))" "sorted_wrt (<) (map se_seq xs)"
    using J by (auto simp: sorted_wrt_append)
  have "filter (\<lambda>e. se_seq e \<le> last_seq (xs @ ys) \<and> se_seq e > se_seq (last xs)) xs = []"
    using sorted_le_last [OF s(2)] assms(2) by (fastforce simp: filter_empty_conv last_seq_def)
  moreover have "filter (\<lambda>e. se_seq e \<le> last_seq (xs @ ys) \<and> se_seq e > se_seq (last xs)) ys = ys"
    using sorted_le_last [OF s(1)] sorted_before [OF s(1)] assms(2) by (intro filter_True) auto
  moreover have "filter (\<lambda>e. se_seq e \<le> last_seq (xs @ ys) \<and> se_seq e > se_seq (last xs)) zs = []"
  proof -
    have "last_seq (xs @ ys) = se_seq (last (xs @ ys))" "last (xs @ ys) \<in> set (xs @ ys)"
      using assms(2) last_in_set [of "xs @ ys"] by (auto simp: last_seq_def simp del: last_in_set)
    then have "last_seq (xs @ ys) < se_seq z" if "z \<in> set zs" for z
      using sorted_before [of se_seq "xs @ ys" zs "last (xs @ ys)" z] J that by simp
    then show ?thesis by (force simp: filter_empty_conv)
  qed
  ultimately show ?thesis by (simp add: J(1))
qed

lemma eligible_backward:
  assumes "grows_from (xs @ y # ys) J"
  shows "filter (\<lambda>e. se_seq e \<le> last_seq (xs @ y # ys) \<and> se_seq e < se_seq y) J = xs"
proof -
  obtain zs where J: "J = xs @ (y # ys @ zs)" "sorted_wrt (<) (map se_seq J)"
    using assms(1) by (auto simp: grows_from_def)
  have s: "sorted_wrt (<) (map se_seq (xs @ y # ys))" using J by (simp add: sorted_wrt_append)
  have "filter (\<lambda>e. se_seq e \<le> last_seq (xs @ y # ys) \<and> se_seq e < se_seq y) xs = xs"
    using sorted_le_last [OF s] sorted_before [OF s] by (intro filter_True) auto
  moreover have "filter (\<lambda>e. se_seq e \<le> last_seq (xs @ y # ys) \<and> se_seq e < se_seq y) (y # ys @ zs) = []"
  proof -
    have "sorted_wrt (<) (map se_seq (y # ys @ zs))" using J by (simp add: sorted_wrt_append)
    then have "\<forall>e \<in> set (ys @ zs). se_seq y < se_seq e" by auto
    then have "\<not> se_seq e < se_seq y" if "e \<in> set (y # ys @ zs)" for e
      using that by (cases "e = y") (auto simp: not_less dest: less_imp_le)
    then show ?thesis by (metis (no_types, lifting) filter_False)
  qed
  ultimately show ?thesis by (simp add: J(1))
qed

lemma eligible_first:
  assumes "grows_from es es"
  shows "filter (\<lambda>e. se_seq e \<le> last_seq es) es = es"
  using assms sorted_le_last by (intro filter_True) (auto simp: grows_from_def)

definition in_order :: "direction \<Rightarrow> 'a list \<Rightarrow> 'a list" where
  "in_order d es = (if d = Backward then rev es else es)"

definition beyond :: "direction \<Rightarrow> int \<Rightarrow> session_entry \<Rightarrow> bool" where
  "beyond d n e = (if d = Forward then se_seq e > n else se_seq e < n)"

lemma eligible_rest:
  assumes "grows_from es J" "in_order d es = read @ R" "read \<noteq> []"
  shows "in_order d (filter (\<lambda>e. se_seq e \<le> last_seq es \<and> beyond d (se_seq (last read)) e) J) = R"
proof (cases d)
  case Forward
  then show ?thesis using eligible_forward [of read R J] assms by (simp add: in_order_def beyond_def)
next
  case Backward
  obtain read' y where y: "read = read' @ [y]" using assms(3) by (cases read rule: rev_cases) auto
  have "rev (rev es) = rev (read @ R)" using Backward assms(2) by (simp add: in_order_def)
  then have "es = rev R @ y # rev read'" using y by simp
  then show ?thesis
    using eligible_backward [of "rev R" y "rev read'" J] assms(1) Backward y
    by (simp add: in_order_def beyond_def)
qed

definition limit_of :: "page_options \<Rightarrow> nat" where
  "limit_of options = nat (case po_limit options of None \<Rightarrow> 100 | Some l \<Rightarrow> l)"

definition limit_valid :: "page_options \<Rightarrow> bool" where
  "limit_valid options \<longleftrightarrow> (\<forall>l. po_limit options = Some l \<longrightarrow> 1 \<le> l \<and> l \<le> 1000)"

lemma page_step:
  assumes "validateStorageId sid = Ok ()" "limit_valid options"
    and "po_cursor options = None \<Longrightarrow> U = last_seq J \<and>
          in_order (page_direction options) (filter (\<lambda>e. se_seq e \<le> last_seq J) J) = R"
    and "\<And>c. po_cursor options = Some c \<Longrightarrow> U = pc_upperSeq c \<and>
          \<not> cursor_invalid sid J (page_direction options) c \<and>
          in_order (page_direction options) (filter (\<lambda>e. se_seq e \<le> U \<and> beyond (page_direction options) (pc_lastSeq c) e) J) = R"
  shows "pageEntries sid J options = Ok \<lparr>ep_entries = take (limit_of options) R,
    ep_nextCursor = (if limit_of options < length R
       then Some \<lparr>pc_version = 1, pc_sessionId = sid, pc_direction = page_direction options, pc_upperSeq = U,
         pc_lastSeq = se_seq (last (take (limit_of options) R)), pc_lastId = se_id (last (take (limit_of options) R))\<rparr>
       else None)\<rparr>"
proof -
  define l where "l = (case po_limit options of None \<Rightarrow> 100 | Some l \<Rightarrow> l)"
  have l: "is_safe_integer l" "\<not> l < 1" "\<not> l > 1000" "limit_of options = nat l" "int (nat l) = l"
    using assms(2) by (auto simp: l_def limit_valid_def limit_of_def is_safe_integer_def MAX_SAFE_INTEGER_def
        split: option.splits)
  have nonempty: "l < int (length R) \<and> take (nat l) R \<noteq> [] \<longleftrightarrow> nat l < length R"
    using l by auto
  show ?thesis
  proof (cases "po_cursor options")
    case None
    with assms(3) have "in_order (page_direction options) (filter (\<lambda>e. se_seq e \<le> last_seq J) J) = R" "U = last_seq J"
      by simp_all
    then show ?thesis
      using assms(1) None l(1-3) nonempty unfolding l(4)
      by (simp add: pageEntries_def l_def [symmetric] in_order_def Let_def)
  next
    case (Some c)
    have c: "U = pc_upperSeq c" "\<not> cursor_invalid sid J (page_direction options) c"
      using assms(4) [OF Some] by blast+
    have "in_order (page_direction options) (filter (\<lambda>e. se_seq e \<le> pc_upperSeq c \<and>
        beyond (page_direction options) (pc_lastSeq c) e) J) = R"
      using assms(4) [OF Some] unfolding c(1) by blast
    then show ?thesis
      using assms(1) Some l(1-3) nonempty c(2) unfolding l(4) c(1)
      by (cases "page_direction options") (simp_all add: pageEntries_def l_def [symmetric] in_order_def beyond_def Let_def
          del: length_rev rev_is_Nil_conv)
  qed
qed

lemma cursor_at_simps [simp]:
  "pc_upperSeq (cursor_at sid d es e) = last_seq es" "pc_lastSeq (cursor_at sid d es e) = se_seq e"
  "pc_direction (cursor_at sid d es e) = d"
  by (simp_all add: cursor_at_def)

lemma with_cursor:
  assumes "limit_valid options" "po_direction options = None \<or> po_direction options = Some d"
  shows "limit_of (options\<lparr>po_cursor := Some (cursor_at sid d es e)\<rparr>) = limit_of options"
    and "limit_valid (options\<lparr>po_cursor := Some (cursor_at sid d es e)\<rparr>)"
    and "page_direction (options\<lparr>po_cursor := Some (cursor_at sid d es e)\<rparr>) = d"
  using assms by (auto simp: limit_of_def limit_valid_def page_direction_def)

lemma limit_pos: "limit_valid options \<Longrightarrow> 1 \<le> limit_of options"
  by (auto simp: limit_of_def limit_valid_def split: option.splits)

lemma page_rest:
  assumes g: "grows_from es J" and R: "in_order d es = read @ R" "read \<noteq> []"
    and v: "validateStorageId sid = Ok ()" "limit_valid options" "\<forall>x \<in> set es. is_safe_integer (se_seq x)"
    and d: "po_direction options = None \<or> po_direction options = Some d"
  shows "pageEntries sid J (options\<lparr>po_cursor := Some (cursor_at sid d es (last read))\<rparr>) =
    Ok \<lparr>ep_entries = take (limit_of options) R,
        ep_nextCursor = (if limit_of options < length R
          then Some (cursor_at sid d es (last (take (limit_of options) R))) else None)\<rparr>"
proof -
  have "last read \<in> set (in_order d es)" using R by simp
  then have last: "last read \<in> set es" by (simp add: in_order_def split: if_splits)
  let ?c = "cursor_at sid d es (last read)"
  have e: "in_order d (filter (\<lambda>e. se_seq e \<le> last_seq es \<and> beyond d (se_seq (last read)) e) J) = R"
    by (rule eligible_rest [OF g R])
  define opts where "opts = options\<lparr>po_cursor := Some ?c\<rparr>"
  note w = with_cursor [OF v(2) d, of sid es "last read", folded opts_def]
  have c: "po_cursor opts = Some ?c" by (simp add: opts_def)
  have valid: "\<not> cursor_invalid sid J d ?c"
    by (rule cursor_valid [OF g last v(3)])
  have "pageEntries sid J opts = Ok \<lparr>ep_entries = take (limit_of opts) R,
    ep_nextCursor = (if limit_of opts < length R
       then Some \<lparr>pc_version = 1, pc_sessionId = sid, pc_direction = page_direction opts, pc_upperSeq = last_seq es,
         pc_lastSeq = se_seq (last (take (limit_of opts) R)), pc_lastId = se_id (last (take (limit_of opts) R))\<rparr>
       else None)\<rparr>"
  proof (rule page_step [OF v(1) w(2)])
    show "last_seq es = pc_upperSeq x \<and> \<not> cursor_invalid sid J (page_direction opts) x \<and>
        in_order (page_direction opts) (filter (\<lambda>e. se_seq e \<le> last_seq es \<and>
          beyond (page_direction opts) (pc_lastSeq x) e) J) = R" if "po_cursor opts = Some x" for x
    proof -
      have x: "x = ?c" using that c by simp
      show ?thesis unfolding x w(3) using valid e by simp
    qed
  qed (simp add: c)
  then show ?thesis
    unfolding w(1,3) opts_def [symmetric] unfolding cursor_at_def [of sid d es "last (take (limit_of options) R)"] .
qed

lemma read_pages_rest:
  assumes "\<forall>J \<in> set Js. grows_from es J" "in_order d es = read @ R" "read \<noteq> []" "R \<noteq> []"
    and "validateStorageId sid = Ok ()" "limit_valid options" "\<forall>x \<in> set es. is_safe_integer (se_seq x)"
    and "po_direction options = None \<or> po_direction options = Some d"
    and "length R \<le> limit_of options * length Js"
  shows "read_pages sid Js (options\<lparr>po_cursor := Some (cursor_at sid d es (last read))\<rparr>) = Ok (R, True)"
  using assms
proof (induction Js arbitrary: read R)
  case Nil
  then show ?case by simp
next
  case (Cons J Js)
  let ?o = "options\<lparr>po_cursor := Some (cursor_at sid d es (last read))\<rparr>"
  let ?l = "limit_of options"
  note l = limit_pos [OF Cons.prems(6)]
  have g: "grows_from es J" using Cons.prems(1) by simp
  note page = page_rest [OF g Cons.prems(2,3,5-8)]
  show ?case
  proof (cases "?l < length R")
    case False
    then show ?thesis using page by simp
  next
    case True
    have "read_pages sid Js (options\<lparr>po_cursor := Some (cursor_at sid d es (last (read @ take ?l R)))\<rparr>) =
        Ok (drop ?l R, True)"
    proof (rule Cons.IH [of "read @ take ?l R" "drop ?l R"])
      show "in_order d es = (read @ take ?l R) @ drop ?l R" using Cons.prems(2) by simp
      show "length (drop ?l R) \<le> ?l * length Js" using Cons.prems(9) by simp
      show "drop ?l R \<noteq> []" using True by simp
      show "\<forall>J \<in> set Js. grows_from es J" using Cons.prems(1) by simp
    qed (use Cons.prems(3,5-8) in simp_all)
    moreover have "last (read @ take ?l R) = last (take ?l R)" using l True by (auto simp: last_append take_eq_Nil_conv)
    ultimately show ?thesis using page True by simp
  qed
qed

lemma read_pages_all:
  assumes "grows_from es es" "\<forall>J \<in> set Js. grows_from es J" "validateStorageId sid = Ok ()" "limit_valid options"
    and "\<forall>x \<in> set es. is_safe_integer (se_seq x)" "po_cursor options = None"
    and "length es \<le> limit_of options * Suc (length Js)"
  shows "read_pages sid (es # Js) options = Ok (in_order (page_direction options) es, True)"
proof -
  let ?d = "page_direction options" and ?l = "limit_of options"
  let ?R = "in_order ?d es"
  have l: "?l \<ge> 1" using assms(4) by (auto simp: limit_of_def limit_valid_def split: option.splits)
  have len: "length ?R = length es" by (simp add: in_order_def)
  have page: "pageEntries sid es options = Ok \<lparr>ep_entries = take ?l ?R,
      ep_nextCursor = (if ?l < length ?R then Some (cursor_at sid ?d es (last (take ?l ?R))) else None)\<rparr>"
    using page_step [of sid options "last_seq es" es ?R, OF assms(3,4)] assms(6) eligible_first [OF assms(1)] by (simp add: cursor_at_def)
  show ?thesis
  proof (cases "?l < length ?R")
    case False
    then show ?thesis using page by simp
  next
    case True
    have "read_pages sid Js (options\<lparr>po_cursor := Some (cursor_at sid ?d es (last (take ?l ?R)))\<rparr>) =
        Ok (drop ?l ?R, True)"
    proof (rule read_pages_rest)
      show "?R = take ?l ?R @ drop ?l ?R" by simp
      show "take ?l ?R \<noteq> []" using l True by (auto simp: take_eq_Nil_conv)
      show "po_direction options = None \<or> po_direction options = Some ?d"
        using assms(6) by (auto simp: page_direction_def split: option.splits)
      show "length (drop ?l ?R) \<le> ?l * length Js" using assms(7) len by simp
    qed (use assms True in auto)
    then show ?thesis using page True by simp
  qed
qed

section \<open>Forking\<close>

lemma by_id_unique: "distinct (map se_id es) \<Longrightarrow> e \<in> set es \<Longrightarrow> by_id es (se_id e) = Some e"
  by (simp add: by_id_def rev_map map_of_eq_Some_iff comp_def distinct_rev flip: rev_map)

abbreviation relabel :: "jstring \<Rightarrow> session_entry \<Rightarrow> session_entry" where
  "relabel sid e \<equiv> e\<lparr>se_sessionId := sid\<rparr>"

text \<open>The walk from an entry visits ancestors that form a journal, read backwards.\<close>

lemma fork_walk_path:
  assumes "journal_ok sid (xs @ e # ys)" "seen \<inter> se_id ` set (xs @ [e]) = {}"
  shows "\<exists>p. fork_walk (xs @ e # ys) seen sel (Some (se_id e)) = Ok (sel @ e # p) \<and>
    set p \<subseteq> set xs \<and> journal_ok sid (rev (e # p)) \<and> (p = [] \<longleftrightarrow> se_parentId e = None)"
  using assms
proof (induction "length xs" arbitrary: xs e ys seen sel rule: less_induct)
  case less
  let ?J = "xs @ e # ys"
  have lookup: "by_id ?J (se_id e) = Some e"
    using journal_ok_distinct [OF less.prems(1)] by (intro by_id_unique) auto
  have ok: "entry_ok sid (se_id ` set xs) (last_seq xs) e" using journal_ok_entry [OF less.prems(1)] .
  have jx: "journal_ok sid xs" using less.prems(1) by (simp add: journal_ok_append)
  have step: "fork_walk ?J seen sel (Some (se_id e)) =
      fork_walk ?J (insert (se_id e) seen) (sel @ [e]) (se_parentId e)"
    using lookup less.prems(2) by (simp del: fork_walk.simps(1))
  show ?case
  proof (cases "se_parentId e")
    case None
    have "0 < se_seq e"
      using less.prems(1) journal_from_sorted [of sid "{}" 0 ?J] by (auto simp: journal_ok_def)
    then have "journal_ok sid [e]" using ok None by (auto simp: journal_ok_def entry_ok_def)
    with step None show ?thesis by auto
  next
    case (Some q)
    then have "q \<in> se_id ` set xs" using ok by (simp add: entry_ok_def)
    then obtain xs1 e' xs2 where xs: "xs = xs1 @ e' # xs2" "se_id e' = q"
      by (metis imageE split_list)
    have J: "?J = xs1 @ e' # (xs2 @ e # ys)" by (simp add: xs)
    have "se_id e \<notin> se_id ` set (xs1 @ [e'])" using ok xs(1) by (auto simp: entry_ok_def)
    then have "insert (se_id e) seen \<inter> se_id ` set (xs1 @ [e']) = {}"
      using less.prems(2) xs(1) by auto
    moreover have "length xs1 < length xs" by (simp add: xs(1))
    ultimately obtain p where p: "fork_walk ?J (insert (se_id e) seen) (sel @ [e]) (Some q) = Ok ((sel @ [e]) @ e' # p)"
      "set p \<subseteq> set xs1" "journal_ok sid (rev (e' # p))"
      using less.hyps [of xs1 e' "xs2 @ e # ys" "insert (se_id e) seen" "sel @ [e]"] less.prems(1) xs(2)
      unfolding J by blast
    have "last_seq (rev (e' # p)) \<le> last_seq xs"
      using sorted_le_last [OF journal_ok_sorted [OF jx], of e'] xs(1) by (simp add: last_seq_def)
    then have "entry_ok sid (se_id ` set (rev (e' # p))) (last_seq (rev (e' # p))) e"
      using ok p(2) xs Some by (auto simp: entry_ok_def)
    then have "journal_ok sid (rev (e # e' # p))"
      using p(3) journal_ok_append [of sid "rev (e' # p)" "[e]"] by simp
    moreover have "set (e' # p) \<subseteq> set xs" using p(2) xs(1) by auto
    ultimately show ?thesis using step Some p(1) by (intro exI [of _ "e' # p"]) simp
  qed
qed

text \<open>The entry \<open>e\<close> of the head and every parent of the selection are in it, and nothing else.\<close>

lemma fork_ok:
  assumes j: "journal_ok source es" and v: "validateStorageId source = Ok ()" "validateStorageId target = Ok ()"
    and ne: "source \<noteq> target" and head: "\<forall>h. headId = Some (Some h) \<longrightarrow> h \<in> se_id ` set es"
  shows "\<exists>sel. forkEntries source target es [] headId = Ok (map (relabel target) sel) \<and> set sel \<subseteq> set es \<and>
    journal_ok source sel \<and> (headId = None \<longrightarrow> sel = es) \<and> (headId = Some None \<longrightarrow> sel = []) \<and>
    (\<forall>h. headId = Some (Some h) \<longrightarrow> sel \<noteq> [] \<and> se_id (last sel) = h)"
proof -
  consider "headId = None" | "headId = Some None" | h where "headId = Some (Some h)"
    by (metis option.exhaust)
  then show ?thesis
  proof cases
    case 1
    then show ?thesis using v ne j by (simp add: forkEntries_def)
  next
    case 2
    then show ?thesis using v ne by (simp add: forkEntries_def journal_ok_def)
  next
    case (3 h)
    with head obtain xs e ys where es: "es = xs @ e # ys" "se_id e = h" by (metis imageE split_list)
    obtain p where p: "fork_walk es {} [] (Some h) = Ok (e # p)" "set p \<subseteq> set xs" "journal_ok source (rev (e # p))"
      using fork_walk_path [of source xs e ys "{}" "[]"] j es by auto
    then show ?thesis
      using v ne 3 es by (intro exI [of _ "rev (e # p)"]) (auto simp: forkEntries_def)
  qed
qed

lemma journal_relabel: "journal_ok sid es \<Longrightarrow> journal_ok sid' (map (relabel sid') es)"
  using journal_from_relabel by (simp add: journal_ok_def)

section \<open>Properties\<close>

text \<open>A small journal for the witnesses.\<close>

definition demo_entry :: "nat \<Rightarrow> int \<Rightarrow> jstring option \<Rightarrow> session_entry" where
  "demo_entry i n p = \<lparr>se_id = [i], se_sessionId = [115], se_seq = n, se_parentId = p, se_laneId = None,
     se_operationId = None, se_type = [116], se_timestamp = Some 5, se_payload = Some JNull, se_hash = None,
     se_version = Some 1\<rparr>"

definition demo_journal :: "session_entry list" where
  "demo_journal = [demo_entry 97 1 None, demo_entry 98 4 (Some [97]), demo_entry 99 7 (Some [97])]"

lemma demo_journal_ok: "journal_ok [115] demo_journal"
  by (simp add: journal_ok_def demo_journal_def entry_ok_def demo_entry_def js_trim_def js_space_def
      is_safe_integer_def MAX_SAFE_INTEGER_def)

lemma demo_ids: "validateStorageId [115] = Ok ()" "validateStorageId [116] = Ok ()"
  by (simp_all add: validateStorageId_def js_trim_def js_space_def bad_path_char_def)

text \<open>
  C15: on a well-formed journal, \<open>prepareEntryBatch\<close> accepts a batch exactly when the session id is
  valid and the journal with the batch appended (versions filled in) is well-formed again:
  unique ids, sequence numbers positive and strictly increasing, every parent before its child.
  So every journal built by accepted batches is well-formed.
\<close>

theorem prepareEntryBatch_iff:
  assumes "journal_ok sid current"
  shows "prepareEntryBatch sid current es = Ok batch \<longleftrightarrow>
    validateStorageId sid = Ok () \<and> batch = map with_version es \<and> journal_ok sid (current @ batch)"
  using assms by (rule prepare_iff)

theorem prepareEntryBatch_iff_witness:
  "prepareEntryBatch [115] [demo_entry 97 1 None] [demo_entry 98 4 (Some [97])] = Ok [demo_entry 98 4 (Some [97])]"
proof -
  have "journal_ok [115] [demo_entry 97 1 None]" "journal_ok [115] ([demo_entry 97 1 None] @ [demo_entry 98 4 (Some [97])])"
    by (simp_all add: journal_ok_def entry_ok_def demo_entry_def js_trim_def js_space_def is_safe_integer_def
        MAX_SAFE_INTEGER_def)
  then show ?thesis
    by (subst prepareEntryBatch_iff) (simp_all add: demo_ids with_version_def demo_entry_def)
qed

text \<open>
  C7: paging is complete and consistent. Following the cursors from the first page, forwards or
  backwards, with any valid limit, while the journal keeps growing between the requests, gives
  each entry of the journal as it was at the first request exactly once and in order, and the
  last page has no cursor.
\<close>

theorem paging_complete:
  assumes "journal_ok sid es" and "\<forall>J \<in> set Js. \<exists>zs. J = es @ zs \<and> journal_ok sid J"
    and "validateStorageId sid = Ok ()" and "limit_valid options" and "po_cursor options = None"
    and "length es \<le> limit_of options * Suc (length Js)"
  shows "read_pages sid (es # Js) options = Ok (in_order (page_direction options) es, True)"
proof (rule read_pages_all)
  show "grows_from es es" using assms(1) journal_ok_sorted by (auto simp: grows_from_def)
  show "\<forall>J \<in> set Js. grows_from es J" using assms(2) journal_ok_sorted by (auto simp: grows_from_def)
  show "\<forall>x \<in> set es. is_safe_integer (se_seq x)"
  proof
    fix x assume "x \<in> set es"
    then obtain xs ys where "es = xs @ x # ys" by (metis split_list)
    then show "is_safe_integer (se_seq x)" using journal_ok_entry [of sid xs x ys] assms(1) by (simp add: entry_ok_def)
  qed
qed (use assms in simp_all)

theorem paging_complete_witness:
  "read_pages [115] [take 2 demo_journal, demo_journal] \<lparr>po_limit = Some 1, po_direction = Some Backward, po_cursor = None\<rparr>
     = Ok (rev (take 2 demo_journal), True)"
proof -
  have "journal_ok [115] (take 2 demo_journal)"
    using demo_journal_ok journal_ok_append [of "[115]" "take 2 demo_journal" "drop 2 demo_journal"] by simp
  moreover have "\<exists>zs. demo_journal = take 2 demo_journal @ zs" by (metis append_take_drop_id)
  ultimately show ?thesis
    using paging_complete [of "[115]" "take 2 demo_journal" "[demo_journal]"
        "\<lparr>po_limit = Some 1, po_direction = Some Backward, po_cursor = None\<rparr>"] demo_journal_ok demo_ids
    by (simp add: limit_valid_def limit_of_def page_direction_def in_order_def demo_journal_def)
qed

text \<open>
  C19: forking a well-formed journal at any of its entries, or as a whole, always succeeds for two
  distinct valid session ids and an empty target; what it selects are entries of the source
  ending with the head, and the target accepts them unchanged as its first batch.
\<close>

theorem fork_is_accepted:
  assumes "journal_ok source es" and "validateStorageId source = Ok ()" and "validateStorageId target = Ok ()"
    and "source \<noteq> target" and "\<forall>h. headId = Some (Some h) \<longrightarrow> h \<in> se_id ` set es"
  shows "\<exists>sel. forkEntries source target es [] headId = Ok (map (relabel target) sel) \<and> set sel \<subseteq> set es \<and>
    (headId = None \<longrightarrow> sel = es) \<and> (\<forall>h. headId = Some (Some h) \<longrightarrow> sel \<noteq> [] \<and> se_id (last sel) = h) \<and>
    prepareEntryBatch target [] (map (relabel target) sel) = Ok (map (relabel target) sel)"
proof -
  obtain sel where sel: "forkEntries source target es [] headId = Ok (map (relabel target) sel)" "set sel \<subseteq> set es"
    "journal_ok source sel" "headId = None \<longrightarrow> sel = es"
    "\<forall>h. headId = Some (Some h) \<longrightarrow> sel \<noteq> [] \<and> se_id (last sel) = h"
    using fork_ok [OF assms] by blast
  have j: "journal_ok target (map (relabel target) sel)" using sel(3) by (rule journal_relabel)
  then have "map with_version (map (relabel target) sel) = map (relabel target) sel"
    unfolding journal_ok_def by (rule journal_from_version)
  then have "prepareEntryBatch target [] (map (relabel target) sel) = Ok (map (relabel target) sel)"
    using prepare_iff [of target "[]" "map (relabel target) sel"] j assms(3) by (simp add: journal_ok_def)
  with sel show ?thesis by blast
qed

theorem fork_is_accepted_witness:
  "forkEntries [115] [116] demo_journal [] (Some (Some [99])) =
     Ok (map (relabel [116]) [demo_entry 97 1 None, demo_entry 99 7 (Some [97])]) \<and>
   (\<exists>sel. forkEntries [115] [116] demo_journal [] (Some (Some [99])) = Ok (map (relabel [116]) sel) \<and>
     prepareEntryBatch [116] [] (map (relabel [116]) sel) = Ok (map (relabel [116]) sel))"
proof
  show "forkEntries [115] [116] demo_journal [] (Some (Some [99])) =
     Ok (map (relabel [116]) [demo_entry 97 1 None, demo_entry 99 7 (Some [97])])"
    by (simp add: forkEntries_def demo_ids demo_journal_def by_id_def demo_entry_def)
  show "\<exists>sel. forkEntries [115] [116] demo_journal [] (Some (Some [99])) = Ok (map (relabel [116]) sel) \<and>
     prepareEntryBatch [116] [] (map (relabel [116]) sel) = Ok (map (relabel [116]) sel)"
    using fork_is_accepted [OF demo_journal_ok demo_ids, of "Some (Some [99])"]
    by (auto simp: demo_journal_def demo_entry_def)
qed

end
