(* ===== verification/MemoryBackend.thy ===== *)
theory MemoryBackend
  imports EntryContract
begin

text \<open>
  \<open>packages/session-backends/src/memory.ts\<close>, the in-memory session backend, and the interface
  \<open>ISessionBackend\<close> (\<open>types.ts\<close>) as the locale \<open>session_backend\<close>: what a backend promises of its
  journals. The three \<open>Map\<close>s are association lists in insertion order. Each method runs to its
  end without suspending, so it is one function on the state. \<open>toLowerCase\<close> (a Unicode table) is
  a parameter of \<open>search\<close>.
\<close>

record document_snapshot =
  ds_documentId :: jstring
  ds_version :: int
  ds_contentJson :: jstring
  ds_contentMarkdown :: jstring
  ds_contentSize :: int
  ds_updatedAt :: int

record document_delta =
  dd_id :: "int option"
  dd_documentId :: jstring
  dd_stepJson :: jstring
  dd_clientTimestamp :: int
  dd_createdAt :: int

record search_result =
  sr_documentId :: jstring
  sr_title :: jstring
  sr_snippet :: jstring
  sr_orderIndex :: nat

datatype backend_error = BackendClosed | Contract entry_error

record memory_backend =
  mb_journals :: "(jstring \<times> session_entry list) list"
  mb_snapshots :: "(jstring \<times> document_snapshot) list"
  mb_deltas :: "(jstring \<times> document_delta list) list"
  mb_closed :: bool

section \<open>Operations\<close>

definition newMemoryBackend :: memory_backend where
  "newMemoryBackend = \<lparr>mb_journals = [], mb_snapshots = [], mb_deltas = [], mb_closed = False\<rparr>"

definition assertOpen :: "memory_backend \<Rightarrow> (backend_error, unit) res" where
  "assertOpen s = (if mb_closed s then Throw BackendClosed else Ok ())"

definition mb_initialize :: "memory_backend \<Rightarrow> (backend_error, unit) res" where
  "mb_initialize s = assertOpen s"

definition mb_close :: "memory_backend \<Rightarrow> memory_backend" where
  "mb_close s = (if mb_closed s then s
     else s\<lparr>mb_closed := True, mb_journals := [], mb_snapshots := [], mb_deltas := []\<rparr>)"

definition contract :: "(entry_error, 'a) res \<Rightarrow> (backend_error, 'a) res" where
  "contract r = (case r of Inl e \<Rightarrow> Inl (Contract e) | Inr x \<Rightarrow> Inr x)"

definition lookup_or :: "'b \<Rightarrow> ('a \<times> 'b) list \<Rightarrow> 'a \<Rightarrow> 'b" where
  "lookup_or d m k = (case map_of m k of None \<Rightarrow> d | Some v \<Rightarrow> v)"

definition mb_journal :: "jstring \<Rightarrow> memory_backend \<Rightarrow> session_entry list" where
  "mb_journal sid s = lookup_or [] (mb_journals s) sid"

definition mb_appendEntries :: "jstring \<Rightarrow> session_entry list \<Rightarrow> memory_backend \<Rightarrow>
    (backend_error, memory_backend) res" where
  "mb_appendEntries sid entries s =
     rbind (assertOpen s) (\<lambda>_.
       let current = mb_journal sid s
       in rbind (contract (prepareEntryBatch sid current entries)) (\<lambda>batch.
            Ok (s\<lparr>mb_journals := AList.update sid (current @ batch) (mb_journals s)\<rparr>)))"

definition mb_appendEntry :: "jstring \<Rightarrow> session_entry \<Rightarrow> memory_backend \<Rightarrow>
    (backend_error, memory_backend) res" where
  "mb_appendEntry sid entry s = rbind (assertOpen s) (\<lambda>_. mb_appendEntries sid [entry] s)"

definition mb_loadEntries :: "jstring \<Rightarrow> session_entry list \<Rightarrow> memory_backend \<Rightarrow>
    (backend_error, memory_backend) res" where
  "mb_loadEntries sid entries s = rbind (assertOpen s) (\<lambda>_. mb_appendEntries sid entries s)"

definition mb_getEntries :: "jstring \<Rightarrow> int option \<Rightarrow> memory_backend \<Rightarrow>
    (backend_error, session_entry list) res" where
  "mb_getEntries sid fromTimestamp s =
     rbind (assertOpen s) (\<lambda>_.
     rbind (contract (validateStorageId sid)) (\<lambda>_.
       let entries = mb_journal sid s
       in case fromTimestamp of
            None \<Rightarrow> Ok entries
          | Some t \<Rightarrow> Ok (filter (\<lambda>e. case se_timestamp e of None \<Rightarrow> False | Some u \<Rightarrow> u \<ge> t) entries)))"

definition mb_getEntryPage :: "jstring \<Rightarrow> page_options \<Rightarrow> memory_backend \<Rightarrow> (backend_error, entry_page) res" where
  "mb_getEntryPage sid options s =
     rbind (assertOpen s) (\<lambda>_. contract (pageEntries sid (mb_journal sid s) options))"

definition mb_forkSession :: "jstring \<Rightarrow> jstring \<Rightarrow> jstring option option \<Rightarrow> memory_backend \<Rightarrow>
    (backend_error, memory_backend) res" where
  "mb_forkSession source target headId s =
     rbind (assertOpen s) (\<lambda>_.
     rbind (contract (forkEntries source target (mb_journal source s) (mb_journal target s) headId)) (\<lambda>entries.
       mb_appendEntries target entries s))"

definition mb_saveSnapshot :: "document_snapshot \<Rightarrow> memory_backend \<Rightarrow> (backend_error, memory_backend) res" where
  "mb_saveSnapshot snapshot s =
     rbind (assertOpen s) (\<lambda>_.
       Ok (s\<lparr>mb_snapshots := AList.update (ds_documentId snapshot) snapshot (mb_snapshots s)\<rparr>))"

definition mb_getSnapshot :: "jstring \<Rightarrow> memory_backend \<Rightarrow> (backend_error, document_snapshot option) res" where
  "mb_getSnapshot documentId s = rbind (assertOpen s) (\<lambda>_. Ok (map_of (mb_snapshots s) documentId))"

definition mb_appendDelta :: "document_delta \<Rightarrow> memory_backend \<Rightarrow> (backend_error, memory_backend) res" where
  "mb_appendDelta delta s =
     rbind (assertOpen s) (\<lambda>_.
       let d = dd_documentId delta;
           deltas = (if map_of (mb_deltas s) d = None then AList.update d [] (mb_deltas s) else mb_deltas s);
           entries = lookup_or [] deltas d;
           nextId = (case dd_id delta of Some i \<Rightarrow> i | None \<Rightarrow> int (length entries) + 1)
       in Ok (s\<lparr>mb_deltas := AList.update d (entries @ [delta\<lparr>dd_id := Some nextId\<rparr>]) deltas\<rparr>))"

definition mb_getDeltas :: "jstring \<Rightarrow> int option \<Rightarrow> memory_backend \<Rightarrow> (backend_error, document_delta list) res" where
  "mb_getDeltas documentId fromId s =
     rbind (assertOpen s) (\<lambda>_.
       let entries = lookup_or [] (mb_deltas s) documentId
       in case fromId of
            None \<Rightarrow> Ok entries
          | Some n \<Rightarrow> Ok (filter (\<lambda>d. (case dd_id d of None \<Rightarrow> 0 | Some i \<Rightarrow> i) \<ge> n) entries))"

text \<open>\<open>String.prototype.indexOf\<close>.\<close>

fun index_of :: "jstring \<Rightarrow> jstring \<Rightarrow> nat option" where
  "index_of needle [] = (if needle = [] then Some 0 else None)"
| "index_of needle (c # cs) =
     (if take (length needle) (c # cs) = needle then Some 0 else map_option Suc (index_of needle cs))"

definition slice :: "nat \<Rightarrow> nat \<Rightarrow> 'a list \<Rightarrow> 'a list" where
  "slice i j xs = drop i (take j xs)"

fun search_loop :: "(jstring \<Rightarrow> jstring) \<Rightarrow> jstring \<Rightarrow> int \<Rightarrow> (jstring \<times> document_snapshot) list \<Rightarrow> nat \<Rightarrow>
    search_result list \<Rightarrow> search_result list" where
  "search_loop lower lowerQuery limit [] idxOrder results = results"
| "search_loop lower lowerQuery limit ((docId, snap) # entries) idxOrder results =
     (case index_of lowerQuery (lower (ds_contentMarkdown snap)) of
        None \<Rightarrow> search_loop lower lowerQuery limit entries idxOrder results
      | Some idx \<Rightarrow>
          (let text = ds_contentMarkdown snap;
               snippet = slice (idx - 20) (min (length text) (idx + 80)) text;
               results' = results @ [\<lparr>sr_documentId = docId, sr_title = ascii ''Document '' @ docId,
                                      sr_snippet = js_trim snippet, sr_orderIndex = idxOrder\<rparr>]
           in if int (length results') \<ge> limit then results'
              else search_loop lower lowerQuery limit entries (Suc idxOrder) results'))"

definition mb_search :: "(jstring \<Rightarrow> jstring) \<Rightarrow> jstring \<Rightarrow> int \<Rightarrow> memory_backend \<Rightarrow>
    (backend_error, search_result list) res" where
  "mb_search lower query limit s =
     rbind (assertOpen s) (\<lambda>_. Ok (search_loop lower (lower query) limit (mb_snapshots s) 1 []))"

section \<open>The interface of a session backend\<close>

locale session_backend =
  fixes append :: "jstring \<Rightarrow> session_entry list \<Rightarrow> 's \<Rightarrow> ('e, 's) res"
    and journal :: "jstring \<Rightarrow> 's \<Rightarrow> session_entry list"
    and inv :: "'s \<Rightarrow> bool"
  assumes append_inv: "inv s \<Longrightarrow> append sid es s = Ok s' \<Longrightarrow> inv s'"
    and append_journal: "inv s \<Longrightarrow> append sid es s = Ok s' \<Longrightarrow>
          journal sid s' = journal sid s @ map with_version es"
    and append_other: "inv s \<Longrightarrow> append sid es s = Ok s' \<Longrightarrow> t \<noteq> sid \<Longrightarrow> journal t s' = journal t s"
    and journal_inv: "inv s \<Longrightarrow> journal_ok sid (journal sid s)"
begin

fun append_all :: "(jstring \<times> session_entry list) list \<Rightarrow> 's \<Rightarrow> ('e, 's) res" where
  "append_all [] s = Ok s"
| "append_all ((sid, es) # rest) s = rbind (append sid es s) (append_all rest)"

lemma append_all_journal:
  "append_all bs s = Ok s' \<Longrightarrow> inv s \<Longrightarrow>
     inv s' \<and> journal sid s' = journal sid s @ map with_version (concat (map snd (filter (\<lambda>b. fst b = sid) bs)))"
proof (induction bs arbitrary: s)
  case (Cons b bs)
  obtain t es where b: "b = (t, es)" by fastforce
  from Cons.prems(1) obtain s1 where s1: "append t es s = Ok s1" "append_all bs s1 = Ok s'" by (auto simp: b)
  then show ?case
    using Cons.IH [of s1] append_inv [OF Cons.prems(2)] append_journal [OF Cons.prems(2)]
      append_other [OF Cons.prems(2) s1(1), of sid] Cons.prems(2) b by (cases "t = sid") auto
qed simp

lemma journals_never_shrink: "append_all bs s = Ok s' \<Longrightarrow> inv s \<Longrightarrow>
    (\<exists>zs. journal sid s' = journal sid s @ zs) \<and> journal_ok sid (journal sid s')"
  by (metis append_all_journal journal_inv)

end

text \<open>A backend whose pages and forks are computed from its journals by the shared contract.\<close>

locale paged_backend = session_backend append journal inv
  for append :: "jstring \<Rightarrow> session_entry list \<Rightarrow> 's \<Rightarrow> ('e, 's) res"
    and journal :: "jstring \<Rightarrow> 's \<Rightarrow> session_entry list"
    and inv :: "'s \<Rightarrow> bool" +
  fixes page :: "jstring \<Rightarrow> page_options \<Rightarrow> 's \<Rightarrow> ('e, entry_page) res"
    and err :: "entry_error \<Rightarrow> 'e"
  assumes page_contract: "inv s \<Longrightarrow> page sid options s =
      (case pageEntries sid (journal sid s) options of Inl e \<Rightarrow> Inl (err e) | Inr p \<Rightarrow> Inr p)"
begin

fun read_all :: "jstring \<Rightarrow> 's list \<Rightarrow> page_options \<Rightarrow> ('e, session_entry list \<times> bool) res" where
  "read_all sid [] options = Ok ([], False)"
| "read_all sid (s # ss) options =
     rbind (page sid options s) (\<lambda>p.
       case ep_nextCursor p of
         None \<Rightarrow> Ok (ep_entries p, True)
       | Some c \<Rightarrow> rbind (read_all sid ss (options\<lparr>po_cursor := Some c\<rparr>)) (\<lambda>(es, done). Ok (ep_entries p @ es, done)))"

lemma read_all_pages:
  "\<forall>s \<in> set ss. inv s \<Longrightarrow> read_pages sid (map (journal sid) ss) options = Ok r \<Longrightarrow> read_all sid ss options = Ok r"
proof (induction ss arbitrary: options r)
  case (Cons s ss)
  then obtain p where p: "pageEntries sid (journal sid s) options = Ok p" by auto
  show ?case
  proof (cases "ep_nextCursor p")
    case None
    then show ?thesis using Cons.prems p by (simp add: page_contract)
  next
    case (Some c)
    with Cons.prems p obtain es d where "read_pages sid (map (journal sid) ss) (options\<lparr>po_cursor := Some c\<rparr>) = Ok (es, d)"
      and r: "r = (ep_entries p @ es, d)"
      by auto
    then have "read_all sid ss (options\<lparr>po_cursor := Some c\<rparr>) = Ok (es, d)" using Cons.IH Cons.prems(1) by simp
    then show ?thesis using Cons.prems(1) p Some r by (simp add: page_contract)
  qed
qed simp

end

section \<open>The memory backend provides it\<close>

definition mb_inv :: "memory_backend \<Rightarrow> bool" where
  "mb_inv s \<longleftrightarrow> (\<forall>sid. journal_ok sid (mb_journal sid s))"

lemma contract_Ok [simp]: "contract r = Ok x \<longleftrightarrow> r = Ok x"
  by (simp add: contract_def split: sum.split)

lemma assertOpen_Ok [simp]: "assertOpen s = Ok u \<longleftrightarrow> \<not> mb_closed s"
  by (simp add: assertOpen_def)

lemma mb_append_spec:
  assumes "mb_inv s"
  shows "mb_appendEntries sid es s = Ok s' \<longleftrightarrow>
    \<not> mb_closed s \<and> validateStorageId sid = Ok () \<and> journal_ok sid (mb_journal sid s @ map with_version es) \<and>
    s' = s\<lparr>mb_journals := AList.update sid (mb_journal sid s @ map with_version es) (mb_journals s)\<rparr>"
  using assms prepare_iff [of sid "mb_journal sid s" es]
  by (auto simp: mb_appendEntries_def mb_inv_def Let_def)

lemma mb_journal_update:
  "mb_journal t (s\<lparr>mb_journals := AList.update sid es (mb_journals s)\<rparr>) = (if t = sid then es else mb_journal t s)"
  by (simp add: mb_journal_def lookup_or_def update_conv')

lemma mb_append_inv: "mb_inv s \<Longrightarrow> mb_appendEntries sid es s = Ok s' \<Longrightarrow> mb_inv s'"
  by (auto simp: mb_append_spec mb_inv_def mb_journal_update)

interpretation memory: paged_backend mb_appendEntries mb_journal "\<lambda>s. mb_inv s \<and> \<not> mb_closed s"
  mb_getEntryPage Contract
proof unfold_locales
  fix s s' sid es
  assume "mb_inv s \<and> \<not> mb_closed s" "mb_appendEntries sid es s = Ok s'"
  then show "mb_inv s' \<and> \<not> mb_closed s'"
    using mb_append_inv by (auto simp: mb_append_spec)
qed (auto simp: mb_append_spec mb_journal_update mb_getEntryPage_def contract_def assertOpen_def mb_inv_def
    split: sum.splits)

section \<open>Properties\<close>

text \<open>A client that appends batches to sessions, until the first throw.\<close>

fun mb_append_all :: "(jstring \<times> session_entry list) list \<Rightarrow> memory_backend \<Rightarrow>
    (backend_error, memory_backend) res" where
  "mb_append_all [] s = Ok s"
| "mb_append_all ((sid, es) # rest) s = rbind (mb_appendEntries sid es s) (mb_append_all rest)"

lemma mb_append_all_eq: "mb_append_all bs s = memory.append_all bs s"
  by (induction bs s rule: mb_append_all.induct) (auto intro: rbind_cong)

lemma mb_inv_new: "mb_inv newMemoryBackend \<and> \<not> mb_closed newMemoryBackend"
  by (simp add: mb_inv_def newMemoryBackend_def mb_journal_def lookup_or_def journal_ok_def)

text \<open>
  C35: after any sequence of accepted appends to a new backend, \<open>getEntries\<close> returns for each
  session exactly the entries appended to it, in order, with versions filled in, and they are a
  well-formed journal.
\<close>

theorem memory_journals:
  assumes "mb_append_all bs newMemoryBackend = Ok s" and "validateStorageId sid = Ok ()"
  shows "\<exists>es. mb_getEntries sid None s = Ok es \<and> journal_ok sid es \<and>
    es = map with_version (concat (map snd (filter (\<lambda>b. fst b = sid) bs)))"
proof -
  have run: "memory.append_all bs newMemoryBackend = Ok s" using assms(1) by (simp add: mb_append_all_eq)
  have j: "mb_journal sid newMemoryBackend = []" by (simp add: mb_journal_def newMemoryBackend_def lookup_or_def)
  show ?thesis
    using memory.append_all_journal [OF run mb_inv_new, of sid] memory.journals_never_shrink [OF run mb_inv_new, of sid]
      assms(2) j by (simp add: mb_getEntries_def)
qed

theorem memory_journals_witness:
  "\<exists>s. mb_append_all [([115], [demo_entry 97 1 None]), ([115], [demo_entry 98 4 (Some [97])])] newMemoryBackend = Ok s \<and>
     mb_getEntries [115] None s = Ok [demo_entry 97 1 None, demo_entry 98 4 (Some [97])]"
proof -
  let ?bs = "[([115], [demo_entry 97 1 None]), ([115], [demo_entry 98 4 (Some [97])])]"
  have v: "with_version (demo_entry i n p) = demo_entry i n p" for i n p
    by (simp add: with_version_def demo_entry_def)
  have ok: "entry_ok [115] {} 0 (demo_entry 97 1 None)" "entry_ok [115] {[97]} 1 (demo_entry 98 4 (Some [97]))"
    by (simp_all add: entry_ok_def demo_entry_def js_trim_def js_space_def is_safe_integer_def MAX_SAFE_INTEGER_def)
  obtain s1 where s1: "mb_appendEntries [115] [demo_entry 97 1 None] newMemoryBackend = Ok s1"
    using ok(1) mb_inv_new demo_ids by (simp add: mb_append_spec mb_journal_def newMemoryBackend_def lookup_or_def
        journal_ok_def v)
  then have j: "mb_journal [115] s1 = [demo_entry 97 1 None]" "mb_inv s1" "\<not> mb_closed s1"
    using memory.append_journal [OF mb_inv_new s1] memory.append_inv [OF mb_inv_new s1]
    by (simp_all add: v mb_journal_def newMemoryBackend_def lookup_or_def)
  obtain s where "mb_appendEntries [115] [demo_entry 98 4 (Some [97])] s1 = Ok s"
    using ok j demo_ids by (simp add: mb_append_spec journal_ok_def v) (simp add: demo_entry_def)
  with s1 have run: "mb_append_all ?bs newMemoryBackend = Ok s" by simp
  from memory_journals [OF this demo_ids(1)] run show ?thesis by (auto simp: v)
qed

text \<open>
  \<open>close\<close> is idempotent and terminal: after it, every other method of the backend rejects with
  \<open>BackendClosedError\<close>, whatever its arguments.
\<close>

theorem closed_backend_rejects:
  "mb_close (mb_close s) = mb_close s \<and> mb_initialize (mb_close s) = Throw BackendClosed \<and>
   mb_appendEntries sid es (mb_close s) = Throw BackendClosed \<and>
   mb_appendEntry sid e (mb_close s) = Throw BackendClosed \<and>
   mb_loadEntries sid es (mb_close s) = Throw BackendClosed \<and>
   mb_getEntries sid from (mb_close s) = Throw BackendClosed \<and>
   mb_getEntryPage sid options (mb_close s) = Throw BackendClosed \<and>
   mb_forkSession sid target headId (mb_close s) = Throw BackendClosed \<and>
   mb_saveSnapshot snap (mb_close s) = Throw BackendClosed \<and>
   mb_getSnapshot d (mb_close s) = Throw BackendClosed \<and>
   mb_appendDelta delta (mb_close s) = Throw BackendClosed \<and>
   mb_getDeltas d n (mb_close s) = Throw BackendClosed \<and>
   mb_search lower query limit (mb_close s) = Throw BackendClosed"
proof -
  have c: "assertOpen (mb_close s) = Throw BackendClosed" by (simp add: assertOpen_def mb_close_def)
  have "mb_close (mb_close s) = mb_close s" by (simp add: mb_close_def)
  then show ?thesis
    by (simp add: c mb_initialize_def mb_appendEntries_def mb_appendEntry_def mb_loadEntries_def mb_getEntries_def
        mb_getEntryPage_def mb_forkSession_def mb_saveSnapshot_def mb_getSnapshot_def mb_appendDelta_def
        mb_getDeltas_def mb_search_def)
qed

end
