(* ===== verification/SessionTree.thy ===== *)
theory SessionTree
  imports Json
begin

text \<open>
  \<open>packages/agent-core/src/tree.ts\<close>: the in-memory tree of a session's messages, with an active
  leaf. The \<open>Map\<close> of nodes is an association list in insertion order. The loops that follow
  \<open>parentId\<close> end only because parents are inserted before their children, so they are partial
  functions, shown total under the invariant \<open>tree_inv\<close>; the general facts about following
  parents are the locale \<open>ancestor_forest\<close>. The id generator is a stream, of which
  \<open>st_generated\<close> values were used; the clock's value is an argument.
\<close>

record agent_message =
  am_id :: "jstring option"
  am_role :: jstring
  am_customType :: "jstring option"
  am_content :: json
  am_firstKeptEntryId :: "jstring option"

record tree_node =
  tn_id :: jstring
  tn_parentId :: "jstring option"
  tn_message :: agent_message
  tn_childrenIds :: "jstring list"
  tn_createdAt :: int
  tn_metadata :: "json option"

record history_delta =
  hd_headId :: "jstring option"
  hd_messages :: "agent_message list"
  hd_reset :: bool

record session_tree =
  st_nodes :: "(jstring \<times> tree_node) list"
  st_rootId :: "jstring option"
  st_currentLeafId :: "jstring option"
  st_generated :: nat
  st_revision :: nat

datatype tree_error = NodeExists | ParentNotFound | NodeNotFound | LabelEmpty

section \<open>Operations\<close>

text \<open>The truth value of a string that may be \<open>null\<close> or \<open>undefined\<close>.\<close>

definition truthy :: "jstring option \<Rightarrow> bool" where
  "truthy v \<longleftrightarrow> v \<noteq> None \<and> v \<noteq> Some []"

definition default_ids :: "nat \<Rightarrow> jstring" where
  "default_ids n = ascii ''node_'' @ nat_str (n + 1)"

definition emptyTree :: session_tree where
  "emptyTree = \<lparr>st_nodes = [], st_rootId = None, st_currentLeafId = None, st_generated = 0, st_revision = 0\<rparr>"

definition update_node :: "jstring \<Rightarrow> (tree_node \<Rightarrow> tree_node) \<Rightarrow> (jstring \<times> tree_node) list \<Rightarrow>
    (jstring \<times> tree_node) list" where
  "update_node k f nodes = (case map_of nodes k of None \<Rightarrow> nodes | Some n \<Rightarrow> AList.update k (f n) nodes)"

text \<open>\<open>parentId\<close> is \<open>None\<close> when it is \<open>undefined\<close>, \<open>Some None\<close> when it is \<open>null\<close>.\<close>

definition addMessage :: "(nat \<Rightarrow> jstring) \<Rightarrow> int \<Rightarrow> agent_message \<Rightarrow> jstring option option \<Rightarrow> json option \<Rightarrow>
    session_tree \<Rightarrow> (tree_error, jstring) res \<times> session_tree" where
  "addMessage ids now message parentId metadata t =
     (let (i, t) = (if truthy (am_id message) then (the (am_id message), t)
                    else (ids (st_generated t), t\<lparr>st_generated := st_generated t + 1\<rparr>));
          effectiveParentId = (case parentId of Some p \<Rightarrow> p | None \<Rightarrow> st_currentLeafId t)
      in if map_of (st_nodes t) i \<noteq> None then (Throw NodeExists, t)
         else if (case effectiveParentId of None \<Rightarrow> False | Some p \<Rightarrow> map_of (st_nodes t) p = None)
         then (Throw ParentNotFound, t)
         else let node = \<lparr>tn_id = i, tn_parentId = effectiveParentId, tn_message = message\<lparr>am_id := Some i\<rparr>,
                          tn_childrenIds = [], tn_createdAt = now, tn_metadata = metadata\<rparr>;
                  nodes = AList.update i node (st_nodes t);
                  nodes = (if truthy effectiveParentId
                           then update_node (the effectiveParentId)
                                  (\<lambda>p. p\<lparr>tn_childrenIds := tn_childrenIds p @ [i]\<rparr>) nodes
                           else nodes)
              in (Ok i, t\<lparr>st_nodes := nodes,
                          st_rootId := (if truthy (st_rootId t) then st_rootId t else Some i),
                          st_currentLeafId := Some i,
                          st_revision := st_revision t + 1\<rparr>))"

text \<open>The constructor stops at the first message that \<open>addMessage\<close> refuses.\<close>

fun newTree :: "(nat \<Rightarrow> jstring) \<Rightarrow> (int \<times> agent_message) list \<Rightarrow> session_tree \<Rightarrow> (tree_error, session_tree) res" where
  "newTree ids [] t = Ok t"
| "newTree ids ((now, msg) # msgs) t =
     (case addMessage ids now msg None None t of
        (Inl e, _) \<Rightarrow> Inl e
      | (Inr _, t') \<Rightarrow> newTree ids msgs t')"

definition moveLeaf :: "jstring \<Rightarrow> session_tree \<Rightarrow> session_tree" where
  "moveLeaf i t = (if st_currentLeafId t \<noteq> Some i
     then t\<lparr>st_currentLeafId := Some i, st_revision := st_revision t + 1\<rparr> else t)"

definition selectLeaf :: "jstring \<Rightarrow> session_tree \<Rightarrow> (tree_error, jstring) res \<times> session_tree" where
  "selectLeaf i t = (if map_of (st_nodes t) i = None then (Throw NodeNotFound, t) else (Ok i, moveLeaf i t))"

definition navigate :: "jstring \<Rightarrow> session_tree \<Rightarrow> bool \<times> session_tree" where
  "navigate i t = (if map_of (st_nodes t) i = None then (False, t) else (True, moveLeaf i t))"

definition switchBranch :: "jstring \<Rightarrow> session_tree \<Rightarrow> bool \<times> session_tree" where
  "switchBranch i t = navigate i t"

definition addBranchMarker :: "(nat \<Rightarrow> jstring) \<Rightarrow> int \<Rightarrow> jstring \<Rightarrow> jstring option \<Rightarrow> session_tree \<Rightarrow>
    (tree_error, tree_node) res \<times> session_tree" where
  "addBranchMarker ids now name hypothesis t =
     (if name = [] \<or> js_trim name = [] then (Throw LabelEmpty, t)
      else case addMessage ids now
             \<lparr>am_id = None, am_role = ascii ''custom'', am_customType = Some (ascii ''branch''),
              am_content = JObj ((ascii ''label'', JStr name) #
                 (case hypothesis of None \<Rightarrow> [] | Some h \<Rightarrow> [(ascii ''hypothesis'', JStr h)])),
              am_firstKeptEntryId = None\<rparr> None None t of
           (Inl e, t') \<Rightarrow> (Inl e, t')
         | (Inr i, t') \<Rightarrow> (Inr (the (map_of (st_nodes t') (the (st_currentLeafId t')))), t'))"

definition getNode :: "jstring \<Rightarrow> session_tree \<Rightarrow> tree_node option" where
  "getNode i t = map_of (st_nodes t) i"

definition target_of :: "jstring option \<Rightarrow> session_tree \<Rightarrow> tree_node option" where
  "target_of leafId t =
     (let targetId = (case leafId of Some i \<Rightarrow> Some i | None \<Rightarrow> st_currentLeafId t)
      in if truthy targetId then map_of (st_nodes t) (the targetId) else None)"

definition parent_node :: "(jstring \<times> tree_node) list \<Rightarrow> tree_node \<Rightarrow> tree_node option" where
  "parent_node nodes n = (if truthy (tn_parentId n) then map_of nodes (the (tn_parentId n)) else None)"

partial_function (option) history_loop ::
  "(jstring \<times> tree_node) list \<Rightarrow> tree_node option \<Rightarrow> agent_message list \<Rightarrow> agent_message list option" where
  "history_loop nodes cur messages =
     (case cur of
        None \<Rightarrow> Some messages
      | Some n \<Rightarrow> history_loop nodes (parent_node nodes n) (messages @ [tn_message n]))"

definition getHistory :: "jstring option \<Rightarrow> session_tree \<Rightarrow> agent_message list option" where
  "getHistory leafId t = map_option rev (history_loop (st_nodes t) (target_of leafId t) [])"

partial_function (option) delta_loop ::
  "(jstring \<times> tree_node) list \<Rightarrow> jstring option \<Rightarrow> tree_node option \<Rightarrow> agent_message list \<Rightarrow>
     (bool \<times> agent_message list) option" where
  "delta_loop nodes prev cur messages =
     (case cur of
        None \<Rightarrow> Some (False, messages)
      | Some n \<Rightarrow> if Some (tn_id n) = prev then Some (True, messages)
                  else delta_loop nodes prev (parent_node nodes n) (messages @ [tn_message n]))"

definition getHistoryDelta :: "jstring option \<Rightarrow> jstring option \<Rightarrow> session_tree \<Rightarrow> history_delta option" where
  "getHistoryDelta prev leafId t =
     (case target_of leafId t of
        None \<Rightarrow> Some \<lparr>hd_headId = None, hd_messages = [], hd_reset = (prev \<noteq> None)\<rparr>
      | Some n \<Rightarrow>
          map_option (\<lambda>(found, messages).
              \<lparr>hd_headId = (case leafId of Some i \<Rightarrow> Some i | None \<Rightarrow> st_currentLeafId t),
               hd_messages = rev messages,
               hd_reset = (if found then False else prev \<noteq> None)\<rparr>)
            (delta_loop (st_nodes t) prev (Some n) []))"

fun branches_loop :: "session_tree \<Rightarrow> (jstring \<times> tree_node) list \<Rightarrow> (jstring \<times> nat \<times> agent_message) list option" where
  "branches_loop t [] = Some []"
| "branches_loop t ((_, n) # ns) =
     (if tn_childrenIds n = []
      then case getHistory (Some (tn_id n)) t of
             None \<Rightarrow> None
           | Some h \<Rightarrow> map_option (Cons (tn_id n, length h, tn_message n)) (branches_loop t ns)
      else branches_loop t ns)"

definition getBranches :: "session_tree \<Rightarrow> (jstring \<times> nat \<times> agent_message) list option" where
  "getBranches t = branches_loop t (st_nodes t)"

partial_function (option) path_loop ::
  "(jstring \<times> tree_node) list \<Rightarrow> tree_node option \<Rightarrow> jstring list \<Rightarrow> jstring list option" where
  "path_loop nodes cur path =
     (case cur of
        None \<Rightarrow> Some path
      | Some n \<Rightarrow> path_loop nodes (parent_node nodes n) (path @ [tn_id n]))"

definition getPathToRoot :: "jstring \<Rightarrow> session_tree \<Rightarrow> jstring list option" where
  "getPathToRoot i t = path_loop (st_nodes t) (map_of (st_nodes t) i) []"

partial_function (option) ancestor_loop ::
  "(jstring \<times> tree_node) list \<Rightarrow> jstring set \<Rightarrow> tree_node option \<Rightarrow> jstring option option" where
  "ancestor_loop nodes pathA cur =
     (case cur of
        None \<Rightarrow> Some None
      | Some n \<Rightarrow> if tn_id n \<in> pathA then Some (Some (tn_id n))
                  else ancestor_loop nodes pathA (parent_node nodes n))"

definition findCommonAncestor :: "jstring \<Rightarrow> jstring \<Rightarrow> session_tree \<Rightarrow> jstring option option" where
  "findCommonAncestor a b t =
     (if map_of (st_nodes t) a = None \<or> map_of (st_nodes t) b = None then Some None
      else if a = b then Some (Some a)
      else case getPathToRoot a t of
             None \<Rightarrow> None
           | Some path \<Rightarrow> ancestor_loop (st_nodes t) (set path) (map_of (st_nodes t) b))"

definition getAllNodes :: "session_tree \<Rightarrow> tree_node list" where
  "getAllNodes t = map snd (st_nodes t)"

definition is_label :: "agent_message \<Rightarrow> bool" where
  "is_label m \<longleftrightarrow> am_role m = ascii ''custom'' \<and> am_customType m = Some (ascii ''branch'')"

fun clean_loop :: "agent_message list \<Rightarrow> (jstring \<times> jstring) list \<Rightarrow> jstring list \<Rightarrow> agent_message list \<Rightarrow>
    agent_message list" where
  "clean_loop [] replacement pending cleaned = cleaned"
| "clean_loop (msg # msgs) replacement pending cleaned =
     (if is_label msg
      then clean_loop msgs replacement
             (if truthy (am_id msg) then pending @ [the (am_id msg)] else pending) cleaned
      else let (replacement, pending) =
                 (if truthy (am_id msg)
                  then (fold (\<lambda>l. AList.update l (the (am_id msg))) pending replacement, [])
                  else (replacement, pending));
               msg' = (if truthy (am_firstKeptEntryId msg)
                       then msg\<lparr>am_firstKeptEntryId :=
                              Some (case map_of replacement (the (am_firstKeptEntryId msg)) of
                                      Some m \<Rightarrow> m | None \<Rightarrow> the (am_firstKeptEntryId msg))\<rparr>
                       else msg)
           in clean_loop msgs replacement pending (cleaned @ [msg']))"

definition getCleanHistoryPath :: "jstring option \<Rightarrow> session_tree \<Rightarrow> agent_message list option" where
  "getCleanHistoryPath leafId t = map_option (\<lambda>raw. clean_loop raw [] [] []) (getHistory leafId t)"

definition tree_size :: "session_tree \<Rightarrow> nat" where
  "tree_size t = length (st_nodes t)"

definition clear :: "session_tree \<Rightarrow> session_tree" where
  "clear t = t\<lparr>st_nodes := [], st_rootId := None, st_currentLeafId := None, st_revision := st_revision t + 1\<rparr>"

section \<open>Following parents in a forest\<close>

text \<open>
  In every state that satisfies the invariant, a parent has a smaller rank than its child. Then
  the path from a node to its root is finite, and paths that meet coincide from there on.
\<close>

locale ancestor_forest =
  fixes inv :: "'s \<Rightarrow> bool" and parent :: "'s \<Rightarrow> 'n \<Rightarrow> 'n option" and rank :: "'s \<Rightarrow> 'n \<Rightarrow> nat"
  assumes parent_rank: "inv s \<Longrightarrow> parent s n = Some p \<Longrightarrow> rank s p < rank s n"
begin

primrec up :: "nat \<Rightarrow> 's \<Rightarrow> 'n \<Rightarrow> 'n list" where
  "up 0 s n = [n]"
| "up (Suc k) s n = n # (case parent s n of None \<Rightarrow> [] | Some p \<Rightarrow> up k s p)"

definition path :: "'s \<Rightarrow> 'n \<Rightarrow> 'n list" where
  "path s n = up (rank s n) s n"

lemma up_enough: "inv s \<Longrightarrow> rank s n \<le> j \<Longrightarrow> rank s n \<le> k \<Longrightarrow> up j s n = up k s n"
proof (induction j arbitrary: k n)
  case 0
  then have "parent s n = None" using parent_rank [of s n] by (cases "parent s n") fastforce+
  then show ?case by (cases k) simp_all
next
  case (Suc j)
  show ?case
  proof (cases "parent s n")
    case None
    then show ?thesis by (cases k) simp_all
  next
    case (Some p)
    then have "rank s p < rank s n" using parent_rank Suc.prems(1) by blast
    then obtain k' where "k = Suc k'" "rank s p \<le> j" "rank s p \<le> k'" using Suc.prems by (cases k) auto
    then show ?thesis using Suc.IH [of p k'] Suc.prems(1) Some by simp
  qed
qed

lemma path_unfold: "inv s \<Longrightarrow> path s n = n # (case parent s n of None \<Rightarrow> [] | Some p \<Rightarrow> path s p)"
proof (cases "parent s n")
  case None
  then show ?thesis by (cases "rank s n") (simp_all add: path_def)
next
  case (Some p)
  assume i: "inv s"
  then have "rank s p < rank s n" using parent_rank Some by blast
  then obtain k where "rank s n = Suc k" "rank s p \<le> k" by (cases "rank s n") auto
  then show ?thesis using Some up_enough [OF i, of p k "rank s p"] by (simp add: path_def)
qed

lemma path_not_Nil: "inv s \<Longrightarrow> path s n \<noteq> []"
  by (subst path_unfold) simp_all

lemma self_in_path: "inv s \<Longrightarrow> n \<in> set (path s n)"
  by (subst path_unfold) simp_all

lemma path_induct [consumes 1, case_names step]: "inv s \<Longrightarrow> (\<And>n. (\<And>p. parent s n = Some p \<Longrightarrow> P p) \<Longrightarrow> P n) \<Longrightarrow> P n"
  by (induction "rank s n" arbitrary: n rule: less_induct) (blast intro: parent_rank)

lemma path_suffix:
  assumes i: "inv s"
  shows "m \<in> set (path s n) \<Longrightarrow> \<exists>xs. path s n = xs @ path s m \<and> m \<notin> set xs"
  using i
proof (induction n rule: path_induct)
  case (step n)
  show ?case
  proof (cases "m = n")
    case True
    then show ?thesis by simp
  next
    case False
    then obtain p where p: "parent s n = Some p" "m \<in> set (path s p)"
      using step.prems path_unfold [OF i, of n] by (auto split: option.splits)
    then obtain xs where "path s p = xs @ path s m" "m \<notin> set xs" using step.IH by blast
    then show ?thesis
      using p path_unfold [OF i, of n] False by (intro exI [of _ "n # xs"]) simp
  qed
qed

lemma path_rank:
  assumes i: "inv s"
  shows "m \<in> set (path s n) \<Longrightarrow> m = n \<or> rank s m < rank s n"
  using i
proof (induction n rule: path_induct)
  case (step n)
  then show ?case
    using path_unfold [OF i, of n] parent_rank [OF i, of n]
    by (fastforce split: option.splits)
qed

lemma path_distinct:
  assumes i: "inv s"
  shows "distinct (path s n)"
  using i
proof (induction n rule: path_induct)
  case (step n)
  then show ?case
    using path_unfold [OF i, of n] parent_rank [OF i, of n]
      path_rank [OF i, of n]
    by (fastforce split: option.splits)
qed

definition lca :: "'s \<Rightarrow> 'n \<Rightarrow> 'n \<Rightarrow> 'n option" where
  "lca s a b = find (\<lambda>m. m \<in> set (path s a)) (path s b)"

text \<open>The first node of one path that is on the other is below every common ancestor.\<close>

lemma lca_deepest:
  assumes i: "inv s" and l: "lca s a b = Some m"
  shows "m \<in> set (path s a) \<and> m \<in> set (path s b) \<and>
    (\<forall>c. c \<in> set (path s a) \<longrightarrow> c \<in> set (path s b) \<longrightarrow> c \<in> set (path s m))"
proof -
  from l obtain k where k: "k < length (path s b)" "path s b ! k = m" "m \<in> set (path s a)"
    "\<forall>j<k. path s b ! j \<notin> set (path s a)"
    by (auto simp: lca_def find_Some_iff)
  then have m: "m \<in> set (path s b)" by auto
  obtain xs where xs: "path s b = xs @ path s m" "m \<notin> set xs" using path_suffix [OF i m] by blast
  have "hd (path s m) = m" by (subst path_unfold [OF i]) simp
  then have "path s b ! length xs = m" using xs path_not_Nil [OF i, of m] by (simp add: nth_append hd_conv_nth)
  then have "k = length xs"
    using k(1,2) path_distinct [OF i, of b] xs path_not_Nil [OF i, of m]
    by (metis length_append length_greater_0_conv less_add_same_cancel1 nth_eq_iff_index_eq)
  then have "set xs \<inter> set (path s a) = {}"
    using k(4) xs by (auto simp: in_set_conv_nth nth_append)
  then show ?thesis using k(3) m xs by auto
qed

lemma lca_None: "lca s a b = None \<longleftrightarrow> set (path s a) \<inter> set (path s b) = {}"
  by (auto simp: lca_def find_None_iff)

end

section \<open>The invariant of the tree\<close>

definition parent_of :: "(jstring \<times> tree_node) list \<Rightarrow> jstring \<Rightarrow> jstring option" where
  "parent_of nodes k = (case map_of nodes k of None \<Rightarrow> None
     | Some n \<Rightarrow> if truthy (tn_parentId n) then tn_parentId n else None)"

definition rank_of :: "(jstring \<times> tree_node) list \<Rightarrow> jstring \<Rightarrow> nat" where
  "rank_of nodes k = length (takeWhile (\<lambda>x. x \<noteq> k) (map fst nodes))"

definition nodes_inv :: "(jstring \<times> tree_node) list \<Rightarrow> bool" where
  "nodes_inv nodes \<longleftrightarrow> distinct (map fst nodes) \<and>
     (\<forall>k n. map_of nodes k = Some n \<longrightarrow> tn_id n = k \<and> am_id (tn_message n) = Some k \<and>
        tn_childrenIds n = (if k = [] then [] else filter (\<lambda>c. parent_of nodes c = Some k) (map fst nodes))) \<and>
     (\<forall>k p. parent_of nodes k = Some p \<longrightarrow> p \<in> fst ` set nodes \<and> rank_of nodes p < rank_of nodes k)"

definition tree_inv :: "session_tree \<Rightarrow> bool" where
  "tree_inv t \<longleftrightarrow> nodes_inv (st_nodes t) \<and>
     (\<forall>i. st_currentLeafId t = Some i \<longrightarrow> i \<in> fst ` set (st_nodes t))"

interpretation tree: ancestor_forest nodes_inv parent_of rank_of
  by unfold_locales (simp add: nodes_inv_def)

lemma map_of_Some_key: "map_of nodes k = Some n \<Longrightarrow> k \<in> fst ` set nodes"
  by (metis domI dom_map_of_conv_image_fst)

lemma key_lookup: "k \<in> fst ` set nodes \<longleftrightarrow> (\<exists>n. map_of nodes k = Some n)"
  by (metis domD domI dom_map_of_conv_image_fst)

lemma parent_node_eq: "map_of nodes k = Some n \<Longrightarrow> parent_node nodes n =
    (case parent_of nodes k of None \<Rightarrow> None | Some p \<Rightarrow> map_of nodes p)"
  by (auto simp: parent_node_def parent_of_def truthy_def)

text \<open>The nodes on the path from \<open>k\<close> to its root.\<close>

definition nodes_at :: "(jstring \<times> tree_node) list \<Rightarrow> jstring \<Rightarrow> tree_node list" where
  "nodes_at nodes k = map (\<lambda>i. the (map_of nodes i)) (tree.path nodes k)"

lemma nodes_at_unfold:
  assumes "nodes_inv nodes" "map_of nodes k = Some n"
  shows "nodes_at nodes k = n # (case parent_of nodes k of None \<Rightarrow> [] | Some p \<Rightarrow> nodes_at nodes p)"
  unfolding nodes_at_def using assms
  by (subst tree.path_unfold [OF assms(1)]) (simp split: option.split)

lemma parent_present: "nodes_inv nodes \<Longrightarrow> parent_of nodes k = Some p \<Longrightarrow> \<exists>n. map_of nodes p = Some n"
  unfolding key_lookup [symmetric] by (simp add: nodes_inv_def)

lemma nodes_at_ids:
  assumes i: "nodes_inv nodes"
  shows "map_of nodes k = Some n \<Longrightarrow> map tn_id (nodes_at nodes k) = tree.path nodes k"
  using i
proof (induction k arbitrary: n rule: tree.path_induct)
  case (step k)
  have "tn_id n = k" using i step.prems by (simp add: nodes_inv_def)
  then show ?case
    using step.IH step.prems parent_present [OF i, of k]
    by (auto simp: nodes_at_unfold [OF i step.prems] tree.path_unfold [OF i, of k] split: option.splits)
qed

lemma history_loop_path:
  assumes i: "nodes_inv nodes"
  shows "map_of nodes k = Some n \<Longrightarrow>
     history_loop nodes (Some n) acc = Some (acc @ map tn_message (nodes_at nodes k))"
  using i
proof (induction k arbitrary: n acc rule: tree.path_induct)
  case (step k)
  then show ?case
    using parent_present [OF i, of k]
    by (subst history_loop.simps)
      (auto simp: nodes_at_unfold [OF i step.prems] parent_node_eq [OF step.prems] history_loop.simps [of _ None]
        split: option.splits)
qed

lemma path_loop_path:
  assumes i: "nodes_inv nodes"
  shows "map_of nodes k = Some n \<Longrightarrow> path_loop nodes (Some n) acc = Some (acc @ tree.path nodes k)"
  using i
proof (induction k arbitrary: n acc rule: tree.path_induct)
  case (step k)
  have "tn_id n = k" using i step.prems by (simp add: nodes_inv_def)
  then show ?case
    using step parent_present [OF i, of k]
    by (subst path_loop.simps)
      (auto simp: tree.path_unfold [OF i, of k] parent_node_eq [OF step.prems] path_loop.simps [of _ None]
        split: option.splits)
qed

lemma ancestor_loop_path:
  assumes i: "nodes_inv nodes"
  shows "map_of nodes k = Some n \<Longrightarrow>
     ancestor_loop nodes A (Some n) = Some (find (\<lambda>m. m \<in> A) (tree.path nodes k))"
  using i
proof (induction k arbitrary: n rule: tree.path_induct)
  case (step k)
  have "tn_id n = k" using i step.prems by (simp add: nodes_inv_def)
  then show ?case
    using step parent_present [OF i, of k]
    by (subst ancestor_loop.simps)
      (auto simp: tree.path_unfold [OF i, of k] parent_node_eq [OF step.prems] ancestor_loop.simps [of _ _ None]
        split: option.splits)
qed

lemma delta_loop_path:
  assumes i: "nodes_inv nodes"
  shows "map_of nodes k = Some n \<Longrightarrow>
     delta_loop nodes prev (Some n) acc =
       Some (prev \<in> Some ` set (tree.path nodes k),
             acc @ map (\<lambda>i. tn_message (the (map_of nodes i))) (takeWhile (\<lambda>i. Some i \<noteq> prev) (tree.path nodes k)))"
  using i
proof (induction k arbitrary: n acc rule: tree.path_induct)
  case (step k)
  have "tn_id n = k" using i step.prems by (simp add: nodes_inv_def)
  then show ?case
    using step parent_present [OF i, of k]
    by (subst delta_loop.simps)
      (auto simp: tree.path_unfold [OF i, of k] parent_node_eq [OF step.prems] delta_loop.simps [of _ _ None]
        split: option.splits)
qed

section \<open>Inserting a node\<close>

definition inserted :: "tree_node \<Rightarrow> (jstring \<times> tree_node) list \<Rightarrow> (jstring \<times> tree_node) list" where
  "inserted n nodes =
     (if truthy (tn_parentId n)
      then update_node (the (tn_parentId n)) (\<lambda>p. p\<lparr>tn_childrenIds := tn_childrenIds p @ [tn_id n]\<rparr>)
             (AList.update (tn_id n) n nodes)
      else AList.update (tn_id n) n nodes)"

lemma addMessage_Ok:
  assumes "addMessage ids now m parentId md t = (Ok i, t')"
  obtains ep where "ep = (case parentId of Some p \<Rightarrow> p | None \<Rightarrow> st_currentLeafId t)"
    "map_of (st_nodes t) i = None" "\<And>p. ep = Some p \<Longrightarrow> map_of (st_nodes t) p \<noteq> None"
    "st_nodes t' = inserted \<lparr>tn_id = i, tn_parentId = ep, tn_message = m\<lparr>am_id := Some i\<rparr>, tn_childrenIds = [],
       tn_createdAt = now, tn_metadata = md\<rparr> (st_nodes t)"
    "st_currentLeafId t' = Some i" "st_revision t' = st_revision t + 1"
    "truthy (am_id m) \<Longrightarrow> am_id m = Some i"
proof -
  define ep where "ep = (case parentId of Some p \<Rightarrow> p | None \<Rightarrow> st_currentLeafId t)"
  show thesis
    by (rule that [OF ep_def])
      (use assms in \<open>auto simp: addMessage_def Let_def inserted_def ep_def truthy_def split: if_splits option.splits\<close>)
qed

definition insertable :: "(jstring \<times> tree_node) list \<Rightarrow> tree_node \<Rightarrow> bool" where
  "insertable nodes n \<longleftrightarrow> nodes_inv nodes \<and> map_of nodes (tn_id n) = None \<and>
     (\<forall>p. tn_parentId n = Some p \<longrightarrow> map_of nodes p \<noteq> None) \<and>
     am_id (tn_message n) = Some (tn_id n) \<and> tn_childrenIds n = []"

definition hangs_on :: "tree_node \<Rightarrow> jstring \<Rightarrow> bool" where
  "hangs_on n k \<longleftrightarrow> k \<noteq> [] \<and> tn_parentId n = Some k"

lemma hangs_on_iff: "hangs_on n k \<longleftrightarrow> truthy (tn_parentId n) \<and> k = the (tn_parentId n)"
  by (auto simp: hangs_on_def truthy_def)

lemma insertable_new: "insertable nodes n \<Longrightarrow> x \<in> set (map fst nodes) \<Longrightarrow> x \<noteq> tn_id n"
  by (metis insertable_def list.set_map map_of_eq_None_iff)

lemma insertable_parent: "insertable nodes n \<Longrightarrow> hangs_on n p \<Longrightarrow> p \<in> set (map fst nodes) \<and> p \<noteq> tn_id n"
  by (metis hangs_on_def insertable_def list.set_map map_of_eq_None_iff)

lemma inserted_keys: "insertable nodes n \<Longrightarrow> map fst (inserted n nodes) = map fst nodes @ [tn_id n]"
proof -
  assume i: "insertable nodes n"
  then have new: "tn_id n \<notin> set (map fst nodes)" using insertable_new by blast
  then have u: "map fst (AList.update (tn_id n) n nodes) = map fst nodes @ [tn_id n]"
    by (simp add: update_keys)
  show ?thesis
  proof (cases "truthy (tn_parentId n)")
    case True
    then have "the (tn_parentId n) \<in> set (map fst nodes)"
      using insertable_parent [OF i] by (simp add: hangs_on_iff)
    with u True show ?thesis by (simp add: inserted_def update_node_def update_keys split: option.split)
  next
    case False
    with u show ?thesis by (simp add: inserted_def)
  qed
qed

lemma inserted_lookup: "insertable nodes n \<Longrightarrow> map_of (inserted n nodes) k =
    (if k = tn_id n then Some n
     else if hangs_on n k
     then map_option (\<lambda>p. p\<lparr>tn_childrenIds := tn_childrenIds p @ [tn_id n]\<rparr>) (map_of nodes k)
     else map_of nodes k)"
  unfolding insertable_def
  by (auto simp: inserted_def update_node_def update_conv' hangs_on_def truthy_def split: option.split)

lemma inserted_parents: "insertable nodes n \<Longrightarrow> parent_of (inserted n nodes) k =
    (if k = tn_id n then (if truthy (tn_parentId n) then tn_parentId n else None) else parent_of nodes k)"
  by (auto simp: parent_of_def inserted_lookup split: option.split)

lemma takeWhile_before: "k \<in> set ks \<Longrightarrow> length (takeWhile (\<lambda>x. x \<noteq> k) ks) < length ks"
  by (induction ks) auto

lemma takeWhile_new: "k \<notin> set ks \<Longrightarrow> takeWhile (\<lambda>x. x \<noteq> k) (ks @ [k]) = ks"
  by (induction ks) auto

lemma takeWhile_old: "k \<in> set ks \<Longrightarrow> takeWhile (\<lambda>x. x \<noteq> k) (ks @ [j]) = takeWhile (\<lambda>x. x \<noteq> k) ks"
  by (induction ks) auto

lemma inserted_ranks:
  assumes "insertable nodes n"
  shows "k \<in> set (map fst nodes) \<Longrightarrow> rank_of (inserted n nodes) k = rank_of nodes k"
    and "rank_of (inserted n nodes) (tn_id n) = length nodes"
  unfolding rank_of_def inserted_keys [OF assms] using insertable_new [OF assms]
  by (simp_all only: takeWhile_old) (subst takeWhile_new; force)

lemma inserted_children:
  assumes i: "insertable nodes n"
  shows "filter (\<lambda>c. parent_of (inserted n nodes) c = Some k) (map fst (inserted n nodes)) =
   filter (\<lambda>c. parent_of nodes c = Some k) (map fst nodes) @ (if hangs_on n k then [tn_id n] else [])"
proof -
  have "filter (\<lambda>c. parent_of (inserted n nodes) c = Some k) (map fst nodes) =
      filter (\<lambda>c. parent_of nodes c = Some k) (map fst nodes)"
    using insertable_new [OF i] by (intro filter_cong) (simp_all add: inserted_parents [OF i])
  then show ?thesis
    by (auto simp: inserted_keys [OF i] inserted_parents [OF i] hangs_on_def truthy_def simp del: map_append)
qed

lemma no_child_yet:
  assumes i: "insertable nodes n"
  shows "filter (\<lambda>c. parent_of nodes c = Some (tn_id n)) (map fst nodes) = []"
proof -
  have "parent_of nodes c \<noteq> Some (tn_id n)" for c
    using i parent_present [of nodes c "tn_id n"] by (auto simp: insertable_def)
  then show ?thesis by simp
qed

lemma inserted_node_ok:
  assumes i: "insertable nodes n" and m: "map_of (inserted n nodes) k = Some m"
  shows "tn_id m = k \<and> am_id (tn_message m) = Some k \<and>
    tn_childrenIds m = (if k = [] then []
      else filter (\<lambda>c. parent_of (inserted n nodes) c = Some k) (map fst (inserted n nodes)))"
proof (cases "k = tn_id n")
  case True
  then have "m = n" "\<not> hangs_on n k"
    using m insertable_parent [OF i] by (auto simp: inserted_lookup [OF i])
  then show ?thesis
    using i True no_child_yet [OF i] by (simp only: inserted_children [OF i]) (simp add: insertable_def)
next
  case False
  then obtain m' where m': "map_of nodes k = Some m'" "tn_id m = tn_id m'" "tn_message m = tn_message m'"
    "tn_childrenIds m = tn_childrenIds m' @ (if hangs_on n k then [tn_id n] else [])"
    using m by (auto simp: inserted_lookup [OF i] split: if_splits)
  have "k = [] \<Longrightarrow> \<not> hangs_on n k" by (simp add: hangs_on_def)
  moreover have "tn_id m' = k \<and> am_id (tn_message m') = Some k \<and>
      tn_childrenIds m' = (if k = [] then [] else filter (\<lambda>c. parent_of nodes c = Some k) (map fst nodes))"
    using i m'(1) by (simp add: insertable_def nodes_inv_def)
  ultimately show ?thesis using m'(2-4) by (simp only: inserted_children [OF i]) simp
qed

lemma inserted_rank_ok:
  assumes i: "insertable nodes n" and p: "parent_of (inserted n nodes) k = Some p"
  shows "p \<in> fst ` set (inserted n nodes) \<and> rank_of (inserted n nodes) p < rank_of (inserted n nodes) k"
proof -
  have inv: "nodes_inv nodes" using i by (simp add: insertable_def)
  have old: "p \<in> set (map fst nodes)"
  proof (cases "k = tn_id n")
    case True
    then have "hangs_on n p" using p by (auto simp: inserted_parents [OF i] hangs_on_iff split: if_splits)
    then show ?thesis using insertable_parent [OF i] by blast
  next
    case False
    then show ?thesis using p parent_present [OF inv] by (force simp: inserted_parents [OF i] key_lookup)
  qed
  have "rank_of nodes p < rank_of (inserted n nodes) k"
  proof (cases "k = tn_id n")
    case True
    then show ?thesis
      using takeWhile_before [OF old] inserted_ranks(2) [OF i] by (simp add: rank_of_def [of nodes])
  next
    case False
    then have k: "parent_of nodes k = Some p" using p by (simp add: inserted_parents [OF i])
    then have "k \<in> set (map fst nodes)"
      by (auto simp: parent_of_def dest: map_of_Some_key split: option.splits)
    then show ?thesis using inv k by (simp add: inserted_ranks [OF i] nodes_inv_def)
  qed
  moreover have "p \<in> fst ` set (inserted n nodes)"
    using old inserted_keys [OF i] by (metis Un_iff list.set_map set_append)
  ultimately show ?thesis using inserted_ranks(1) [OF i old] by simp
qed

lemma inserted_inv:
  assumes i: "insertable nodes n"
  shows "nodes_inv (inserted n nodes)"
proof -
  have "distinct (map fst (inserted n nodes))"
    using i insertable_new [OF i] by (auto simp: inserted_keys [OF i] insertable_def nodes_inv_def simp del: set_map)
  then show ?thesis
    using inserted_node_ok [OF i] inserted_rank_ok [OF i] unfolding nodes_inv_def by blast
qed

text \<open>Inserting a leaf leaves every other path as it was, and puts the new node on its parent's.\<close>

lemma inserted_path:
  assumes i: "insertable nodes n"
  shows "k \<in> set (map fst nodes) \<Longrightarrow> tree.path (inserted n nodes) k = tree.path nodes k"
proof -
  have inv: "nodes_inv nodes" using i by (simp add: insertable_def)
  show "k \<in> set (map fst nodes) \<Longrightarrow> tree.path (inserted n nodes) k = tree.path nodes k"
    using inv
  proof (induction k rule: tree.path_induct)
    case (step k)
    have "k \<noteq> tn_id n" using insertable_new [OF i step.prems] .
    then have "parent_of (inserted n nodes) k = parent_of nodes k" by (simp add: inserted_parents [OF i])
    then show ?case
      using step.IH parent_present [OF inv, of k]
      by (subst tree.path_unfold [OF inserted_inv [OF i]], subst tree.path_unfold [OF inv])
        (auto simp: key_lookup split: option.splits)
  qed
qed

lemma inserted_path_new:
  assumes i: "insertable nodes n"
  shows "tree.path (inserted n nodes) (tn_id n) =
    tn_id n # (if truthy (tn_parentId n) then tree.path nodes (the (tn_parentId n)) else [])"
proof (cases "truthy (tn_parentId n)")
  case True
  then have "the (tn_parentId n) \<in> set (map fst nodes)" using insertable_parent [OF i] by (simp add: hangs_on_iff)
  from inserted_path [OF i this] True show ?thesis
    by (subst tree.path_unfold [OF inserted_inv [OF i]]) (auto simp: inserted_parents [OF i] truthy_def)
next
  case False
  then show ?thesis
    by (subst tree.path_unfold [OF inserted_inv [OF i]]) (simp add: inserted_parents [OF i])
qed

section \<open>Every operation keeps the invariant\<close>

lemma addMessage_insertable:
  assumes inv: "tree_inv t" and a: "addMessage ids now m parentId md t = (Ok i, t')"
  obtains n where "insertable (st_nodes t) n" "tn_id n = i" "st_nodes t' = inserted n (st_nodes t)"
    "tn_parentId n = (case parentId of Some p \<Rightarrow> p | None \<Rightarrow> st_currentLeafId t)"
    "tn_message n = m\<lparr>am_id := Some i\<rparr>" "st_currentLeafId t' = Some i" "st_revision t' = st_revision t + 1"
proof -
  from a obtain ep where ep: "ep = (case parentId of Some p \<Rightarrow> p | None \<Rightarrow> st_currentLeafId t)"
    "map_of (st_nodes t) i = None" "\<And>p. ep = Some p \<Longrightarrow> map_of (st_nodes t) p \<noteq> None"
    "st_nodes t' = inserted \<lparr>tn_id = i, tn_parentId = ep, tn_message = m\<lparr>am_id := Some i\<rparr>, tn_childrenIds = [],
       tn_createdAt = now, tn_metadata = md\<rparr> (st_nodes t)"
    "st_currentLeafId t' = Some i" "st_revision t' = st_revision t + 1"
    by (rule addMessage_Ok) blast
  let ?n = "\<lparr>tn_id = i, tn_parentId = ep, tn_message = m\<lparr>am_id := Some i\<rparr>, tn_childrenIds = [],
       tn_createdAt = now, tn_metadata = md\<rparr>"
  have "insertable (st_nodes t) ?n" using inv ep(2,3) by (simp add: insertable_def tree_inv_def)
  then show thesis by (rule that) (use ep in simp_all)
qed

lemma addMessage_Throw:
  "addMessage ids now m parentId md t = (Throw e, t') \<Longrightarrow> st_nodes t' = st_nodes t \<and>
     st_currentLeafId t' = st_currentLeafId t \<and> st_rootId t' = st_rootId t \<and> st_revision t' = st_revision t"
  by (auto simp: addMessage_def Let_def split: if_splits option.splits)

lemma addMessage_inv: "tree_inv t \<Longrightarrow> tree_inv (snd (addMessage ids now m parentId md t))"
proof (cases "addMessage ids now m parentId md t")
  case (Pair r t')
  assume inv: "tree_inv t"
  show ?thesis
  proof (cases r)
    case (Inl e)
    then show ?thesis using inv Pair addMessage_Throw [of ids now m parentId md t e t'] by (simp add: tree_inv_def)
  next
    case (Inr i)
    with inv Pair obtain n where n: "insertable (st_nodes t) n" "tn_id n = i" "st_nodes t' = inserted n (st_nodes t)"
      "st_currentLeafId t' = Some i"
      by (metis addMessage_insertable)
    then have "map_of (st_nodes t') i = Some n" by (simp add: inserted_lookup)
    then show ?thesis
      using n inserted_inv [OF n(1)] Pair by (auto simp: tree_inv_def dest: map_of_Some_key)
  qed
qed

lemma moveLeaf_inv: "tree_inv t \<Longrightarrow> map_of (st_nodes t) i \<noteq> None \<Longrightarrow> tree_inv (moveLeaf i t)"
  by (auto simp: tree_inv_def moveLeaf_def map_of_eq_None_iff)

lemma emptyTree_inv: "tree_inv emptyTree"
  by (simp add: tree_inv_def emptyTree_def nodes_inv_def parent_of_def)

lemma newTree_inv: "newTree ids msgs t = Ok t' \<Longrightarrow> tree_inv t \<Longrightarrow> tree_inv t'"
proof (induction msgs arbitrary: t)
  case (Cons m msgs)
  obtain now msg where m: "m = (now, msg)" by fastforce
  with Cons.prems(1) obtain i t1 where "addMessage ids now msg None None t = (Ok i, t1)" "newTree ids msgs t1 = Ok t'"
    by (auto split: sum.splits prod.splits)
  then show ?case using Cons.IH addMessage_inv [OF Cons.prems(2), of ids now msg None None] by simp
qed simp

lemma addBranchMarker_tree: "snd (addBranchMarker ids now name hyp t) = t \<or>
    (\<exists>m. snd (addBranchMarker ids now name hyp t) = snd (addMessage ids now m None None t))"
  by (auto simp: addBranchMarker_def split: sum.splits prod.splits) (metis snd_conv)+

section \<open>What the queries return\<close>

definition messages_at :: "(jstring \<times> tree_node) list \<Rightarrow> jstring \<Rightarrow> agent_message list" where
  "messages_at nodes k = rev (map tn_message (nodes_at nodes k))"

lemma getHistory_at:
  assumes "tree_inv t" "map_of (st_nodes t) k = Some n" "k \<noteq> []"
  shows "getHistory (Some k) t = Some (messages_at (st_nodes t) k)"
  using assms history_loop_path [of "st_nodes t" k n "[]"]
  by (simp add: getHistory_def target_of_def truthy_def messages_at_def tree_inv_def)

lemma getHistory_total: "tree_inv t \<Longrightarrow> \<exists>h. getHistory leafId t = Some h"
proof (cases "target_of leafId t")
  case None
  then show ?thesis by (simp add: getHistory_def history_loop.simps [of _ None])
next
  case (Some n)
  assume "tree_inv t"
  moreover obtain k where "map_of (st_nodes t) k = Some n" using Some by (auto simp: target_of_def Let_def split: if_splits)
  ultimately show ?thesis
    using history_loop_path [of "st_nodes t" k n "[]"] Some by (simp add: getHistory_def tree_inv_def)
qed

lemma inserted_message:
  assumes "insertable nodes n" "k \<in> set (map fst nodes)"
  shows "tn_message (the (map_of (inserted n nodes) k)) = tn_message (the (map_of nodes k))"
proof -
  obtain m where "map_of nodes k = Some m" using assms(2) by (metis key_lookup list.set_map)
  then show ?thesis using insertable_new [OF assms] by (simp add: inserted_lookup [OF assms(1)])
qed

lemma path_present:
  assumes i: "nodes_inv nodes"
  shows "k \<in> set (map fst nodes) \<Longrightarrow> set (tree.path nodes k) \<subseteq> set (map fst nodes)"
  using i
proof (induction k rule: tree.path_induct)
  case (step k)
  have "p \<in> set (map fst nodes)" if "parent_of nodes k = Some p" for p
    using parent_present [OF i that] by (metis key_lookup list.set_map)
  then show ?case
    using step tree.path_unfold [OF i, of k] by (cases "parent_of nodes k") auto
qed

lemma messages_at_path: "messages_at nodes k = rev (map (\<lambda>j. tn_message (the (map_of nodes j))) (tree.path nodes k))"
  by (simp add: messages_at_def nodes_at_def comp_def)

lemma inserted_messages:
  assumes i: "insertable nodes n" and k: "k \<in> set (map fst nodes)"
  shows "messages_at (inserted n nodes) k = messages_at nodes k"
proof -
  have inv: "nodes_inv nodes" using i by (simp add: insertable_def)
  have "map (\<lambda>j. tn_message (the (map_of (inserted n nodes) j))) (tree.path nodes k) =
      map (\<lambda>j. tn_message (the (map_of nodes j))) (tree.path nodes k)"
    using path_present [OF inv k] inserted_message [OF i] by (intro map_cong) blast+
  then show ?thesis by (simp only: messages_at_path inserted_path [OF i k])
qed

lemma inserted_messages_new:
  assumes i: "insertable nodes n"
  shows "messages_at (inserted n nodes) (tn_id n) =
    (if truthy (tn_parentId n) then messages_at nodes (the (tn_parentId n)) else []) @ [tn_message n]"
proof (cases "truthy (tn_parentId n)")
  case True
  let ?p = "the (tn_parentId n)"
  have p: "?p \<in> set (map fst nodes)" using True insertable_parent [OF i] by (simp add: hangs_on_iff)
  have "messages_at (inserted n nodes) (tn_id n) = messages_at (inserted n nodes) ?p @ [tn_message n]"
    unfolding messages_at_path inserted_path_new [OF i] inserted_path [OF i p]
    using True by (simp add: inserted_lookup [OF i])
  then show ?thesis using True inserted_messages [OF i p] by simp
next
  case False
  then show ?thesis
    unfolding messages_at_path inserted_path_new [OF i] by (simp add: inserted_lookup [OF i])
qed

section \<open>Cleaning a history\<close>

definition after_label :: "jstring \<Rightarrow> agent_message list \<Rightarrow> agent_message list" where
  "after_label b ms = dropWhile (\<lambda>x. \<not> (is_label x \<and> am_id x = Some b)) ms"

definition kept :: "agent_message list \<Rightarrow> agent_message list" where
  "kept ms = filter (\<lambda>x. \<not> is_label x) ms"

text \<open>
  The boundary of a message after the messages \<open>pre\<close>: when it names a label of \<open>pre\<close>, the first
  kept message after that label, which may be the message itself.
\<close>

definition boundary :: "agent_message list \<Rightarrow> agent_message \<Rightarrow> jstring option" where
  "boundary pre m =
     (if truthy (am_firstKeptEntryId m)
      then case after_label (the (am_firstKeptEntryId m)) pre of
             [] \<Rightarrow> am_firstKeptEntryId m
           | l # rest \<Rightarrow> am_id (hd (kept (rest @ [m])))
      else am_firstKeptEntryId m)"

fun clean_spec :: "agent_message list \<Rightarrow> agent_message list \<Rightarrow> agent_message list" where
  "clean_spec pre [] = []"
| "clean_spec pre (m # ms) =
     (if is_label m then [] else [m\<lparr>am_firstKeptEntryId := boundary pre m\<rparr>]) @ clean_spec (pre @ [m]) ms"

definition clean_state :: "agent_message list \<Rightarrow> (jstring \<times> jstring) list \<Rightarrow> jstring list \<Rightarrow> bool" where
  "clean_state pre replacement pending \<longleftrightarrow>
     (\<forall>b. map_of replacement b = (case after_label b pre of [] \<Rightarrow> None
            | l # rest \<Rightarrow> if kept rest = [] then None else am_id (hd (kept rest)))) \<and>
     (\<forall>b. b \<in> set pending \<longleftrightarrow> (\<exists>l rest. after_label b pre = l # rest \<and> kept rest = []))"

lemma fold_update: "map_of (fold (\<lambda>l. AList.update l k) ls al) b = (if b \<in> set ls then Some k else map_of al b)"
  by (induction ls arbitrary: al) (auto simp: update_conv')

lemma after_label_snoc: "after_label b (pre @ [m]) =
    (case after_label b pre of
       [] \<Rightarrow> if is_label m \<and> am_id m = Some b then [m] else []
     | l # rest \<Rightarrow> l # rest @ [m])"
  by (induction pre) (auto simp: after_label_def)

lemma kept_snoc: "kept (ms @ [m]) = (if is_label m then kept ms else kept ms @ [m])"
  by (simp add: kept_def)

lemma after_label_head: "after_label b pre = l # rest \<Longrightarrow> is_label l \<and> am_id l = Some b \<and> l \<in> set pre"
  by (induction pre) (auto simp: after_label_def split: if_splits)

lemma clean_state_label:
  assumes "clean_state pre rep pend" "is_label m" "am_id m = Some k" "\<forall>x \<in> set pre. am_id x \<noteq> Some k"
  shows "clean_state (pre @ [m]) rep (pend @ [k])"
proof -
  have k: "after_label k pre = []"
    using after_label_head [of k pre] assms(4) by (cases "after_label k pre") auto
  show ?thesis
    using assms(1-3) k unfolding clean_state_def after_label_snoc
    by (auto simp: kept_snoc kept_def split: list.splits)
qed

lemma clean_state_kept:
  assumes "clean_state pre rep pend" "\<not> is_label m" "am_id m = Some k"
  shows "clean_state (pre @ [m]) (fold (\<lambda>l. AList.update l k) pend rep) []"
  using assms unfolding clean_state_def after_label_snoc fold_update
  by (auto simp: kept_snoc split: list.splits)

lemma after_label_rest: "after_label b pre = l # rest \<Longrightarrow> set rest \<subseteq> set pre"
  by (metis after_label_def set_dropWhileD set_subset_Cons subset_code(1) subset_trans)

lemma boundary_id:
  assumes "after_label b pre = l # rest" "\<forall>x \<in> set pre. am_id x \<noteq> None" "\<not> is_label m" "am_id m = Some k"
  shows "\<exists>i. am_id (hd (kept (rest @ [m]))) = Some i"
proof (cases "kept rest")
  case Nil
  then show ?thesis using assms(3,4) by (simp add: kept_snoc)
next
  case (Cons x xs)
  then have "x \<in> set rest" by (metis filter_is_subset kept_def list.set_intros(1) subsetD)
  then show ?thesis using assms(2,3) after_label_rest [OF assms(1)] Cons by (auto simp: kept_snoc)
qed

lemma clean_loop_spec:
  assumes "clean_state pre rep pend" "\<forall>x \<in> set (pre @ ms). \<exists>k. am_id x = Some k \<and> k \<noteq> []"
    and "distinct (map am_id (pre @ ms))"
  shows "clean_loop ms rep pend acc = acc @ clean_spec pre ms"
  using assms
proof (induction ms arbitrary: pre rep pend acc)
  case Nil
  then show ?case by simp
next
  case (Cons m ms)
  then obtain k where k: "am_id m = Some k" "k \<noteq> []" by auto
  have new: "\<forall>x \<in> set pre. am_id x \<noteq> Some k" using Cons.prems(3) k(1) by (auto simp: image_iff)
  have t: "truthy (am_id m)" using k by (simp add: truthy_def)
  show ?case
  proof (cases "is_label m")
    case True
    then show ?thesis
      using Cons.IH [OF clean_state_label [OF Cons.prems(1) True k(1) new]] Cons.prems(2,3) t k(1) by simp
  next
    case False
    let ?rep = "fold (\<lambda>l. AList.update l k) pend rep"
    note st = clean_state_kept [OF Cons.prems(1) False k(1)]
    have "map_of ?rep b = (case after_label b pre of [] \<Rightarrow> None | l # rest \<Rightarrow> am_id (hd (kept (rest @ [m]))))" for b
      using st False unfolding clean_state_def after_label_snoc
      by (auto simp: kept_snoc hd_append split: list.splits)
    then have "(if truthy (am_firstKeptEntryId m)
        then m\<lparr>am_firstKeptEntryId := Some (case map_of ?rep (the (am_firstKeptEntryId m)) of
                 Some b \<Rightarrow> b | None \<Rightarrow> the (am_firstKeptEntryId m))\<rparr>
        else m) = m\<lparr>am_firstKeptEntryId := boundary pre m\<rparr>"
      using boundary_id [of "the (am_firstKeptEntryId m)" pre _ _ m k] False Cons.prems(2) k(1)
      by (cases "after_label (the (am_firstKeptEntryId m)) pre") (fastforce simp: boundary_def truthy_def)+
    then show ?thesis
      using Cons.IH [OF st, of "acc @ [m\<lparr>am_firstKeptEntryId := boundary pre m\<rparr>]"] Cons.prems(2,3) t k(1) False
      by simp
  qed
qed

section \<open>Properties\<close>

text \<open>
  C16: the tree invariant holds of a new tree and is kept by every operation, whether it succeeds
  or throws: unique ids, parents present and inserted before their children (so no cycle), the
  children lists exactly the inverse of the parent links, and an active leaf that exists.
\<close>

theorem tree_invariant:
  "tree_inv emptyTree \<and>
   (tree_inv t \<longrightarrow> tree_inv (snd (addMessage ids now m parentId md t)) \<and> tree_inv (snd (selectLeaf i t)) \<and>
     tree_inv (snd (navigate i t)) \<and> tree_inv (snd (switchBranch i t)) \<and>
     tree_inv (snd (addBranchMarker ids now name hyp t)) \<and> tree_inv (clear t) \<and>
     (\<forall>t'. newTree ids msgs t = Ok t' \<longrightarrow> tree_inv t'))"
proof -
  have "tree_inv (snd (selectLeaf i t)) \<and> tree_inv (snd (navigate i t)) \<and> tree_inv (snd (switchBranch i t))"
    if "tree_inv t" using that moveLeaf_inv by (auto simp: selectLeaf_def navigate_def switchBranch_def)
  moreover have "tree_inv (snd (addBranchMarker ids now name hyp t))" if "tree_inv t"
    using that addBranchMarker_tree [of ids now name hyp t] addMessage_inv [OF that] by metis
  moreover have "tree_inv (clear t)" by (simp add: tree_inv_def clear_def nodes_inv_def parent_of_def)
  ultimately show ?thesis using emptyTree_inv addMessage_inv newTree_inv by blast
qed

text \<open>A tree for the witnesses: a root with two children, the second one a label.\<close>

definition demo_msg :: "nat \<Rightarrow> agent_message" where
  "demo_msg i = \<lparr>am_id = Some [i], am_role = [117], am_customType = None, am_content = JNull,
     am_firstKeptEntryId = None\<rparr>"

definition demo_tree :: session_tree where
  "demo_tree = snd (addMessage default_ids 0 (demo_msg 99) (Some (Some [97])) None
     (snd (addMessage default_ids 0 (demo_msg 98) None None
       (snd (addMessage default_ids 0 (demo_msg 97) None None emptyTree)))))"

lemma demo_tree_inv: "tree_inv demo_tree"
  unfolding demo_tree_def by (intro addMessage_inv emptyTree_inv)

lemma demo_tree_nodes: "map_of (st_nodes demo_tree) [i] \<noteq> None \<longleftrightarrow> i \<in> {97, 98, 99}"
    "parent_of (st_nodes demo_tree) [98] = Some [97]" "parent_of (st_nodes demo_tree) [99] = Some [97]"
    "parent_of (st_nodes demo_tree) [97] = None"
  by (auto simp: demo_tree_def addMessage_def emptyTree_def truthy_def update_node_def demo_msg_def parent_of_def Let_def)

theorem tree_invariant_witness: "tree_inv (snd (navigate [98] demo_tree))"
  using tree_invariant [of demo_tree] demo_tree_inv by blast

text \<open>
  C17: a message that \<open>addMessage\<close> accepts gets an id that was not in the tree, extends the history
  of its parent (by default the active leaf) by itself, becomes the active leaf, and changes no
  other history. \<open>getHistory\<close> always returns.
\<close>

theorem addMessage_history:
  assumes "tree_inv t" and "addMessage ids now m parentId md t = (Ok i, t')"
    and "p = (case parentId of Some q \<Rightarrow> q | None \<Rightarrow> st_currentLeafId t)" and "i \<noteq> []"
  shows "getNode i t = None \<and> st_currentLeafId t' = Some i \<and> st_revision t' = st_revision t + 1 \<and>
    (\<exists>h. (if truthy p then getHistory p t = Some h else h = []) \<and>
       getHistory (Some i) t' = Some (h @ [m\<lparr>am_id := Some i\<rparr>]) \<and>
       getHistory None t' = Some (h @ [m\<lparr>am_id := Some i\<rparr>])) \<and>
    (\<forall>k n. getNode k t = Some n \<longrightarrow> k \<noteq> [] \<longrightarrow>
       getHistory (Some k) t' = getHistory (Some k) t \<and> getHistory (Some k) t \<noteq> None)"
proof -
  from assms(1,2) obtain n where n: "insertable (st_nodes t) n" "tn_id n = i" "st_nodes t' = inserted n (st_nodes t)"
    "tn_parentId n = p" "tn_message n = m\<lparr>am_id := Some i\<rparr>" "st_currentLeafId t' = Some i"
    "st_revision t' = st_revision t + 1"
    by (rule addMessage_insertable) (use assms(3) in blast)
  have inv': "tree_inv t'" using addMessage_inv [OF assms(1), of ids now m parentId md] assms(2) by simp
  have new: "map_of (st_nodes t') i = Some n" using n by (simp add: inserted_lookup)
  have "getHistory (Some i) t' = Some (messages_at (st_nodes t') i)"
    using getHistory_at [OF inv' new assms(4)] .
  also have "messages_at (st_nodes t') i =
      (if truthy p then messages_at (st_nodes t) (the p) else []) @ [m\<lparr>am_id := Some i\<rparr>]"
    using inserted_messages_new [OF n(1)] n by simp
  finally have h: "getHistory (Some i) t' = Some ((if truthy p then messages_at (st_nodes t) (the p) else []) @
      [m\<lparr>am_id := Some i\<rparr>])" .
  have "getHistory p t = Some (messages_at (st_nodes t) (the p))" if tp: "truthy p"
  proof -
    obtain k where k: "p = Some k" "k \<noteq> []" using tp by (cases p) (auto simp: truthy_def)
    then obtain q where "map_of (st_nodes t) k = Some q" using n(1,4) by (auto simp: insertable_def)
    then show ?thesis using getHistory_at [OF assms(1) _ k(2)] k(1) by simp
  qed
  moreover have "getHistory None t' = getHistory (Some i) t'"
    using n(6) by (simp add: getHistory_def target_of_def)
  moreover have "getHistory (Some k) t' = getHistory (Some k) t \<and> getHistory (Some k) t \<noteq> None"
    if k: "getNode k t = Some q" "k \<noteq> []" for k q
  proof -
    have q: "map_of (st_nodes t) k = Some q" using k(1) by (simp add: getNode_def)
    then have old: "k \<in> set (map fst (st_nodes t))" by (metis key_lookup list.set_map)
    have "k \<noteq> tn_id n" using insertable_new [OF n(1) old] .
    then have "map_of (st_nodes t') k \<noteq> None"
      using q n(3) inserted_lookup [OF n(1), of k] by (cases "hangs_on n k") simp_all
    then obtain q' where "map_of (st_nodes t') k = Some q'" by blast
    then show ?thesis
      using getHistory_at [OF inv' _ k(2)] getHistory_at [OF assms(1) q k(2)] inserted_messages [OF n(1) old] n(3)
      by simp
  qed
  moreover have "getNode i t = None" using n(1,2) by (simp add: getNode_def insertable_def)
  ultimately show ?thesis using h n(6,7) by auto
qed

theorem addMessage_history_witness:
  "\<exists>h. getHistory (Some [98]) demo_tree = Some h \<and>
     getHistory None (snd (addMessage default_ids 0 (demo_msg 100) (Some (Some [98])) None demo_tree)) =
       Some (h @ [demo_msg 100])"
proof -
  have "fst (addMessage default_ids 0 (demo_msg 100) (Some (Some [98])) None demo_tree) = Ok [100]"
    using demo_tree_nodes(1) [of 100] demo_tree_nodes(1) [of 98]
    by (simp add: addMessage_def demo_msg_def truthy_def Let_def)
  then have "addMessage default_ids 0 (demo_msg 100) (Some (Some [98])) None demo_tree =
      (Ok [100], snd (addMessage default_ids 0 (demo_msg 100) (Some (Some [98])) None demo_tree))"
    by (metis prod.collapse)
  from addMessage_history [OF demo_tree_inv this refl] show ?thesis
    by (auto simp: truthy_def demo_msg_def)
qed

text \<open>
  C34: \<open>getHistoryDelta\<close> is exact. When the previous head is on the target's path, the previous
  history with the delta appended is the target's history and no reset is asked for; otherwise
  the delta is the whole history, to be rebuilt unless there was no previous head.
\<close>

theorem history_delta_exact:
  assumes "tree_inv t" and "getNode k t = Some n" and "k \<noteq> []"
  shows "\<exists>d h. getHistoryDelta prev (Some k) t = Some d \<and> getHistory (Some k) t = Some h \<and>
    hd_headId d = Some k \<and>
    (if \<exists>a ha. prev = Some a \<and> a \<noteq> [] \<and> a \<in> set (tree.path (st_nodes t) k)
     then \<not> hd_reset d \<and> (\<exists>ha. getHistory prev t = Some ha \<and> h = ha @ hd_messages d)
     else prev \<noteq> Some [] \<longrightarrow> hd_messages d = h \<and> hd_reset d = (prev \<noteq> None))"
proof -
  have inv: "nodes_inv (st_nodes t)" using assms(1) by (simp add: tree_inv_def)
  have n: "map_of (st_nodes t) k = Some n" using assms(2) by (simp add: getNode_def)
  let ?path = "tree.path (st_nodes t) k" and ?msg = "\<lambda>i. tn_message (the (map_of (st_nodes t) i))"
  have h: "getHistory (Some k) t = Some (rev (map ?msg ?path))"
    using getHistory_at [OF assms(1) n assms(3)] by (simp add: messages_at_path)
  define d where "d = \<lparr>hd_headId = Some k, hd_messages = rev (map ?msg (takeWhile (\<lambda>i. Some i \<noteq> prev) ?path)),
      hd_reset = (if prev \<in> Some ` set ?path then False else prev \<noteq> None)\<rparr>"
  have d: "getHistoryDelta prev (Some k) t = Some d"
    using delta_loop_path [OF inv n, of prev "[]"] n assms(3)
    by (simp add: getHistoryDelta_def target_of_def truthy_def d_def)
  show ?thesis
  proof (cases "\<exists>a. prev = Some a \<and> a \<noteq> [] \<and> a \<in> set ?path")
    case True
    then obtain a where a: "prev = Some a" "a \<noteq> []" "a \<in> set ?path" by blast
    obtain xs where xs: "?path = xs @ tree.path (st_nodes t) a" "a \<notin> set xs"
      using tree.path_suffix [OF inv a(3)] by blast
    have "takeWhile (\<lambda>i. Some i \<noteq> prev) ?path = xs"
      using xs a(1) tree.path_unfold [OF inv, of a] by (auto simp: takeWhile_append)
    moreover obtain na where "map_of (st_nodes t) a = Some na"
      using path_present [OF inv, of k] n a(3) by (metis key_lookup list.set_map subsetD)
    then have "getHistory prev t = Some (rev (map ?msg (tree.path (st_nodes t) a)))"
      using getHistory_at [OF assms(1) _ a(2)] a(1) by (simp add: messages_at_path)
    ultimately show ?thesis using a d h xs(1) by (auto simp: d_def)
  next
    case False
    then have tw: "takeWhile (\<lambda>i. Some i \<noteq> prev) ?path = ?path" if "prev \<noteq> Some []"
      using that by (auto simp: takeWhile_eq_all_conv)
    have "hd_messages d = rev (map ?msg ?path) \<and> hd_reset d = (prev \<noteq> None)" if "prev \<noteq> Some []"
      using False that tw [OF that] unfolding d_def by (simp only: history_delta.simps) auto
    then show ?thesis using False d h by (auto simp: d_def)
  qed
qed

theorem history_delta_exact_witness:
  "\<exists>d h. getHistoryDelta (Some [97]) (Some [98]) demo_tree = Some d \<and> getHistory (Some [98]) demo_tree = Some h \<and>
    \<not> hd_reset d \<and> (\<exists>ha. getHistory (Some [97]) demo_tree = Some ha \<and> h = ha @ hd_messages d)"
proof -
  have inv: "nodes_inv (st_nodes demo_tree)" using demo_tree_inv by (simp add: tree_inv_def)
  obtain n where "getNode [98] demo_tree = Some n" using demo_tree_nodes(1) [of 98] by (auto simp: getNode_def)
  moreover have "[97] \<in> set (tree.path (st_nodes demo_tree) [98])"
    using tree.path_unfold [OF inv, of "[98]"] tree.self_in_path [OF inv, of "[97]"] demo_tree_nodes(2) by simp
  ultimately show ?thesis using history_delta_exact [OF demo_tree_inv, of "[98]" n "Some [97]"] by auto
qed

text \<open>
  C29: \<open>findCommonAncestor\<close> of two nodes of the tree returns their lowest common ancestor: a node on
  both paths to the root, below every other common one; and \<open>null\<close> exactly when there is none.
\<close>

theorem common_ancestor_lowest:
  assumes "tree_inv t" and "getNode a t = Some na" and "getNode b t = Some nb"
  shows "\<exists>pa pb r. getPathToRoot a t = Some pa \<and> getPathToRoot b t = Some pb \<and> findCommonAncestor a b t = Some r \<and>
    (case r of
       None \<Rightarrow> set pa \<inter> set pb = {}
     | Some m \<Rightarrow> m \<in> set pa \<inter> set pb \<and>
         (\<exists>pm. getPathToRoot m t = Some pm \<and> set pa \<inter> set pb \<subseteq> set pm))"
proof -
  have inv: "nodes_inv (st_nodes t)" using assms(1) by (simp add: tree_inv_def)
  let ?path = "tree.path (st_nodes t)"
  have a: "map_of (st_nodes t) a = Some na" "map_of (st_nodes t) b = Some nb"
    using assms(2,3) by (simp_all add: getNode_def)
  have p: "getPathToRoot k t = Some (?path k)" if "map_of (st_nodes t) k = Some n" for k n
    using path_loop_path [OF inv that, of "[]"] that by (simp add: getPathToRoot_def)
  show ?thesis
  proof (cases "a = b")
    case True
    then show ?thesis using a p tree.self_in_path [OF inv] by (auto simp: findCommonAncestor_def)
  next
    case False
    then have r: "findCommonAncestor a b t = Some (tree.lca (st_nodes t) a b)"
      using a p [OF a(1)] ancestor_loop_path [OF inv a(2), of "set (?path a)"]
      by (simp add: findCommonAncestor_def tree.lca_def)
    show ?thesis
    proof (cases "tree.lca (st_nodes t) a b")
      case None
      then show ?thesis using r a p tree.lca_None [of "st_nodes t" a b] by auto
    next
      case (Some m)
      note l = tree.lca_deepest [OF inv Some]
      have "m \<in> set (map fst (st_nodes t))"
        using l path_present [OF inv, of a] a(1) by (metis key_lookup list.set_map subsetD)
      then obtain nm where "map_of (st_nodes t) m = Some nm" by (metis key_lookup list.set_map)
      then show ?thesis using r a p l Some by auto
    qed
  qed
qed

theorem common_ancestor_lowest_witness:
  "\<exists>pa pb r. getPathToRoot [98] demo_tree = Some pa \<and> getPathToRoot [99] demo_tree = Some pb \<and>
     findCommonAncestor [98] [99] demo_tree = Some r \<and>
     (case r of None \<Rightarrow> set pa \<inter> set pb = {}
      | Some m \<Rightarrow> m \<in> set pa \<inter> set pb \<and>
          (\<exists>pm. getPathToRoot m demo_tree = Some pm \<and> set pa \<inter> set pb \<subseteq> set pm))"
proof -
  obtain na nb where "getNode [98] demo_tree = Some na" "getNode [99] demo_tree = Some nb"
    using demo_tree_nodes(1) [of 98] demo_tree_nodes(1) [of 99] by (auto simp: getNode_def)
  then show ?thesis by (rule common_ancestor_lowest [OF demo_tree_inv])
qed

text \<open>
  C36: the clean history is the history without the label messages, in order and otherwise
  unchanged, except that a compaction boundary that named a removed label names the first kept
  message after it: no boundary is left dangling on a label before it.
\<close>

theorem clean_history_path:
  assumes "tree_inv t" and "getNode k t = Some n" and "k \<noteq> []"
    and "[] \<notin> set (tree.path (st_nodes t) k)"
  shows "\<exists>h. getHistory (Some k) t = Some h \<and> getCleanHistoryPath (Some k) t = Some (clean_spec [] h)"
proof -
  have inv: "nodes_inv (st_nodes t)" using assms(1) by (simp add: tree_inv_def)
  have n: "map_of (st_nodes t) k = Some n" using assms(2) by (simp add: getNode_def)
  let ?h = "messages_at (st_nodes t) k"
  have h: "getHistory (Some k) t = Some ?h" using getHistory_at [OF assms(1) n assms(3)] .
  have ids: "map am_id ?h = rev (map Some (tree.path (st_nodes t) k))"
  proof -
    have "am_id (tn_message (the (map_of (st_nodes t) j))) = Some j" if "j \<in> set (tree.path (st_nodes t) k)" for j
    proof -
      have "j \<in> set (map fst (st_nodes t))"
        using that path_present [OF inv, of k] n by (metis key_lookup list.set_map subsetD)
      then obtain m where "map_of (st_nodes t) j = Some m" by (metis key_lookup list.set_map)
      then show ?thesis using inv by (simp add: nodes_inv_def)
    qed
    then show ?thesis by (simp add: messages_at_path rev_map comp_def)
  qed
  have "\<exists>i. am_id x = Some i \<and> i \<noteq> []" if "x \<in> set ?h" for x
  proof -
    have "am_id x \<in> set (map am_id ?h)" using that by simp
    then show ?thesis using assms(4) unfolding ids by auto
  qed
  moreover have "distinct (map am_id ([] @ ?h))"
    using ids tree.path_distinct [OF inv, of k] by (simp add: distinct_map)
  moreover have "clean_state [] [] []" by (simp add: clean_state_def after_label_def)
  ultimately have "clean_loop ?h [] [] [] = clean_spec [] ?h"
    using clean_loop_spec [of "[]" "[]" "[]" ?h "[]"] by auto
  then show ?thesis using h by (simp add: getCleanHistoryPath_def)
qed

theorem clean_history_path_witness:
  "\<exists>h. getHistory (Some [98]) demo_tree = Some h \<and> getCleanHistoryPath (Some [98]) demo_tree = Some (clean_spec [] h)"
proof -
  have inv: "nodes_inv (st_nodes demo_tree)" using demo_tree_inv by (simp add: tree_inv_def)
  obtain n where n: "getNode [98] demo_tree = Some n" using demo_tree_nodes(1) [of 98] by (auto simp: getNode_def)
  have "[] \<notin> set (tree.path (st_nodes demo_tree) [98])"
    using tree.path_unfold [OF inv, of "[98]"] tree.path_unfold [OF inv, of "[97]"] demo_tree_nodes by simp
  then show ?thesis using clean_history_path [OF demo_tree_inv n] by simp
qed

end
