(* ===== verification/PriorityQueue.thy ===== *)
theory PriorityQueue
  imports Utf8 "HOL-Library.Multiset"
begin

text \<open>
  \<open>ScheduledPriorityQueue\<close> of \<open>packages/agent-core/src/lifecycle/scheduler.ts\<close>: a binary heap in an
  array, with a map from the id of an entry to its index so that an entry can be removed from the
  middle. \<open>key\<close> is the id of an entry and \<open>cmp\<close> the comparison given to the constructor. What a
  comparison has to satisfy is the locale \<open>comparison\<close>, in which the heap is proved correct.
\<close>

record 'a pqueue =
  pq_entries :: "'a list"
  pq_positions :: "jstring \<Rightarrow> nat option"

section \<open>Operations\<close>

definition newQueue :: "'a pqueue" where
  "newQueue = \<lparr>pq_entries = [], pq_positions = Map.empty\<rparr>"

definition parentIndex :: "nat \<Rightarrow> nat" where
  "parentIndex index = (index - 1) div 2"

definition pq_peek :: "'a pqueue \<Rightarrow> 'a option" where
  "pq_peek q = (case pq_entries q of [] \<Rightarrow> None | x # _ \<Rightarrow> Some x)"

definition pq_swap :: "('a \<Rightarrow> jstring) \<Rightarrow> nat \<Rightarrow> nat \<Rightarrow> 'a pqueue \<Rightarrow> 'a pqueue" where
  "pq_swap key left right q =
     (let leftEntry = pq_entries q ! left; rightEntry = pq_entries q ! right
      in \<lparr>pq_entries = (pq_entries q)[left := rightEntry, right := leftEntry],
          pq_positions = (pq_positions q)(key leftEntry \<mapsto> right, key rightEntry \<mapsto> left)\<rparr>)"

function siftUp :: "('a \<Rightarrow> jstring) \<Rightarrow> ('a \<Rightarrow> 'a \<Rightarrow> int) \<Rightarrow> nat \<Rightarrow> 'a pqueue \<Rightarrow> 'a pqueue" where
  "siftUp key cmp index q =
     (if index > 0
      then let parent = parentIndex index
           in if cmp (pq_entries q ! index) (pq_entries q ! parent) \<ge> 0 then q
              else siftUp key cmp parent (pq_swap key index parent q)
      else q)"
  by pat_completeness auto
termination
  by (relation "measure (\<lambda>(key, cmp, index, q). index)") (auto simp: parentIndex_def)

declare siftUp.simps [simp del]

definition sift_first :: "('a \<Rightarrow> 'a \<Rightarrow> int) \<Rightarrow> nat \<Rightarrow> 'a list \<Rightarrow> nat" where
  "sift_first cmp index es =
     (let left = index * 2 + 1;
          right = left + 1;
          first = (if left < length es \<and> cmp (es ! left) (es ! index) < 0 then left else index)
      in if right < length es \<and> cmp (es ! right) (es ! first) < 0 then right else first)"

lemma sift_first_cases:
  "sift_first cmp i es \<noteq> i \<Longrightarrow> i < sift_first cmp i es \<and> sift_first cmp i es < length es"
  by (auto simp: sift_first_def Let_def split: if_splits)

lemma length_pq_swap [simp]: "length (pq_entries (pq_swap key i j q)) = length (pq_entries q)"
  by (simp add: pq_swap_def Let_def)

function siftDown :: "('a \<Rightarrow> jstring) \<Rightarrow> ('a \<Rightarrow> 'a \<Rightarrow> int) \<Rightarrow> nat \<Rightarrow> 'a pqueue \<Rightarrow> 'a pqueue" where
  "siftDown key cmp index q =
     (let first = sift_first cmp index (pq_entries q)
      in if first = index then q else siftDown key cmp first (pq_swap key index first q))"
  by pat_completeness auto
termination
  by (relation "measure (\<lambda>(key, cmp, index, q). length (pq_entries q) - index)")
    (use sift_first_cases in \<open>fastforce simp: Let_def\<close>)+

declare siftDown.simps [simp del]

definition pq_push :: "('a \<Rightarrow> jstring) \<Rightarrow> ('a \<Rightarrow> 'a \<Rightarrow> int) \<Rightarrow> 'a \<Rightarrow> 'a pqueue \<Rightarrow> 'a pqueue" where
  "pq_push key cmp record q =
     (if pq_positions q (key record) \<noteq> None then q
      else let index = length (pq_entries q)
           in siftUp key cmp index
                \<lparr>pq_entries = pq_entries q @ [record], pq_positions = (pq_positions q)(key record \<mapsto> index)\<rparr>)"

definition removeAt :: "('a \<Rightarrow> jstring) \<Rightarrow> ('a \<Rightarrow> 'a \<Rightarrow> int) \<Rightarrow> nat \<Rightarrow> 'a pqueue \<Rightarrow> 'a option \<times> 'a pqueue" where
  "removeAt key cmp index q =
     (if index \<ge> length (pq_entries q) then (None, q)
      else let removed = pq_entries q ! index;
               final = last (pq_entries q);
               q1 = \<lparr>pq_entries = butlast (pq_entries q), pq_positions = (pq_positions q)(key removed := None)\<rparr>
           in (Some removed,
               if index < length (pq_entries q1)
               then let q2 = \<lparr>pq_entries = (pq_entries q1)[index := final],
                              pq_positions = (pq_positions q1)(key final \<mapsto> index)\<rparr>
                    in if index > 0 \<and> cmp (pq_entries q2 ! index) (pq_entries q2 ! parentIndex index) < 0
                       then siftUp key cmp index q2
                       else siftDown key cmp index q2
               else q1))"

definition pq_pop :: "('a \<Rightarrow> jstring) \<Rightarrow> ('a \<Rightarrow> 'a \<Rightarrow> int) \<Rightarrow> 'a pqueue \<Rightarrow> 'a option \<times> 'a pqueue" where
  "pq_pop key cmp q = removeAt key cmp 0 q"

definition pq_remove :: "('a \<Rightarrow> jstring) \<Rightarrow> ('a \<Rightarrow> 'a \<Rightarrow> int) \<Rightarrow> jstring \<Rightarrow> 'a pqueue \<Rightarrow> bool \<times> 'a pqueue" where
  "pq_remove key cmp i q =
     (case pq_positions q i of
        None \<Rightarrow> (False, q)
      | Some index \<Rightarrow> (True, snd (removeAt key cmp index q)))"

lemma length_siftUp [simp]: "length (pq_entries (siftUp key cmp i q)) = length (pq_entries q)"
  by (induction key cmp i q rule: siftUp.induct) (subst siftUp.simps, simp add: Let_def)

lemma length_siftDown [simp]: "length (pq_entries (siftDown key cmp i q)) = length (pq_entries q)"
  by (induction key cmp i q rule: siftDown.induct) (subst siftDown.simps, simp add: Let_def)

lemma removeAt_shorter:
  "i < length (pq_entries q) \<Longrightarrow> length (pq_entries (snd (removeAt key cmp i q))) < length (pq_entries q)"
  by (auto simp: removeAt_def Let_def)

section \<open>Positions\<close>

text \<open>The map gives exactly the index of each entry; so ids are distinct.\<close>

definition positions_ok :: "('a \<Rightarrow> jstring) \<Rightarrow> 'a pqueue \<Rightarrow> bool" where
  "positions_ok key q \<longleftrightarrow>
     (\<forall>k i. pq_positions q k = Some i \<longleftrightarrow> i < length (pq_entries q) \<and> key (pq_entries q ! i) = k)"

lemma positions_distinct: "positions_ok key q \<Longrightarrow> i < length (pq_entries q) \<Longrightarrow> j < length (pq_entries q) \<Longrightarrow>
    key (pq_entries q ! i) = key (pq_entries q ! j) \<Longrightarrow> i = j"
  unfolding positions_ok_def by (metis option.inject)

lemma positions_key:
  assumes "positions_ok key q"
  shows "pq_positions q k \<noteq> None \<longleftrightarrow> k \<in> key ` set (pq_entries q)"
proof -
  have "pq_positions q k \<noteq> None \<longleftrightarrow> (\<exists>i. pq_positions q k = Some i)" by simp
  also have "\<dots> \<longleftrightarrow> (\<exists>i < length (pq_entries q). key (pq_entries q ! i) = k)"
    using assms by (simp add: positions_ok_def)
  also have "\<dots> \<longleftrightarrow> k \<in> key ` set (pq_entries q)" by (auto simp: set_conv_nth)
  finally show ?thesis .
qed

definition transpose_index :: "nat \<Rightarrow> nat \<Rightarrow> nat \<Rightarrow> nat" where
  "transpose_index i j n = (if n = i then j else if n = j then i else n)"

lemma swap_entries: "i < length (pq_entries q) \<Longrightarrow> j < length (pq_entries q) \<Longrightarrow> n < length (pq_entries q) \<Longrightarrow>
    pq_entries (pq_swap key i j q) ! n = pq_entries q ! transpose_index i j n"
  by (simp add: pq_swap_def Let_def nth_list_update transpose_index_def)

lemma swap_positions: "pq_positions (pq_swap key i j q) k =
    (if k = key (pq_entries q ! j) then Some i else if k = key (pq_entries q ! i) then Some j else pq_positions q k)"
  by (simp add: pq_swap_def Let_def)

lemma transpose_less: "i < m \<Longrightarrow> j < m \<Longrightarrow> transpose_index i j n < m \<longleftrightarrow> n < m"
  by (simp add: transpose_index_def)

lemma positions_swap:
  assumes "positions_ok key q" "i < length (pq_entries q)" "j < length (pq_entries q)" "i \<noteq> j"
  shows "positions_ok key (pq_swap key i j q)"
proof -
  let ?es = "pq_entries q"
  have pk: "pq_positions q k = Some m \<longleftrightarrow> m < length ?es \<and> key (?es ! m) = k" for m k
    using assms(1) by (simp add: positions_ok_def)
  have ne: "key (?es ! i) \<noteq> key (?es ! j)"
    using positions_distinct [OF assms(1-3)] assms(4) by blast
  have pi: "pq_positions q (key (?es ! i)) = Some i" and pj: "pq_positions q (key (?es ! j)) = Some j"
    unfolding pk using assms(2,3) by simp_all
  have main: "pq_positions (pq_swap key i j q) k = Some n \<longleftrightarrow> pq_positions q k = Some (transpose_index i j n)" for k n
  proof -
    consider "k = key (?es ! i)" | "k = key (?es ! j)" | "k \<noteq> key (?es ! i)" "k \<noteq> key (?es ! j)" by blast
    then show ?thesis
    proof cases
      case 1
      show ?thesis unfolding 1 swap_positions pi using ne assms(4) by (auto simp: transpose_index_def)
    next
      case 2
      show ?thesis unfolding 2 swap_positions pj using ne assms(4) by (auto simp: transpose_index_def)
    next
      case 3
      then have "pq_positions q k \<noteq> Some i" "pq_positions q k \<noteq> Some j" unfolding pk by auto
      then show ?thesis unfolding swap_positions using 3 by (auto simp: transpose_index_def)
    qed
  qed
  have "pq_positions (pq_swap key i j q) k = Some n \<longleftrightarrow>
      n < length ?es \<and> key (pq_entries (pq_swap key i j q) ! n) = k" for k n
    unfolding main pk transpose_less [OF assms(2,3)] using swap_entries [OF assms(2,3), of n key] by auto
  then show ?thesis by (simp add: positions_ok_def)
qed

lemma mset_swap [simp]: "i < length (pq_entries q) \<Longrightarrow> j < length (pq_entries q) \<Longrightarrow>
    mset (pq_entries (pq_swap key i j q)) = mset (pq_entries q)"
  by (simp add: pq_swap_def Let_def mset_swap)

lemma siftUp_keeps:
  "positions_ok key q \<Longrightarrow> i < length (pq_entries q) \<Longrightarrow>
     positions_ok key (siftUp key cmp i q) \<and> mset (pq_entries (siftUp key cmp i q)) = mset (pq_entries q)"
proof (induction key cmp i q rule: siftUp.induct)
  case (1 key cmp index q)
  have p: "index > 0 \<Longrightarrow> parentIndex index < index" by (auto simp: parentIndex_def)
  show ?case
    using "1.IH" [OF _ refl] "1.prems" p positions_swap [OF "1.prems", of "parentIndex index"]
    by (subst (1 2) siftUp.simps) (auto simp: Let_def)
qed

lemma siftDown_keeps:
  "positions_ok key q \<Longrightarrow> i < length (pq_entries q) \<Longrightarrow>
     positions_ok key (siftDown key cmp i q) \<and> mset (pq_entries (siftDown key cmp i q)) = mset (pq_entries q)"
proof (induction key cmp i q rule: siftDown.induct)
  case (1 key cmp index q)
  show ?case
    using "1.IH" [OF refl] "1.prems" sift_first_cases [of cmp index "pq_entries q"]
      positions_swap [OF "1.prems", of "sift_first cmp index (pq_entries q)"]
    by (subst (1 2) siftDown.simps) (auto simp: Let_def)
qed

section \<open>The heap\<close>

text \<open>A comparison in the sense of the queue: a total preorder given by signs.\<close>

locale comparison =
  fixes cmp :: "'a \<Rightarrow> 'a \<Rightarrow> int"
  assumes cmp_trans: "cmp a b \<le> 0 \<Longrightarrow> cmp b c \<le> 0 \<Longrightarrow> cmp a c \<le> 0"
    and cmp_total: "cmp a b \<ge> 0 \<Longrightarrow> cmp b a \<le> 0"
    and cmp_strict: "cmp a b < 0 \<Longrightarrow> cmp b a > 0"
begin

lemma cmp_refl: "cmp a a \<le> 0"
  using cmp_total [of a a] by linarith

definition ordered_at :: "'a list \<Rightarrow> nat \<Rightarrow> bool" where
  "ordered_at es j \<longleftrightarrow> cmp (es ! parentIndex j) (es ! j) \<le> 0"

definition heap :: "'a list \<Rightarrow> bool" where
  "heap es \<longleftrightarrow> (\<forall>j. 0 < j \<longrightarrow> j < length es \<longrightarrow> ordered_at es j)"

text \<open>A heap but for the entry at \<open>i\<close>, which may be smaller than its parent, or larger than its children.\<close>

definition heap_above :: "nat \<Rightarrow> 'a list \<Rightarrow> bool" where
  "heap_above i es \<longleftrightarrow> (\<forall>j. 0 < j \<longrightarrow> j < length es \<longrightarrow> j \<noteq> i \<longrightarrow> ordered_at es j) \<and>
     (\<forall>c. 0 < c \<longrightarrow> c < length es \<longrightarrow> parentIndex c = i \<longrightarrow> 0 < i \<longrightarrow> cmp (es ! parentIndex i) (es ! c) \<le> 0)"

definition heap_below :: "nat \<Rightarrow> 'a list \<Rightarrow> bool" where
  "heap_below i es \<longleftrightarrow> (\<forall>j. 0 < j \<longrightarrow> j < length es \<longrightarrow> parentIndex j \<noteq> i \<longrightarrow> ordered_at es j) \<and>
     (\<forall>c. 0 < c \<longrightarrow> c < length es \<longrightarrow> parentIndex c = i \<longrightarrow> 0 < i \<longrightarrow> cmp (es ! parentIndex i) (es ! c) \<le> 0)"

lemma parent_less: "0 < i \<Longrightarrow> parentIndex i < i"
  by (auto simp: parentIndex_def)

lemma parent_child: "0 < j \<Longrightarrow> parentIndex j = i \<longleftrightarrow> j = i * 2 + 1 \<or> j = i * 2 + 2"
  by (auto simp: parentIndex_def)

lemma swap_up:
  assumes h: "heap_above i es" and i: "0 < i" "i < length es" and lt: "cmp (es ! i) (es ! parentIndex i) < 0"
    and es': "length es' = length es" "\<And>n. n < length es \<Longrightarrow> es' ! n = es ! transpose_index i (parentIndex i) n"
  shows "heap_above (parentIndex i) es'"
proof -
  let ?p = "parentIndex i"
  have p: "?p < i" "?p < length es" using parent_less [OF i(1)] i(2) by simp_all
  have at: "es' ! i = es ! ?p" "es' ! ?p = es ! i" using es'(2) i(2) p by (auto simp: transpose_index_def)
  have other: "es' ! n = es ! n" if "n < length es" "n \<noteq> i" "n \<noteq> ?p" for n
    using es'(2) that by (simp add: transpose_index_def)
  have ord: "cmp (es ! parentIndex j) (es ! j) \<le> 0" if "0 < j" "j < length es" "j \<noteq> i" for j
    using h that by (simp add: heap_above_def ordered_at_def)
  have up: "cmp (es ! ?p) (es ! c) \<le> 0" if "0 < c" "c < length es" "parentIndex c = i" for c
    using h that i(1) by (simp add: heap_above_def)
  have "cmp (es' ! parentIndex j) (es' ! j) \<le> 0" if j: "0 < j" "j < length es" "j \<noteq> ?p" for j
  proof -
    have pj: "parentIndex j < length es" using parent_less [OF j(1)] j(2) by simp
    consider "j = i" | "j \<noteq> i" "parentIndex j = i" | "j \<noteq> i" "parentIndex j = ?p"
      | "j \<noteq> i" "parentIndex j \<noteq> i" "parentIndex j \<noteq> ?p" by blast
    then show ?thesis
    proof cases
      case 1
      then show ?thesis using lt at by simp
    next
      case 2
      then show ?thesis using up j at other by simp
    next
      case 3
      then have "cmp (es ! ?p) (es ! j) \<le> 0" using ord j by metis
      then show ?thesis using cmp_trans [of "es ! i" "es ! ?p" "es ! j"] lt at other j 3 by simp
    next
      case 4
      then show ?thesis using ord j other pj by simp
    qed
  qed
  moreover have "cmp (es' ! parentIndex ?p) (es' ! c) \<le> 0"
    if c: "0 < c" "c < length es" "parentIndex c = ?p" "0 < ?p" for c
  proof -
    have pp: "parentIndex ?p < ?p" using parent_less c(4) by simp
    have top: "cmp (es ! parentIndex ?p) (es ! ?p) \<le> 0" using ord [of ?p] c(4) p by simp
    have q: "es' ! parentIndex ?p = es ! parentIndex ?p" using other pp p by simp
    show ?thesis
    proof (cases "c = i")
      case True
      then show ?thesis using top q at by simp
    next
      case False
      have "c \<noteq> ?p" using parent_less [OF c(1)] c(3) by auto
      moreover have "cmp (es ! ?p) (es ! c) \<le> 0" using ord [of c] c False by simp
      ultimately show ?thesis using cmp_trans [OF top] q other c False by simp
    qed
  qed
  ultimately show ?thesis using es'(1) by (simp add: heap_above_def ordered_at_def)
qed

lemma siftUp_heap:
  "heap_above i (pq_entries q) \<Longrightarrow> i < length (pq_entries q) \<Longrightarrow> heap (pq_entries (siftUp key cmp i q))"
proof (induction i arbitrary: q rule: less_induct)
  case (less i)
  let ?es = "pq_entries q" and ?p = "parentIndex i"
  show ?case
  proof (cases "0 < i \<and> cmp (?es ! i) (?es ! ?p) < 0")
    case True
    then have "?p < i" "?p < length ?es" using parent_less [of i] less.prems(2) by auto
    moreover have "heap_above ?p (pq_entries (pq_swap key i ?p q))"
    proof (rule swap_up [OF less.prems(1)])
      show "pq_entries (pq_swap key i ?p q) ! n = ?es ! transpose_index i ?p n" if "n < length ?es" for n
        using swap_entries [of i q ?p n key] less.prems(2) that \<open>?p < length ?es\<close> by simp
    qed (use True less.prems in simp_all)
    ultimately have "heap (pq_entries (siftUp key cmp ?p (pq_swap key i ?p q)))"
      using less.IH by simp
    then show ?thesis using True by (subst siftUp.simps) (simp add: Let_def)
  next
    case False
    then have "siftUp key cmp i q = q" by (subst siftUp.simps) (auto simp: Let_def)
    moreover have "ordered_at ?es i" if "0 < i"
      using False that cmp_total [of "?es ! i" "?es ! ?p"] by (simp add: ordered_at_def)
    ultimately show ?thesis using less.prems(1) by (auto simp: heap_def heap_above_def)
  qed
qed

lemma sift_first_spec:
  assumes "i < length es"
  shows "sift_first cmp i es = i \<Longrightarrow> 0 < c \<Longrightarrow> c < length es \<Longrightarrow> parentIndex c = i \<Longrightarrow> cmp (es ! i) (es ! c) \<le> 0"
    and "sift_first cmp i es \<noteq> i \<Longrightarrow> parentIndex (sift_first cmp i es) = i \<and>
      cmp (es ! sift_first cmp i es) (es ! i) < 0 \<and>
      (\<forall>c. 0 < c \<longrightarrow> c < length es \<longrightarrow> parentIndex c = i \<longrightarrow> cmp (es ! sift_first cmp i es) (es ! c) \<le> 0)"
proof -
  have total: "\<not> cmp a b < 0 \<Longrightarrow> cmp b a \<le> 0" for a b using cmp_total [of a b] by linarith
  show "sift_first cmp i es = i \<Longrightarrow> 0 < c \<Longrightarrow> c < length es \<Longrightarrow> parentIndex c = i \<Longrightarrow> cmp (es ! i) (es ! c) \<le> 0"
    using total by (auto simp: sift_first_def Let_def parent_child split: if_splits)
  let ?l = "i * 2 + 1" and ?r = "i * 2 + 2"
  assume ne: "sift_first cmp i es \<noteq> i"
  have lt_trans: "cmp a b < 0 \<Longrightarrow> cmp b c < 0 \<Longrightarrow> cmp a c < 0" for a b c
    using total [of a c] cmp_trans [of b c a] cmp_strict [of a b] by linarith
  show "parentIndex (sift_first cmp i es) = i \<and> cmp (es ! sift_first cmp i es) (es ! i) < 0 \<and>
      (\<forall>c. 0 < c \<longrightarrow> c < length es \<longrightarrow> parentIndex c = i \<longrightarrow> cmp (es ! sift_first cmp i es) (es ! c) \<le> 0)"
  proof (cases "?l < length es \<and> cmp (es ! ?l) (es ! i) < 0")
    case True
    then show ?thesis
      using total [of "es ! ?r" "es ! ?l"] lt_trans [of "es ! ?r" "es ! ?l" "es ! i"] cmp_refl
      by (auto simp: sift_first_def Let_def parent_child)
  next
    case False
    then have "sift_first cmp i es = ?r" "cmp (es ! ?r) (es ! i) < 0" "?r < length es"
      using ne by (auto simp: sift_first_def Let_def split: if_splits)
    moreover have "cmp (es ! ?r) (es ! ?l) \<le> 0"
      using False calculation(3) total [of "es ! ?l" "es ! i"] cmp_trans [of "es ! ?r" "es ! i" "es ! ?l"] calculation(2)
      by auto
    ultimately show ?thesis using cmp_refl by (auto simp: parent_child)
  qed
qed

lemma swap_down:
  assumes h: "heap_below i es" and i: "i < length es" and f: "0 < f" "f < length es" "parentIndex f = i"
    and lt: "cmp (es ! f) (es ! i) < 0"
    and first: "\<And>c. 0 < c \<Longrightarrow> c < length es \<Longrightarrow> parentIndex c = i \<Longrightarrow> cmp (es ! f) (es ! c) \<le> 0"
    and es': "length es' = length es" "\<And>n. n < length es \<Longrightarrow> es' ! n = es ! transpose_index i f n"
  shows "heap_below f es'"
proof -
  have fi: "i < f" using parent_less [OF f(1)] f(3) by simp
  have at: "es' ! i = es ! f" "es' ! f = es ! i" using es'(2) i f(2) fi by (auto simp: transpose_index_def)
  have other: "es' ! n = es ! n" if "n < length es" "n \<noteq> i" "n \<noteq> f" for n
    using es'(2) that by (simp add: transpose_index_def)
  have ord: "cmp (es ! parentIndex j) (es ! j) \<le> 0" if "0 < j" "j < length es" "parentIndex j \<noteq> i" for j
    using h that by (simp add: heap_below_def ordered_at_def)
  have down: "cmp (es ! parentIndex i) (es ! c) \<le> 0" if "0 < c" "c < length es" "parentIndex c = i" "0 < i" for c
    using h that by (simp add: heap_below_def)
  have "cmp (es' ! parentIndex j) (es' ! j) \<le> 0" if j: "0 < j" "j < length es" "parentIndex j \<noteq> f" for j
  proof -
    have pj: "parentIndex j < j" using parent_less [OF j(1)] .
    consider "j = i" | "parentIndex j = i" "j = f" | "parentIndex j = i" "j \<noteq> f" | "j \<noteq> i" "parentIndex j \<noteq> i" by blast
    then show ?thesis
    proof cases
      case 1
      then show ?thesis using down [OF f] j at other [of "parentIndex i"] pj i by simp
    next
      case 2
      then show ?thesis using lt at by simp
    next
      case 3
      then show ?thesis using first [OF j(1,2)] at other [OF j(2)] pj by simp
    next
      case 4
      then have "j \<noteq> f" using f(3) by blast
      then show ?thesis using 4 ord j other [of "parentIndex j"] other [of j] pj by simp
    qed
  qed
  moreover have "cmp (es' ! parentIndex f) (es' ! c) \<le> 0" if c: "0 < c" "c < length es" "parentIndex c = f" for c
  proof -
    have "f < c" using parent_less [OF c(1)] c(3) by simp
    then show ?thesis using ord [OF c(1,2)] c fi f(3) at other [OF c(2)] by simp
  qed
  ultimately show ?thesis using es'(1) by (simp add: heap_below_def ordered_at_def)
qed

lemma siftDown_heap:
  "heap_below i (pq_entries q) \<Longrightarrow> i < length (pq_entries q) \<Longrightarrow> heap (pq_entries (siftDown key cmp i q))"
proof (induction "length (pq_entries q) - i" arbitrary: i q rule: less_induct)
  case less
  let ?es = "pq_entries q"
  let ?f = "sift_first cmp i ?es"
  note spec = sift_first_spec [OF less.prems(2)]
  show ?case
  proof (cases "?f = i")
    case True
    then have "siftDown key cmp i q = q" by (subst siftDown.simps) (simp add: Let_def)
    moreover have "ordered_at ?es j" if "0 < j" "j < length ?es" for j
      using less.prems(1) spec(1) [OF True that] that by (auto simp: heap_below_def ordered_at_def)
    ultimately show ?thesis by (simp add: heap_def)
  next
    case False
    note f = sift_first_cases [OF False] spec(2) [OF False]
    have "heap_below ?f (pq_entries (pq_swap key i ?f q))"
    proof (rule swap_down [OF less.prems])
      show "pq_entries (pq_swap key i ?f q) ! n = ?es ! transpose_index i ?f n" if "n < length ?es" for n
        using swap_entries [of i q ?f n key] less.prems(2) f(1) that by simp
    qed (use f in auto)
    moreover have "length ?es - ?f < length ?es - i" using f(1) by (simp add: diff_less_mono2)
    ultimately have "heap (pq_entries (siftDown key cmp ?f (pq_swap key i ?f q)))"
      using less.hyps [of "pq_swap key i ?f q" ?f] f(1) by simp
    then show ?thesis using False by (subst siftDown.simps) (simp add: Let_def)
  qed
qed

lemma heap_peek: "heap es \<Longrightarrow> x \<in> set es \<Longrightarrow> cmp (es ! 0) x \<le> 0"
proof -
  assume h: "heap es" and x: "x \<in> set es"
  have "j < length es \<Longrightarrow> cmp (es ! 0) (es ! j) \<le> 0" for j
  proof (induction j rule: less_induct)
    case (less j)
    show ?case
    proof (cases "j = 0")
      case True
      then show ?thesis using cmp_refl by simp
    next
      case False
      then have "parentIndex j < j" using parent_less by simp
      then show ?thesis
        using less h False cmp_trans [of "es ! 0" "es ! parentIndex j" "es ! j"]
        by (simp add: heap_def ordered_at_def)
    qed
  qed
  with x show ?thesis by (auto simp: in_set_conv_nth)
qed

text \<open>A queue in a reachable state.\<close>

definition pq_ok :: "('a \<Rightarrow> jstring) \<Rightarrow> 'a pqueue \<Rightarrow> bool" where
  "pq_ok key q \<longleftrightarrow> positions_ok key q \<and> heap (pq_entries q)"

lemma newQueue_ok: "pq_ok key newQueue"
  by (simp add: pq_ok_def positions_ok_def newQueue_def heap_def)

lemma pq_push_ok:
  assumes ok: "pq_ok key q"
  shows "pq_ok key (pq_push key cmp x q) \<and>
    mset (pq_entries (pq_push key cmp x q)) =
      (if key x \<in> key ` set (pq_entries q) then mset (pq_entries q) else add_mset x (mset (pq_entries q)))"
proof (cases "pq_positions q (key x)")
  case (Some i)
  then have "key x \<in> key ` set (pq_entries q)"
    using ok positions_key [of key q "key x"] by (simp add: pq_ok_def)
  then show ?thesis using ok Some by (simp add: pq_push_def)
next
  case None
  then have new: "key x \<notin> key ` set (pq_entries q)"
    using ok positions_key [of key q "key x"] by (simp add: pq_ok_def)
  let ?q = "\<lparr>pq_entries = pq_entries q @ [x], pq_positions = (pq_positions q)(key x \<mapsto> length (pq_entries q))\<rparr>"
  have "positions_ok key ?q"
    unfolding positions_ok_def
  proof (intro allI)
    fix k n
    have old: "pq_positions q k = Some n \<longleftrightarrow> n < length (pq_entries q) \<and> key (pq_entries q ! n) = k"
      using ok by (simp add: pq_ok_def positions_ok_def)
    show "(pq_positions ?q k = Some n) = (n < length (pq_entries ?q) \<and> key (pq_entries ?q ! n) = k)"
    proof (cases "k = key x")
      case True
      then have "key (pq_entries q ! n) \<noteq> k" if "n < length (pq_entries q)"
        using new that by (metis image_eqI nth_mem)
      then show ?thesis using True by (auto simp: nth_append)
    next
      case False
      then show ?thesis using old by (auto simp: nth_append)
    qed
  qed
  moreover have "heap_above (length (pq_entries q)) (pq_entries ?q)"
  proof -
    have "ordered_at (pq_entries ?q) j" if "0 < j" "j < length (pq_entries q)" for j
      using ok that parent_less [OF that(1)] by (simp add: heap_def ordered_at_def nth_append pq_ok_def)
    moreover have "parentIndex c \<noteq> length (pq_entries q)" if "0 < c" "c < length (pq_entries ?q)" for c
      using parent_less [OF that(1)] that(2) by simp
    ultimately show ?thesis by (auto simp: heap_above_def less_Suc_eq)
  qed
  ultimately show ?thesis
    using siftUp_keeps [of key ?q "length (pq_entries q)" cmp] siftUp_heap [of "length (pq_entries q)" ?q key] None new
    by (simp add: pq_push_def Let_def pq_ok_def)
qed

lemma heap_butlast: "heap es \<Longrightarrow> heap (butlast es)"
  unfolding heap_def ordered_at_def
proof (intro allI impI)
  fix j assume h: "\<forall>j>0. j < length es \<longrightarrow> cmp (es ! parentIndex j) (es ! j) \<le> 0" "0 < j" "j < length (butlast es)"
  then have "parentIndex j < j" "j < length es - 1" using parent_less by simp_all
  then show "cmp (butlast es ! parentIndex j) (butlast es ! j) \<le> 0" using h by (simp add: nth_butlast)
qed

text \<open>Putting \<open>x\<close> in place of the entry at \<open>i\<close> breaks the heap on one side only.\<close>

lemma heap_replace:
  assumes h: "heap es" and i: "i < length es"
  shows "0 < i \<and> cmp x (es ! parentIndex i) < 0 \<Longrightarrow> heap_above i (es[i := x])"
    and "\<not> (0 < i \<and> cmp x (es ! parentIndex i) < 0) \<Longrightarrow> heap_below i (es[i := x])"
proof -
  let ?es = "es[i := x]"
  have ord: "cmp (es ! parentIndex j) (es ! j) \<le> 0" if "0 < j" "j < length es" for j
    using h that by (simp add: heap_def ordered_at_def)
  have far: "ordered_at ?es j" if "0 < j" "j < length es" "j \<noteq> i" "parentIndex j \<noteq> i" for j
    using ord that by (simp add: ordered_at_def)
  have skip: "cmp (?es ! parentIndex i) (?es ! c) \<le> 0" if "0 < c" "c < length es" "parentIndex c = i" "0 < i" for c
  proof -
    have "c \<noteq> i" "parentIndex i \<noteq> i" using parent_less [of c] parent_less [of i] that by auto
    then show ?thesis using ord [OF that(1,2)] ord [OF that(4) i] that(3) cmp_trans by (metis nth_list_update_neq)
  qed
  show "heap_above i ?es" if lt: "0 < i \<and> cmp x (es ! parentIndex i) < 0"
  proof -
    have "ordered_at ?es j" if j: "0 < j" "j < length es" "j \<noteq> i" for j
    proof (cases "parentIndex j = i")
      case True
      then have "cmp x (es ! i) \<le> 0" "cmp (es ! i) (es ! j) \<le> 0"
        using lt ord [of i] ord [OF j(1,2)] i cmp_trans [of x "es ! parentIndex i" "es ! i"] by simp_all
      then show ?thesis using True j i cmp_trans by (simp add: ordered_at_def)
    qed (use far j in simp)
    then show ?thesis using skip by (simp add: heap_above_def)
  qed
  show "heap_below i ?es" if ge: "\<not> (0 < i \<and> cmp x (es ! parentIndex i) < 0)"
  proof -
    have "ordered_at ?es i" if "0 < i"
      using ge that i parent_less [OF that] cmp_total [of x "es ! parentIndex i"] by (simp add: ordered_at_def)
    then have "ordered_at ?es j" if "0 < j" "j < length es" "parentIndex j \<noteq> i" for j
      using far that by blast
    then show ?thesis using skip by (simp add: heap_below_def)
  qed
qed

lemma positions_remove:
  assumes ok: "positions_ok key q" and i: "i < length (pq_entries q)"
  shows "positions_ok key
    \<lparr>pq_entries = (butlast (pq_entries q))[i := last (pq_entries q)],
     pq_positions = (if i < length (pq_entries q) - 1
       then (pq_positions q)(key (pq_entries q ! i) := None, key (last (pq_entries q)) \<mapsto> i)
       else (pq_positions q)(key (pq_entries q ! i) := None))\<rparr>"
    (is "positions_ok key ?q")
proof -
  let ?es = "pq_entries q" and ?n = "length (pq_entries q) - 1"
  have es: "?es \<noteq> []" "last ?es = ?es ! ?n" "?n < length ?es" using i by (cases "pq_entries q" rule: rev_cases; simp)+
  have pk: "pq_positions q k = Some m \<longleftrightarrow> m < length ?es \<and> key (?es ! m) = k" for m k
    using ok by (simp add: positions_ok_def)
  note dist = positions_distinct [OF ok]
  have ent: "pq_entries ?q ! m = ?es ! (if m = i then ?n else m)" if "m < ?n" for m
    using that es(2) by (simp add: nth_list_update nth_butlast)
  have main: "pq_positions ?q k = Some m \<longleftrightarrow> m < ?n \<and> key (?es ! (if m = i then ?n else m)) = k" for k m
  proof (cases "i < ?n")
    case True
    have "pq_positions ?q k = Some m \<longleftrightarrow>
        (if k = key (?es ! ?n) then m = i else k \<noteq> key (?es ! i) \<and> m < length ?es \<and> key (?es ! m) = k)"
      using True es(2) pk by auto
    also have "\<dots> \<longleftrightarrow> m < ?n \<and> key (?es ! (if m = i then ?n else m)) = k"
    proof (cases "m = i")
      case True
      then show ?thesis using \<open>i < ?n\<close> by auto
    next
      case False
      have "m < length ?es \<longleftrightarrow> m < ?n \<or> m = ?n" using es(3) by linarith
      moreover have "key (?es ! m) \<noteq> key (?es ! i)" if "m < length ?es" using dist [OF that i] False by blast
      moreover have "key (?es ! m) \<noteq> key (?es ! ?n)" if "m < ?n" using dist [of m ?n] that es(3) by force
      ultimately show ?thesis using False by auto
    qed
    finally show ?thesis .
  next
    case False
    then have i': "i = ?n" using i by linarith
    have "m < length ?es \<longleftrightarrow> m < ?n \<or> m = ?n" using es(3) by linarith
    moreover have "key (?es ! m) \<noteq> key (?es ! ?n)" if "m < ?n" using dist [of m ?n] that es(3) by force
    ultimately show ?thesis using i' pk by auto
  qed
  have len: "length (pq_entries ?q) = ?n" by simp
  show ?thesis unfolding positions_ok_def len using main ent by metis
qed

lemma mset_remove:
  assumes "i < length es"
  shows "mset ((butlast es)[i := last es]) = mset es - {#es ! i#}"
proof (cases es rule: rev_cases)
  case Nil
  then show ?thesis using assms by simp
next
  case (snoc xs y)
  show ?thesis
  proof (cases "i < length xs")
    case True
    then have "xs ! i \<in># mset xs" by simp
    then show ?thesis
      using snoc True by (simp add: nth_append mset_update diff_union_swap2)
  next
    case False
    then show ?thesis using assms snoc by (simp add: nth_append list_update_beyond not_less)
  qed
qed

lemma removeAt_ok:
  assumes ok: "pq_ok key q" and i: "i < length (pq_entries q)"
  shows "fst (removeAt key cmp i q) = Some (pq_entries q ! i) \<and> pq_ok key (snd (removeAt key cmp i q)) \<and>
    mset (pq_entries (snd (removeAt key cmp i q))) = mset (pq_entries q) - {#pq_entries q ! i#}"
proof -
  let ?es = "pq_entries q" and ?x = "last (pq_entries q)"
  note pos = positions_remove [OF _ i]
  have pok: "positions_ok key q" and h: "heap ?es" using ok by (simp_all add: pq_ok_def)
  show ?thesis
  proof (cases "i < length ?es - 1")
    case False
    then have "length (butlast ?es) \<le> i" by simp
    then have "(butlast ?es)[i := ?x] = butlast ?es" by (rule list_update_beyond)
    then show ?thesis
      using pos [OF pok] mset_remove [OF i] heap_butlast [OF h] False i
      by (simp add: removeAt_def pq_ok_def Let_def)
  next
    case True
    define q2 where "q2 = \<lparr>pq_entries = (butlast ?es)[i := ?x],
        pq_positions = (pq_positions q)(key (?es ! i) := None, key ?x \<mapsto> i)\<rparr>"
    have q2: "positions_ok key q2" using pos [OF pok] True by (simp add: q2_def)
    have len: "i < length (pq_entries q2)" "length (pq_entries q2) = length ?es - 1" using True by (simp_all add: q2_def)
    have ms: "mset (pq_entries q2) = mset ?es - {#?es ! i#}" using mset_remove [OF i] by (simp add: q2_def)
    let ?up = "0 < i \<and> cmp (pq_entries q2 ! i) (pq_entries q2 ! parentIndex i) < 0"
    have r: "removeAt key cmp i q = (Some (?es ! i), if ?up then siftUp key cmp i q2 else siftDown key cmp i q2)"
      using True i by (simp add: removeAt_def Let_def q2_def)
    have "?up \<longleftrightarrow> 0 < i \<and> cmp ?x (butlast ?es ! parentIndex i) < 0"
      using True parent_less [of i] by (auto simp: q2_def)
    then have "if ?up then heap_above i (pq_entries q2) else heap_below i (pq_entries q2)"
      using heap_replace [OF heap_butlast [OF h], of i ?x] True by (simp add: q2_def)
    then show ?thesis
      unfolding r using siftUp_keeps [OF q2 len(1), of cmp] siftDown_keeps [OF q2 len(1), of cmp]
        siftUp_heap [of i q2 key, OF _ len(1)] siftDown_heap [of i q2 key, OF _ len(1)] ms
      by (simp add: pq_ok_def split: if_splits)
  qed
qed

lemma pq_pop_ok:
  assumes "pq_ok key q" "pq_peek q = Some x"
  shows "\<exists>q'. pq_pop key cmp q = (Some x, q') \<and> pq_ok key q' \<and> add_mset x (mset (pq_entries q')) = mset (pq_entries q)"
proof -
  have "0 < length (pq_entries q)" "pq_entries q ! 0 = x"
    using assms(2) by (auto simp: pq_peek_def split: list.splits)
  then show ?thesis
    using removeAt_ok [OF assms(1), of 0] by (cases "removeAt key cmp 0 q") (auto simp: pq_pop_def)
qed

lemma pq_peek_least: "pq_ok key q \<Longrightarrow> pq_peek q = Some x \<Longrightarrow> y \<in> set (pq_entries q) \<Longrightarrow> cmp x y \<le> 0"
  using heap_peek [of "pq_entries q" y] by (auto simp: pq_ok_def pq_peek_def split: list.splits)

lemma mset_drop_key:
  "distinct (map key es) \<Longrightarrow> x \<in> set es \<Longrightarrow> mset es - {#x#} = filter_mset (\<lambda>y. key y \<noteq> key x) (mset es)"
proof (induction es)
  case (Cons e es)
  show ?case
  proof (cases "e = x")
    case True
    then have "\<forall>y \<in># mset es. key y \<noteq> key x" using Cons.prems by (auto simp: image_iff)
    then have "filter_mset (\<lambda>y. key y \<noteq> key x) (mset es) = mset es" by (simp add: filter_mset_eq_conv)
    then show ?thesis using True by simp
  next
    case False
    then have x: "x \<in> set es" using Cons.prems by simp
    then have "key e \<noteq> key x" using Cons.prems(1) by force
    then show ?thesis using Cons x by (simp add: diff_union_swap2)
  qed
qed simp

lemma positions_distinct_map: "positions_ok key q \<Longrightarrow> distinct (map key (pq_entries q))"
  using positions_distinct [of key q] by (auto simp: distinct_conv_nth)

lemma pq_remove_ok:
  assumes ok: "pq_ok key q"
  shows "pq_ok key (snd (pq_remove key cmp k q)) \<and>
    mset (pq_entries (snd (pq_remove key cmp k q))) = filter_mset (\<lambda>x. key x \<noteq> k) (mset (pq_entries q)) \<and>
    (fst (pq_remove key cmp k q) \<longleftrightarrow> k \<in> key ` set (pq_entries q))"
proof (cases "pq_positions q k")
  case None
  then have "k \<notin> key ` set (pq_entries q)" using ok positions_key [of key q k] by (simp add: pq_ok_def)
  then have "filter_mset (\<lambda>x. key x \<noteq> k) (mset (pq_entries q)) = mset (pq_entries q)"
    by (metis (mono_tags, lifting) filter_True image_eqI mset_filter)
  then show ?thesis using ok None \<open>k \<notin> _\<close> by (simp add: pq_remove_def)
next
  case (Some i)
  let ?es = "pq_entries q"
  have i: "i < length ?es" "key (?es ! i) = k" using ok Some by (simp_all add: pq_ok_def positions_ok_def)
  have "mset ?es - {#?es ! i#} = filter_mset (\<lambda>x. key x \<noteq> k) (mset ?es)"
    using mset_drop_key [of key ?es "?es ! i"] positions_distinct_map [of key q] ok i by (simp add: pq_ok_def)
  then show ?thesis
    using removeAt_ok [OF ok i(1)] Some i by (auto simp: pq_remove_def)
qed

end
end
