(* ===== verification/Scheduler.thy ===== *)
theory Scheduler
  imports Complex_Main PriorityQueue Json
begin

text \<open>
  \<open>packages/agent-core/src/lifecycle/scheduler.ts\<close>: \<open>TaskScheduler\<close>. A \<open>ScheduledRecord\<close> is
  shared between the map of records, the ready queues, the dedupe index and the executions, and
  mutated through any of them, so records live in a store and are referred to by address; an
  abort controller and a result promise are numbers too. A call of the scheduler, from its start
  to the next point where it waits, is one function of the state and of the time it reads.

  An execution that waits for its task is a \<open>frame\<close>; the caller's \<open>run\<close> function, and what it
  reports, are steps of the environment. Calls of listeners, of the persistence port and of
  \<open>resolve\<close> and \<open>reject\<close> are appended to logs. Listeners and \<open>run\<close> that call the scheduler back
  before they return are steps after the call. \<open>localeCompare\<close> compares collation keys: \<open>ckey\<close>
  is the parameter for the collation table.
\<close>

datatype mode = Interactive | Foreground | Background | Batch

datatype status = Queued | Running | WaitingUser | Completed | Failed | Cancelled | Interrupted

datatype lifecycle = Idle | LRunning | Stopping | Stopped

record checkpoint =
  cp_step :: jstring
  cp_data :: "json option"
  cp_updatedAt :: "int option"

record task_error =
  te_name :: jstring
  te_message :: jstring
  te_retryable :: bool

datatype thrown = ErrorThrown task_error | OtherThrown jstring

record snapshot =
  sn_id :: jstring
  sn_mode :: mode
  sn_status :: status
  sn_startedAt :: "int option"
  sn_finishedAt :: "int option"
  sn_error :: "task_error option"
  sn_progress :: "rat option"
  sn_attempts :: "int option"
  sn_checkpoint :: "checkpoint option"

record work =
  wk_id :: jstring
  wk_mode :: mode
  wk_priority :: "int option"
  wk_dedupeKey :: "jstring option"
  wk_debounceMs :: "int option"
  wk_timeoutMs :: "int option"
  wk_maxAttempts :: "int option"
  wk_retryDelayMs :: "int option"

record task_state =
  ts_id :: jstring
  ts_mode :: mode
  ts_status :: status
  ts_snapshot :: snapshot
  ts_attempts :: int
  ts_readyAt :: "int option"

datatype event_type = ECreated | EQueued | EStarted | EProgress | ERetrying | ECheckpointed
  | EWaitingUser | ECompleted | EFailed | ECancelled | EInterrupted

record srec =
  rc_work :: "work option"
  rc_controller :: "nat option"
  rc_snapshot :: snapshot
  rc_promise :: "nat option"
  rc_attempts :: int
  rc_readyAt :: int
  rc_priority :: int
  rc_sequence :: nat
  rc_dedupeKey :: "jstring option"
  rc_slotAcquired :: bool
  rc_generation :: nat
  rc_resumeFrom :: "checkpoint option"

record frame =
  fr_ref :: nat
  fr_generation :: nat
  fr_controller :: nat
  fr_work :: work
  fr_resumeFrom :: "checkpoint option"
  fr_timedOut :: bool

datatype settled = ResolvedWith "json option" | RejectedWith thrown

record sched =
  sc_store :: "nat \<Rightarrow> srec"
  sc_nextRef :: nat
  sc_records :: "(jstring \<times> nat) list"
  sc_foregroundReady :: "nat pqueue"
  sc_backgroundReady :: "nat pqueue"
  sc_delayedReady :: "nat pqueue"
  sc_dedupeIndex :: "jstring \<Rightarrow> nat list option"
  sc_maxForeground :: int
  sc_maxBackground :: int
  sc_persistence :: bool
  sc_state :: lifecycle
  sc_nextSequence :: nat
  sc_runningForeground :: int
  sc_runningBackground :: int
  sc_readyTimer :: "int option"
  sc_pumpScheduled :: bool
  sc_aborted :: "nat set"
  sc_nextController :: nat
  sc_nextPromise :: nat
  sc_frames :: "frame list"
  sc_loads :: "work list"
  sc_events :: "(event_type \<times> snapshot) list"
  sc_saves :: "task_state list"
  sc_settled :: "(nat \<times> settled) list"

datatype sched_error = IsStopping | IdUnavailable | UnknownTask | CannotResume status | NoCheckpoint
  | CheckpointUnavailable | CannotRestart | NoPersistence | NoListing | StateMismatch | ModeMismatch
  | ResolvedMismatch | NoPromise

section \<open>Helpers of the module\<close>

definition isTerminal :: "status \<Rightarrow> bool" where
  "isTerminal st \<longleftrightarrow> st = WaitingUser \<or> st = Completed \<or> st = Failed \<or> st = Cancelled"

definition normalizePriority :: "int option \<Rightarrow> int" where
  "normalizePriority p = (case p of None \<Rightarrow> 0 | Some n \<Rightarrow> n)"

fun compare_keys :: "int list \<Rightarrow> int list \<Rightarrow> int" where
  "compare_keys [] [] = 0"
| "compare_keys [] (y # ys) = - 1"
| "compare_keys (x # xs) [] = 1"
| "compare_keys (x # xs) (y # ys) = (if x < y then - 1 else if y < x then 1 else compare_keys xs ys)"

definition compareScheduledRecords :: "(jstring \<Rightarrow> int list) \<Rightarrow> srec \<Rightarrow> srec \<Rightarrow> int" where
  "compareScheduledRecords ckey left right =
     (let d = rc_priority right - rc_priority left
      in if d \<noteq> 0 then d
         else compare_keys (ckey (sn_id (rc_snapshot left))) (ckey (sn_id (rc_snapshot right))))"

definition compareReadyRecords :: "(jstring \<Rightarrow> int list) \<Rightarrow> srec \<Rightarrow> srec \<Rightarrow> int" where
  "compareReadyRecords ckey left right =
     (let d = rc_readyAt left - rc_readyAt right
      in if d \<noteq> 0 then d else compareScheduledRecords ckey left right)"

definition isForegroundMode :: "mode \<Rightarrow> bool" where
  "isForegroundMode m \<longleftrightarrow> m = Interactive \<or> m = Foreground"

definition isRetryable :: "thrown \<Rightarrow> bool" where
  "isRetryable e = (case e of
     ErrorThrown err \<Rightarrow> te_name err = ascii ''TaskTimeoutError'' \<or> te_retryable err
   | OtherThrown s \<Rightarrow> False)"

definition normalizeCheckpoint :: "int \<Rightarrow> checkpoint \<Rightarrow> checkpoint option" where
  "normalizeCheckpoint now c =
     (if js_trim (cp_step c) = [] then None
      else Some (c\<lparr>cp_updatedAt := Some (case cp_updatedAt c of None \<Rightarrow> now | Some t \<Rightarrow> t)\<rparr>))"

definition toScheduledTaskState :: "srec \<Rightarrow> task_state" where
  "toScheduledTaskState r = \<lparr>ts_id = sn_id (rc_snapshot r), ts_mode = sn_mode (rc_snapshot r),
     ts_status = sn_status (rc_snapshot r), ts_snapshot = rc_snapshot r, ts_attempts = rc_attempts r,
     ts_readyAt = Some (rc_readyAt r)\<rparr>"

definition interruptedError :: "jstring \<Rightarrow> task_error" where
  "interruptedError message = \<lparr>te_name = ascii ''TaskInterruptedError'', te_message = message, te_retryable = False\<rparr>"

definition default_interruption :: jstring where
  "default_interruption = ascii ''Scheduled task was interrupted; resume it to continue''"

definition recovery_interruption :: jstring where
  "recovery_interruption = ascii ''Scheduled task was interrupted before scheduler recovery''"

definition timeoutError :: "int \<Rightarrow> thrown" where
  "timeoutError ms = ErrorThrown \<lparr>te_name = ascii ''TaskTimeoutError'',
     te_message = ascii ''Scheduled task exceeded its timeout of '' @ nat_str (nat ms) @ ascii ''ms'',
     te_retryable = True\<rparr>"

section \<open>The store, the logs and the queues\<close>

definition upd :: "nat \<Rightarrow> (srec \<Rightarrow> srec) \<Rightarrow> sched \<Rightarrow> sched" where
  "upd r f s = s\<lparr>sc_store := (sc_store s)(r := f (sc_store s r))\<rparr>"

abbreviation on_snapshot :: "(snapshot \<Rightarrow> snapshot) \<Rightarrow> srec \<Rightarrow> srec" where
  "on_snapshot f \<equiv> rc_snapshot_update f"

abbreviation snap :: "sched \<Rightarrow> nat \<Rightarrow> snapshot" where
  "snap s r \<equiv> rc_snapshot (sc_store s r)"

definition ref_id :: "sched \<Rightarrow> nat \<Rightarrow> jstring" where
  "ref_id s r = sn_id (snap s r)"

definition scheduled_cmp :: "(jstring \<Rightarrow> int list) \<Rightarrow> sched \<Rightarrow> nat \<Rightarrow> nat \<Rightarrow> int" where
  "scheduled_cmp ckey s a b = compareScheduledRecords ckey (sc_store s a) (sc_store s b)"

definition ready_cmp :: "(jstring \<Rightarrow> int list) \<Rightarrow> sched \<Rightarrow> nat \<Rightarrow> nat \<Rightarrow> int" where
  "ready_cmp ckey s a b = compareReadyRecords ckey (sc_store s a) (sc_store s b)"

definition aborted :: "nat option \<Rightarrow> sched \<Rightarrow> bool" where
  "aborted c s = (case c of None \<Rightarrow> False | Some i \<Rightarrow> i \<in> sc_aborted s)"

definition abort :: "nat \<Rightarrow> sched \<Rightarrow> sched" where
  "abort r s = (case rc_controller (sc_store s r) of
     None \<Rightarrow> s | Some c \<Rightarrow> s\<lparr>sc_aborted := insert c (sc_aborted s)\<rparr>)"

definition persist :: "nat \<Rightarrow> sched \<Rightarrow> sched" where
  "persist r s = (if sc_persistence s
     then s\<lparr>sc_saves := sc_saves s @ [toScheduledTaskState (sc_store s r)]\<rparr> else s)"

definition status_of :: "jstring \<Rightarrow> sched \<Rightarrow> (sched_error, snapshot) res" where
  "status_of i s = (case map_of (sc_records s) i of None \<Rightarrow> Throw UnknownTask | Some r \<Rightarrow> Ok (snap s r))"

definition emit :: "event_type \<Rightarrow> jstring \<Rightarrow> sched \<Rightarrow> sched" where
  "emit ty i s = (case status_of i s of
     Inl _ \<Rightarrow> s | Inr sn \<Rightarrow> s\<lparr>sc_events := sc_events s @ [(ty, sn)]\<rparr>)"

definition settle :: "nat option \<Rightarrow> settled \<Rightarrow> sched \<Rightarrow> sched" where
  "settle p v s = (case p of None \<Rightarrow> s | Some i \<Rightarrow> s\<lparr>sc_settled := sc_settled s @ [(i, v)]\<rparr>)"

definition newController :: "nat \<Rightarrow> sched \<Rightarrow> sched" where
  "newController r s = upd r (\<lambda>x. x\<lparr>rc_controller := Some (sc_nextController s)\<rparr>)
     (s\<lparr>sc_nextController := sc_nextController s + 1\<rparr>)"

definition releaseSettledRuntime :: "nat \<Rightarrow> sched \<Rightarrow> sched" where
  "releaseSettledRuntime r = upd r (\<lambda>x. x\<lparr>rc_controller := None, rc_promise := None, rc_resumeFrom := None,
     rc_work := None, rc_dedupeKey := None\<rparr>)"

definition scheduleReadyTimer :: "sched \<Rightarrow> sched" where
  "scheduleReadyTimer s = s\<lparr>sc_readyTimer :=
     (case pq_peek (sc_delayedReady s) of None \<Rightarrow> None | Some r \<Rightarrow> Some (rc_readyAt (sc_store s r)))\<rparr>"

definition schedulePump :: "sched \<Rightarrow> sched" where
  "schedulePump s = s\<lparr>sc_pumpScheduled := True\<rparr>"

definition readyPush :: "(jstring \<Rightarrow> int list) \<Rightarrow> nat \<Rightarrow> sched \<Rightarrow> sched" where
  "readyPush ckey r s =
     (if isForegroundMode (sn_mode (snap s r))
      then s\<lparr>sc_foregroundReady := pq_push (ref_id s) (scheduled_cmp ckey s) r (sc_foregroundReady s)\<rparr>
      else s\<lparr>sc_backgroundReady := pq_push (ref_id s) (scheduled_cmp ckey s) r (sc_backgroundReady s)\<rparr>)"

definition readyRemove :: "(jstring \<Rightarrow> int list) \<Rightarrow> nat \<Rightarrow> sched \<Rightarrow> sched" where
  "readyRemove ckey r s =
     (if isForegroundMode (sn_mode (snap s r))
      then s\<lparr>sc_foregroundReady :=
             snd (pq_remove (ref_id s) (scheduled_cmp ckey s) (ref_id s r) (sc_foregroundReady s))\<rparr>
      else s\<lparr>sc_backgroundReady :=
             snd (pq_remove (ref_id s) (scheduled_cmp ckey s) (ref_id s r) (sc_backgroundReady s))\<rparr>)"

definition removeReady :: "(jstring \<Rightarrow> int list) \<Rightarrow> nat \<Rightarrow> bool \<Rightarrow> sched \<Rightarrow> sched" where
  "removeReady ckey r refreshTimer s =
     (let s1 = readyRemove ckey r s;
          (removedDelayed, q) = pq_remove (ref_id s1) (ready_cmp ckey s1) (ref_id s1 r) (sc_delayedReady s1);
          s2 = s1\<lparr>sc_delayedReady := q\<rparr>
      in if removedDelayed \<and> refreshTimer then scheduleReadyTimer s2 else s2)"

definition acquireSlot :: "nat \<Rightarrow> sched \<Rightarrow> sched" where
  "acquireSlot r s =
     (if rc_slotAcquired (sc_store s r) then s
      else upd r (rc_slotAcquired_update (\<lambda>_. True))
        (if isForegroundMode (sn_mode (snap s r))
         then s\<lparr>sc_runningForeground := sc_runningForeground s + 1\<rparr>
         else s\<lparr>sc_runningBackground := sc_runningBackground s + 1\<rparr>))"

definition releaseSlot :: "nat \<Rightarrow> sched \<Rightarrow> sched" where
  "releaseSlot r s =
     (if \<not> rc_slotAcquired (sc_store s r) then s
      else upd r (rc_slotAcquired_update (\<lambda>_. False))
        (if isForegroundMode (sn_mode (snap s r))
         then s\<lparr>sc_runningForeground := sc_runningForeground s - 1\<rparr>
         else s\<lparr>sc_runningBackground := sc_runningBackground s - 1\<rparr>))"

section \<open>The dedupe index\<close>

definition present_key :: "jstring option \<Rightarrow> bool" where
  "present_key k \<longleftrightarrow> k \<noteq> None \<and> k \<noteq> Some []"

definition oldest :: "sched \<Rightarrow> nat list \<Rightarrow> nat option" where
  "oldest s rs = fold (\<lambda>r d. case d of
       None \<Rightarrow> Some r
     | Some e \<Rightarrow> if rc_sequence (sc_store s r) < rc_sequence (sc_store s e) then Some r else d) rs None"

definition findDuplicate :: "jstring option \<Rightarrow> sched \<Rightarrow> nat option \<times> sched" where
  "findDuplicate dedupeKey s =
     (if \<not> present_key dedupeKey then (None, s)
      else case sc_dedupeIndex s (the dedupeKey) of
             None \<Rightarrow> (None, s)
           | Some candidates \<Rightarrow>
               (let live = filter (\<lambda>r. \<not> isTerminal (sn_status (snap s r))) candidates
                in (oldest s live,
                    s\<lparr>sc_dedupeIndex := (sc_dedupeIndex s)(the dedupeKey := (if live = [] then None else Some live))\<rparr>)))"

definition registerDedupe :: "nat \<Rightarrow> sched \<Rightarrow> sched" where
  "registerDedupe r s =
     (let k = rc_dedupeKey (sc_store s r)
      in if \<not> present_key k \<or> isTerminal (sn_status (snap s r)) then s
         else let candidates = (case sc_dedupeIndex s (the k) of None \<Rightarrow> [] | Some c \<Rightarrow> c)
              in s\<lparr>sc_dedupeIndex := (sc_dedupeIndex s)
                     (the k \<mapsto> (if r \<in> set candidates then candidates else candidates @ [r]))\<rparr>)"

definition releaseDedupe :: "nat \<Rightarrow> sched \<Rightarrow> sched" where
  "releaseDedupe r s =
     (let k = rc_dedupeKey (sc_store s r)
      in if \<not> present_key k then s
         else case sc_dedupeIndex s (the k) of
                None \<Rightarrow> s
              | Some candidates \<Rightarrow>
                  (let rest = filter (\<lambda>x. x \<noteq> r) candidates
                   in s\<lparr>sc_dedupeIndex := (sc_dedupeIndex s)(the k := (if rest = [] then None else Some rest))\<rparr>))"

section \<open>Construction, pump and execution\<close>

definition newScheduler :: "int option \<Rightarrow> int option \<Rightarrow> bool \<Rightarrow> sched" where
  "newScheduler maxForeground maxBackground persistence =
     \<lparr>sc_store = (\<lambda>_. \<lparr>rc_work = None, rc_controller = None,
        rc_snapshot = \<lparr>sn_id = [], sn_mode = Interactive, sn_status = Queued, sn_startedAt = None,
          sn_finishedAt = None, sn_error = None, sn_progress = None, sn_attempts = None, sn_checkpoint = None\<rparr>,
        rc_promise = None, rc_attempts = 0, rc_readyAt = 0, rc_priority = 0, rc_sequence = 0, rc_dedupeKey = None,
        rc_slotAcquired = False, rc_generation = 0, rc_resumeFrom = None\<rparr>),
      sc_nextRef = 0, sc_records = [], sc_foregroundReady = newQueue, sc_backgroundReady = newQueue,
      sc_delayedReady = newQueue, sc_dedupeIndex = Map.empty,
      sc_maxForeground = max 1 (case maxForeground of None \<Rightarrow> 1 | Some n \<Rightarrow> n),
      sc_maxBackground = max 1 (case maxBackground of None \<Rightarrow> 2 | Some n \<Rightarrow> n),
      sc_persistence = persistence, sc_state = Idle, sc_nextSequence = 0, sc_runningForeground = 0,
      sc_runningBackground = 0, sc_readyTimer = None, sc_pumpScheduled = False, sc_aborted = {},
      sc_nextController = 0, sc_nextPromise = 0, sc_frames = [], sc_loads = [], sc_events = [],
      sc_saves = [], sc_settled = []\<rparr>"

text \<open>\<open>execute\<close> up to its first wait: the task's function is called and awaited by a new frame.\<close>

definition startExecution :: "int \<Rightarrow> nat \<Rightarrow> sched \<Rightarrow> sched" where
  "startExecution now r s =
     (let x = sc_store s r
      in case (rc_work x, rc_controller x) of
           (Some w, Some c) \<Rightarrow>
             (if sn_status (rc_snapshot x) \<noteq> Queued \<or> aborted (Some c) s then s
              else let s1 = upd r (\<lambda>x. x\<lparr>rc_resumeFrom := None, rc_attempts := rc_attempts x + 1,
                              rc_snapshot := (rc_snapshot x)\<lparr>sn_status := Running,
                                sn_startedAt := Some (case sn_startedAt (rc_snapshot x) of None \<Rightarrow> now | Some t \<Rightarrow> t),
                                sn_error := None, sn_attempts := Some (rc_attempts x + 1)\<rparr>\<rparr>) s;
                       s2 = emit EStarted (ref_id s1 r) (persist r s1)
                   in s2\<lparr>sc_frames := sc_frames s2 @
                        [\<lparr>fr_ref = r, fr_generation = rc_generation x, fr_controller = c, fr_work = w,
                          fr_resumeFrom = rc_resumeFrom x, fr_timedOut = False\<rparr>]\<rparr>)
         | _ \<Rightarrow> s)"

definition live_queued :: "sched \<Rightarrow> nat \<Rightarrow> bool" where
  "live_queued s r \<longleftrightarrow> sn_status (snap s r) = Queued \<and> \<not> aborted (rc_controller (sc_store s r)) s"

lemma pq_pop_shorter:
  "pq_peek q \<noteq> None \<Longrightarrow> length (pq_entries (snd (pq_pop key cmp q))) < length (pq_entries q)"
  unfolding pq_pop_def by (rule removeAt_shorter) (auto simp: pq_peek_def split: list.splits)

lemma delayed_readyPush [simp]: "sc_delayedReady (readyPush ckey r s) = sc_delayedReady s"
  by (simp add: readyPush_def)

function promoteLoop :: "(jstring \<Rightarrow> int list) \<Rightarrow> int \<Rightarrow> sched \<Rightarrow> sched" where
  "promoteLoop ckey now s =
     (case pq_peek (sc_delayedReady s) of
        None \<Rightarrow> s
      | Some r \<Rightarrow>
          if rc_readyAt (sc_store s r) > now then s
          else let s1 = s\<lparr>sc_delayedReady := snd (pq_pop (ref_id s) (ready_cmp ckey s) (sc_delayedReady s))\<rparr>
               in promoteLoop ckey now (if live_queued s1 r then readyPush ckey r s1 else s1))"
  by pat_completeness auto
termination
  by (relation "measure (\<lambda>(ckey, now, s). length (pq_entries (sc_delayedReady s)))") (simp_all add: pq_pop_shorter)

declare promoteLoop.simps [simp del]

definition promoteReady :: "(jstring \<Rightarrow> int list) \<Rightarrow> int \<Rightarrow> sched \<Rightarrow> sched" where
  "promoteReady ckey now s = scheduleReadyTimer (promoteLoop ckey now s)"

text \<open>The queue the next iteration of the pump pops, \<open>True\<close> for the foreground queue.\<close>

definition next_queue :: "(jstring \<Rightarrow> int list) \<Rightarrow> sched \<Rightarrow> bool option" where
  "next_queue ckey s =
     (let foreground = (if sc_runningForeground s < sc_maxForeground s then pq_peek (sc_foregroundReady s) else None);
          background = (if sc_runningBackground s < sc_maxBackground s then pq_peek (sc_backgroundReady s) else None)
      in case (foreground, background) of
           (None, None) \<Rightarrow> None
         | (Some f, None) \<Rightarrow> Some True
         | (None, Some b) \<Rightarrow> Some False
         | (Some f, Some b) \<Rightarrow> Some (scheduled_cmp ckey s f b \<le> 0))"

definition pop_next :: "(jstring \<Rightarrow> int list) \<Rightarrow> bool \<Rightarrow> sched \<Rightarrow> nat option \<times> sched" where
  "pop_next ckey foreground s =
     (if foreground
      then let (r, q) = pq_pop (ref_id s) (scheduled_cmp ckey s) (sc_foregroundReady s)
           in (r, s\<lparr>sc_foregroundReady := q\<rparr>)
      else let (r, q) = pq_pop (ref_id s) (scheduled_cmp ckey s) (sc_backgroundReady s)
           in (r, s\<lparr>sc_backgroundReady := q\<rparr>))"

definition pumpStep :: "(jstring \<Rightarrow> int list) \<Rightarrow> int \<Rightarrow> bool \<Rightarrow> sched \<Rightarrow> sched" where
  "pumpStep ckey now foreground s =
     (case pop_next ckey foreground s of
        (None, s1) \<Rightarrow> s1
      | (Some r, s1) \<Rightarrow> if live_queued s1 r then startExecution now r (acquireSlot r s1) else s1)"

abbreviation waiting :: "sched \<Rightarrow> nat" where
  "waiting s \<equiv> length (pq_entries (sc_foregroundReady s)) + length (pq_entries (sc_backgroundReady s))"

lemma emit_queues [simp]:
  "sc_foregroundReady (emit ty i s) = sc_foregroundReady s" "sc_backgroundReady (emit ty i s) = sc_backgroundReady s"
  by (simp_all add: emit_def split: sum.splits)

lemma startExecution_queues [simp]:
  "sc_foregroundReady (startExecution now r s) = sc_foregroundReady s"
  "sc_backgroundReady (startExecution now r s) = sc_backgroundReady s"
  by (simp_all add: startExecution_def Let_def persist_def upd_def split: option.splits)

lemma acquireSlot_queues [simp]:
  "sc_foregroundReady (acquireSlot r s) = sc_foregroundReady s"
  "sc_backgroundReady (acquireSlot r s) = sc_backgroundReady s"
  by (simp_all add: acquireSlot_def upd_def)

lemma pumpStep_shorter: "next_queue ckey s = Some b \<Longrightarrow> waiting (pumpStep ckey now b s) < waiting s"
  using pq_pop_shorter [of "sc_foregroundReady s" "ref_id s" "scheduled_cmp ckey s"]
    pq_pop_shorter [of "sc_backgroundReady s" "ref_id s" "scheduled_cmp ckey s"]
  by (auto simp: next_queue_def pumpStep_def pop_next_def Let_def
      split: option.splits if_splits prod.splits)

function pumpLoop :: "(jstring \<Rightarrow> int list) \<Rightarrow> int \<Rightarrow> sched \<Rightarrow> sched" where
  "pumpLoop ckey now s =
     (case next_queue ckey s of
        None \<Rightarrow> s
      | Some b \<Rightarrow> pumpLoop ckey now (pumpStep ckey now b s))"
  by pat_completeness auto
termination
  by (relation "measure (\<lambda>(ckey, now, s). waiting s)") (simp_all add: pumpStep_shorter)

declare pumpLoop.simps [simp del]

definition pump :: "(jstring \<Rightarrow> int list) \<Rightarrow> int \<Rightarrow> sched \<Rightarrow> sched" where
  "pump ckey now s =
     (if sc_state s = Stopping \<or> sc_state s = Stopped then s else pumpLoop ckey now (promoteReady ckey now s))"

text \<open>The microtask of \<open>schedulePump\<close> and the callback of the ready timer.\<close>

definition pumpTask :: "(jstring \<Rightarrow> int list) \<Rightarrow> int \<Rightarrow> sched \<Rightarrow> sched" where
  "pumpTask ckey now s = pump ckey now (s\<lparr>sc_pumpScheduled := False\<rparr>)"

definition readyTimerFires :: "(jstring \<Rightarrow> int list) \<Rightarrow> int \<Rightarrow> sched \<Rightarrow> sched" where
  "readyTimerFires ckey now s = schedulePump (promoteReady ckey now (s\<lparr>sc_readyTimer := None\<rparr>))"

definition arm :: "(jstring \<Rightarrow> int list) \<Rightarrow> int \<Rightarrow> nat \<Rightarrow> sched \<Rightarrow> sched" where
  "arm ckey now r s =
     (let s1 = removeReady ckey r False s;
          readyNow = (rc_readyAt (sc_store s1 r) \<le> now);
          s2 = (if live_queued s1 r
                then if readyNow then readyPush ckey r s1
                     else s1\<lparr>sc_delayedReady := pq_push (ref_id s1) (ready_cmp ckey s1) r (sc_delayedReady s1)\<rparr>
                else s1);
          s3 = scheduleReadyTimer s2
      in if readyNow then schedulePump s3 else s3)"

section \<open>Ends and reports of an execution\<close>

definition finishCancelled :: "(jstring \<Rightarrow> int list) \<Rightarrow> int \<Rightarrow> nat \<Rightarrow> sched \<Rightarrow> sched" where
  "finishCancelled ckey now r s =
     (if isTerminal (sn_status (snap s r)) \<or> sn_status (snap s r) = Interrupted then s
      else let s1 = releaseSlot r (removeReady ckey r True s);
               s2 = upd r (on_snapshot (\<lambda>n. n\<lparr>sn_status := Cancelled, sn_finishedAt := Some now\<rparr>)) s1;
               s3 = persist r (releaseDedupe r s2);
               promise = rc_promise (sc_store s3 r);
               s4 = emit ECancelled (ref_id s3 r) (releaseSettledRuntime r s3)
           in pump ckey now (settle promise (ResolvedWith None) s4))"

definition completeTask :: "int \<Rightarrow> nat \<Rightarrow> json option \<Rightarrow> sched \<Rightarrow> sched" where
  "completeTask now r value s =
     (let s1 = upd r (on_snapshot (\<lambda>n. n\<lparr>sn_status := Completed, sn_finishedAt := Some now\<rparr>)) (releaseSlot r s);
          s2 = persist r (releaseDedupe r s1);
          promise = rc_promise (sc_store s2 r);
          s3 = emit ECompleted (ref_id s2 r) (releaseSettledRuntime r s2)
      in settle promise (ResolvedWith value) s3)"

definition error_of :: "thrown \<Rightarrow> task_error" where
  "error_of e = (case e of
     ErrorThrown err \<Rightarrow> err
   | OtherThrown s \<Rightarrow> \<lparr>te_name = ascii ''Error'', te_message = s, te_retryable = False\<rparr>)"

definition failTask :: "int \<Rightarrow> nat \<Rightarrow> thrown \<Rightarrow> sched \<Rightarrow> sched" where
  "failTask now r e s =
     (let s1 = releaseDedupe r (upd r (on_snapshot (\<lambda>n. n\<lparr>sn_status := Failed\<rparr>)) (releaseSlot r s));
          s2 = upd r (on_snapshot (\<lambda>n. n\<lparr>sn_error := Some (error_of e), sn_finishedAt := Some now\<rparr>)) s1;
          s3 = persist r s2;
          promise = rc_promise (sc_store s3 r);
          s4 = emit EFailed (ref_id s3 r) (releaseSettledRuntime r s3)
      in settle promise (RejectedWith e) s4)"

definition retryTask :: "(jstring \<Rightarrow> int list) \<Rightarrow> int \<Rightarrow> nat \<Rightarrow> work \<Rightarrow> sched \<Rightarrow> sched" where
  "retryTask ckey now r w s =
     (let s1 = newController r (releaseSlot r s);
          delay = max 0 (case wk_retryDelayMs w of None \<Rightarrow> 0 | Some d \<Rightarrow> d);
          s2 = upd r (\<lambda>x. x\<lparr>rc_generation := rc_generation x + 1,
                 rc_snapshot := (rc_snapshot x)\<lparr>sn_status := Queued\<rparr>, rc_readyAt := now + delay\<rparr>) s1
      in arm ckey now r (emit ERetrying (ref_id s2 r) (persist r s2)))"

datatype outcome = Returned "json option" | Threw thrown

text \<open>The end of the awaited operation, and \<open>finally\<close>.\<close>

definition settleExecution :: "(jstring \<Rightarrow> int list) \<Rightarrow> int \<Rightarrow> frame \<Rightarrow> outcome \<Rightarrow> sched \<Rightarrow> sched" where
  "settleExecution ckey now f oc s =
     (let r = fr_ref f; x = sc_store s r
      in if rc_generation x \<noteq> fr_generation f then s
         else case oc of
                Returned v \<Rightarrow>
                  (if fr_controller f \<in> sc_aborted s then finishCancelled ckey now r s else completeTask now r v s)
              | Threw e \<Rightarrow>
                  (if isRetryable e \<and>
                      rc_attempts x < max 1 (case wk_maxAttempts (fr_work f) of None \<Rightarrow> 1 | Some n \<Rightarrow> n)
                   then retryTask ckey now r (fr_work f) s
                   else if fr_controller f \<in> sc_aborted s then finishCancelled ckey now r s
                   else failTask now r e s))"

definition endExecution :: "(jstring \<Rightarrow> int list) \<Rightarrow> int \<Rightarrow> nat \<Rightarrow> outcome \<Rightarrow> sched \<Rightarrow> sched" where
  "endExecution ckey now k oc s =
     (let f = sc_frames s ! k;
          s1 = s\<lparr>sc_frames := take k (sc_frames s) @ drop (Suc k) (sc_frames s)\<rparr>
      in pump ckey now (settleExecution ckey now f oc s1))"

text \<open>The timer of \<open>withTimeout\<close>: the frame then ends with the timeout error.\<close>

definition hasTimeout :: "work \<Rightarrow> bool" where
  "hasTimeout w \<longleftrightarrow> (case wk_timeoutMs w of None \<Rightarrow> False | Some ms \<Rightarrow> ms > 0)"

definition timeoutFires :: "nat \<Rightarrow> sched \<Rightarrow> sched" where
  "timeoutFires k s =
     (let f = sc_frames s ! k
      in s\<lparr>sc_aborted := insert (fr_controller f) (sc_aborted s),
           sc_frames := (sc_frames s)[k := f\<lparr>fr_timedOut := True\<rparr>]\<rparr>)"

text \<open>The callbacks of an execution capture its record and generation; they may be called at any time.\<close>

definition reportProgress :: "nat \<Rightarrow> nat \<Rightarrow> rat \<Rightarrow> sched \<Rightarrow> sched" where
  "reportProgress r generation p s =
     (if rc_generation (sc_store s r) \<noteq> generation \<or> sn_status (snap s r) \<noteq> Running then s
      else let s1 = upd r (on_snapshot (\<lambda>n. n\<lparr>sn_progress := Some (max 0 (min 1 p))\<rparr>)) s
           in emit EProgress (ref_id s1 r) s1)"

definition recordCheckpoint :: "int \<Rightarrow> nat \<Rightarrow> checkpoint \<Rightarrow> nat \<Rightarrow> sched \<Rightarrow> bool \<times> sched" where
  "recordCheckpoint now r c generation s =
     (if rc_generation (sc_store s r) \<noteq> generation \<or> sn_status (snap s r) \<noteq> Running then (False, s)
      else case normalizeCheckpoint now c of
             None \<Rightarrow> (False, s)
           | Some n \<Rightarrow>
               (let s1 = persist r (upd r (on_snapshot (\<lambda>m. m\<lparr>sn_checkpoint := Some n\<rparr>)) s)
                in (True, emit ECheckpointed (ref_id s1 r) s1)))"

section \<open>Operations\<close>

definition start :: "(jstring \<Rightarrow> int list) \<Rightarrow> int \<Rightarrow> sched \<Rightarrow> (sched_error, unit) res \<times> sched" where
  "start ckey now s =
     (if sc_state s = Stopped then (Throw CannotRestart, s)
      else (Ok (), pump ckey now (s\<lparr>sc_state := LRunning\<rparr>)))"

definition scheduledPromise :: "nat \<Rightarrow> sched \<Rightarrow> (sched_error, nat) res" where
  "scheduledPromise r s = (case rc_promise (sc_store s r) of None \<Rightarrow> Throw NoPromise | Some p \<Rightarrow> Ok p)"

definition allocate :: "jstring \<Rightarrow> srec \<Rightarrow> sched \<Rightarrow> nat \<times> sched" where
  "allocate i x s =
     (let r = sc_nextRef s
      in (r, s\<lparr>sc_store := (sc_store s)(r := x), sc_nextRef := r + 1,
               sc_records := AList.update i r (sc_records s),
               sc_nextController := sc_nextController s + 1, sc_nextPromise := sc_nextPromise s + 1,
               sc_nextSequence := sc_nextSequence s + 1\<rparr>))"

definition is_closing :: "sched \<Rightarrow> bool" where
  "is_closing s \<longleftrightarrow> sc_state s = Stopping \<or> sc_state s = Stopped"

definition wake :: "sched \<Rightarrow> sched" where
  "wake s = (if sc_state s = Idle then s\<lparr>sc_state := LRunning\<rparr> else s)"

definition debounce :: "work \<Rightarrow> int" where
  "debounce w = max 0 (case wk_debounceMs w of None \<Rightarrow> 0 | Some d \<Rightarrow> d)"

definition newRecord :: "work \<Rightarrow> snapshot \<Rightarrow> int \<Rightarrow> int \<Rightarrow> checkpoint option \<Rightarrow> sched \<Rightarrow> srec" where
  "newRecord w sn attempts readyAt resumeFrom s =
     \<lparr>rc_work = Some w, rc_controller = Some (sc_nextController s), rc_snapshot = sn,
      rc_promise = Some (sc_nextPromise s), rc_attempts = attempts, rc_readyAt = readyAt,
      rc_priority = normalizePriority (wk_priority w), rc_sequence = sc_nextSequence s,
      rc_dedupeKey = wk_dedupeKey w, rc_slotAcquired = False, rc_generation = 0, rc_resumeFrom = resumeFrom\<rparr>"

definition schedule :: "(jstring \<Rightarrow> int list) \<Rightarrow> int \<Rightarrow> work \<Rightarrow> sched \<Rightarrow> (sched_error, nat) res \<times> sched" where
  "schedule ckey now w s =
     (if is_closing s then (Throw IsStopping, s)
      else if js_trim (wk_id w) = [] then (Throw IdUnavailable, s)
      else case findDuplicate (wk_dedupeKey w) s of
             (Some d, s1) \<Rightarrow> (scheduledPromise d s1, s1)
           | (None, s1) \<Rightarrow>
               if map_of (sc_records s1) (wk_id w) \<noteq> None then (Throw IdUnavailable, s1)
               else let s2 = wake s1;
                        sn = \<lparr>sn_id = wk_id w, sn_mode = wk_mode w, sn_status = Queued, sn_startedAt = None,
                              sn_finishedAt = None, sn_error = None, sn_progress = None, sn_attempts = None,
                              sn_checkpoint = None\<rparr>;
                        (r, s3) = allocate (wk_id w) (newRecord w sn 0 (now + debounce w) None s2) s2;
                        s4 = persist r (registerDedupe r s3);
                        s5 = arm ckey now r (emit EQueued (wk_id w) (emit ECreated (wk_id w) s4))
                    in (scheduledPromise r s5, s5))"

definition cancel :: "(jstring \<Rightarrow> int list) \<Rightarrow> int \<Rightarrow> jstring \<Rightarrow> sched \<Rightarrow> bool \<times> sched" where
  "cancel ckey now i s =
     (case map_of (sc_records s) i of
        None \<Rightarrow> (False, s)
      | Some r \<Rightarrow>
          if isTerminal (sn_status (snap s r)) \<or> sn_status (snap s r) = Interrupted then (False, s)
          else let s1 = abort r (upd r (rc_generation_update Suc) s)
               in (True, if sn_status (snap s1 r) = Queued \<or> sn_status (snap s1 r) = Running
                         then finishCancelled ckey now r s1 else s1))"

definition checkpointTask :: "int \<Rightarrow> jstring \<Rightarrow> checkpoint \<Rightarrow> sched \<Rightarrow> bool \<times> sched" where
  "checkpointTask now i c s =
     (case map_of (sc_records s) i of
        None \<Rightarrow> (False, s)
      | Some r \<Rightarrow>
          if sn_status (snap s r) \<noteq> Running then (False, s)
          else recordCheckpoint now r c (rc_generation (sc_store s r)) s)"

definition pauseForUser :: "(jstring \<Rightarrow> int list) \<Rightarrow> int \<Rightarrow> jstring \<Rightarrow> nat \<Rightarrow> sched \<Rightarrow> sched" where
  "pauseForUser ckey now i r s =
     (let s1 = abort r (upd r (rc_generation_update Suc) s);
          promise = rc_promise (sc_store s1 r);
          s2 = releaseDedupe r (releaseSlot r s1);
          s3 = upd r (on_snapshot (\<lambda>n. n\<lparr>sn_status := WaitingUser, sn_error := None, sn_finishedAt := Some now\<rparr>)) s2;
          s4 = emit EWaitingUser i (persist r s3)
      in pump ckey now (settle promise (ResolvedWith None) s4))"

definition waitForUser :: "(jstring \<Rightarrow> int list) \<Rightarrow> int \<Rightarrow> jstring \<Rightarrow> checkpoint option \<Rightarrow> sched \<Rightarrow> bool \<times> sched" where
  "waitForUser ckey now i c s =
     (case map_of (sc_records s) i of
        None \<Rightarrow> (False, s)
      | Some r \<Rightarrow>
          if sn_status (snap s r) \<noteq> Running then (False, s)
          else let (recorded, s1) =
                 (case c of None \<Rightarrow> (True, s) | Some cp \<Rightarrow> recordCheckpoint now r cp (rc_generation (sc_store s r)) s)
               in if \<not> recorded then (False, s1)
                  else if sn_checkpoint (snap s1 r) = None then (False, s1)
                  else (True, pauseForUser ckey now i r s1))"

definition interruptRecord :: "(jstring \<Rightarrow> int list) \<Rightarrow> int \<Rightarrow> jstring \<Rightarrow> nat \<Rightarrow> sched \<Rightarrow> sched" where
  "interruptRecord ckey now i r s =
     (let s1 = abort r (upd r (rc_generation_update Suc) s);
          s2 = releaseSlot r (removeReady ckey r True s1);
          promise = rc_promise (sc_store s2 r);
          s3 = upd r (on_snapshot (\<lambda>n. n\<lparr>sn_status := Interrupted,
                 sn_error := Some (interruptedError default_interruption), sn_finishedAt := Some now\<rparr>)) s2;
          s4 = emit EInterrupted i (persist r s3)
      in pump ckey now (settle promise (ResolvedWith None) s4))"

definition interrupt :: "(jstring \<Rightarrow> int list) \<Rightarrow> int \<Rightarrow> jstring \<Rightarrow> sched \<Rightarrow> bool \<times> sched" where
  "interrupt ckey now i s =
     (case map_of (sc_records s) i of
        None \<Rightarrow> (False, s)
      | Some r \<Rightarrow>
          if isTerminal (sn_status (snap s r)) \<or> sn_status (snap s r) = Interrupted then (False, s)
          else (True, interruptRecord ckey now i r s))"

definition requeue :: "(jstring \<Rightarrow> int list) \<Rightarrow> int \<Rightarrow> jstring \<Rightarrow> nat \<Rightarrow> sched \<Rightarrow> sched" where
  "requeue ckey now i r s =
     (let s1 = newController r (upd r (rc_generation_update Suc) s);
          promise = sc_nextPromise s1;
          s2 = upd r (\<lambda>x. x\<lparr>rc_resumeFrom := sn_checkpoint (rc_snapshot x), rc_promise := Some promise,
                 rc_snapshot := (rc_snapshot x)\<lparr>sn_status := Queued\<rparr>\<rparr>)
                 (s1\<lparr>sc_nextPromise := promise + 1\<rparr>);
          s3 = upd r (\<lambda>x. x\<lparr>rc_readyAt := now, rc_snapshot := (rc_snapshot x)\<lparr>sn_startedAt := None,
                 sn_finishedAt := None, sn_error := None\<rparr>\<rparr>) (registerDedupe r s2)
      in arm ckey now r (emit EQueued i (persist r (wake s3))))"

definition resume :: "(jstring \<Rightarrow> int list) \<Rightarrow> int \<Rightarrow> jstring \<Rightarrow> checkpoint option \<Rightarrow> sched \<Rightarrow>
    (sched_error, nat) res \<times> sched" where
  "resume ckey now i c s =
     (if is_closing s then (Throw IsStopping, s)
      else case map_of (sc_records s) i of
             None \<Rightarrow> (Throw UnknownTask, s)
           | Some r \<Rightarrow>
               let st = sn_status (snap s r) in
               if st \<noteq> Interrupted \<and> st \<noteq> WaitingUser then (Throw (CannotResume st), s)
               else if st = WaitingUser \<and> sn_checkpoint (snap s r) = None then (Throw NoCheckpoint, s)
               else (case c of
                       None \<Rightarrow> let s1 = requeue ckey now i r s in (scheduledPromise r s1, s1)
                     | Some cp \<Rightarrow>
                         (case normalizeCheckpoint now cp of
                            None \<Rightarrow> (Throw CheckpointUnavailable, s)
                          | Some n \<Rightarrow>
                              let s1 = requeue ckey now i r (upd r (on_snapshot (\<lambda>m. m\<lparr>sn_checkpoint := Some n\<rparr>)) s)
                              in (scheduledPromise r s1, s1))))"

section \<open>Recovery and shutdown\<close>

definition rehydrateCheck :: "work \<Rightarrow> sched \<Rightarrow> (sched_error, unit) res" where
  "rehydrateCheck w s =
     (if \<not> sc_persistence s then Throw NoPersistence
      else if is_closing s then Throw IsStopping
      else if js_trim (wk_id w) = [] then Throw IdUnavailable
      else if map_of (sc_records s) (wk_id w) \<noteq> None then Throw IdUnavailable
      else Ok ())"

text \<open>The call up to \<open>await persistence.load\<close>; the calls that wait are \<open>sc_loads\<close>.\<close>

definition rehydrateBegin :: "work \<Rightarrow> sched \<Rightarrow> (sched_error, unit) res \<times> sched" where
  "rehydrateBegin w s =
     (case rehydrateCheck w s of
        Inl e \<Rightarrow> (Throw e, s)
      | Inr _ \<Rightarrow> (Ok (), s\<lparr>sc_loads := sc_loads s @ [w]\<rparr>))"

definition restoredSnapshot :: "int \<Rightarrow> task_state \<Rightarrow> snapshot" where
  "restoredSnapshot now stored =
     (let sn = (ts_snapshot stored)\<lparr>sn_status := ts_status stored\<rparr>;
          sn1 = (if ts_status stored = Running
                 then sn\<lparr>sn_status := Interrupted, sn_error := Some (interruptedError recovery_interruption),
                        sn_finishedAt := Some now\<rparr>
                 else sn)
      in sn1\<lparr>sn_attempts := Some (case sn_attempts sn1 of None \<Rightarrow> max 0 (ts_attempts stored) | Some n \<Rightarrow> n)\<rparr>)"

definition restore :: "(jstring \<Rightarrow> int list) \<Rightarrow> int \<Rightarrow> work \<Rightarrow> task_state option \<Rightarrow> sched \<Rightarrow>
    (sched_error, nat option) res \<times> sched" where
  "restore ckey now w loaded s =
     (case loaded of
        None \<Rightarrow> (Ok None, s)
      | Some stored \<Rightarrow>
          if ts_id stored \<noteq> wk_id w \<or> sn_id (ts_snapshot stored) \<noteq> wk_id w then (Throw StateMismatch, s)
          else if ts_mode stored \<noteq> wk_mode w \<or> sn_mode (ts_snapshot stored) \<noteq> wk_mode w then (Throw ModeMismatch, s)
          else if ts_status stored \<in> {Completed, Failed, Cancelled} then (Ok None, s)
          else let sn = restoredSnapshot now stored;
                   s1 = (if sn_status sn = Interrupted \<or> sn_status sn = WaitingUser
                         then settle (Some (sc_nextPromise s)) (ResolvedWith None) s else s);
                   readyAt = (case ts_readyAt stored of None \<Rightarrow> now | Some t \<Rightarrow> t);
                   resumeFrom = (if sn_status sn = Queued then sn_checkpoint sn else None);
                   (r, s2) = allocate (wk_id w)
                     (newRecord w sn (max 0 (ts_attempts stored)) readyAt resumeFrom s1) s1;
                   s3 = wake (registerDedupe r s2);
                   s4 = (if sn_status sn = Queued then arm ckey now r (emit EQueued (wk_id w) s3)
                         else if ts_status stored = Running then persist r s3 else s3)
               in (case scheduledPromise r s4 of Inl e \<Rightarrow> Throw e | Inr p \<Rightarrow> Ok (Some p), s4))"

definition rehydrateEnd :: "(jstring \<Rightarrow> int list) \<Rightarrow> int \<Rightarrow> nat \<Rightarrow> task_state option \<Rightarrow> sched \<Rightarrow>
    (sched_error, nat option) res \<times> sched" where
  "rehydrateEnd ckey now k loaded s =
     restore ckey now (sc_loads s ! k) loaded
       (s\<lparr>sc_loads := take k (sc_loads s) @ drop (Suc k) (sc_loads s)\<rparr>)"

text \<open>\<open>rehydrateAll\<close> when nothing else runs while it waits; \<open>load\<close> is the persistence port.\<close>

fun rehydrateEach :: "(jstring \<Rightarrow> int list) \<Rightarrow> int \<Rightarrow> (task_state \<Rightarrow> work option) \<Rightarrow>
    (jstring \<Rightarrow> task_state option) \<Rightarrow> task_state list \<Rightarrow> nat list \<Rightarrow> sched \<Rightarrow>
    (sched_error, nat list) res \<times> sched" where
  "rehydrateEach ckey now resolveWork load [] handles s = (Ok handles, s)"
| "rehydrateEach ckey now resolveWork load (state # states) handles s =
     (if ts_status state \<in> {Completed, Failed, Cancelled}
      then rehydrateEach ckey now resolveWork load states handles s
      else case resolveWork state of
             None \<Rightarrow> rehydrateEach ckey now resolveWork load states handles s
           | Some w \<Rightarrow>
               if wk_id w \<noteq> ts_id state then (Throw ResolvedMismatch, s)
               else (case rehydrateCheck w s of
                       Inl e \<Rightarrow> (Throw e, s)
                     | Inr _ \<Rightarrow>
                         (case restore ckey now w (load (wk_id w)) s of
                            (Inl e, s1) \<Rightarrow> (Throw e, s1)
                          | (Inr None, s1) \<Rightarrow> rehydrateEach ckey now resolveWork load states handles s1
                          | (Inr (Some p), s1) \<Rightarrow>
                              rehydrateEach ckey now resolveWork load states (handles @ [p]) s1)))"

definition rehydrateAll :: "(jstring \<Rightarrow> int list) \<Rightarrow> int \<Rightarrow> (task_state \<Rightarrow> work option) \<Rightarrow>
    (jstring \<Rightarrow> task_state option) \<Rightarrow> task_state list option \<Rightarrow> sched \<Rightarrow>
    (sched_error, nat list) res \<times> sched" where
  "rehydrateAll ckey now resolveWork load listed s =
     (if \<not> sc_persistence s then (Throw NoPersistence, s)
      else case listed of
             None \<Rightarrow> (Throw NoListing, s)
           | Some states \<Rightarrow>
               if is_closing s then (Throw IsStopping, s)
               else rehydrateEach ckey now resolveWork load states [] s)"

text \<open>\<open>stop\<close> up to the promises it awaits, and its end.\<close>

definition stopBegin :: "(jstring \<Rightarrow> int list) \<Rightarrow> int \<Rightarrow> sched \<Rightarrow> nat list \<times> sched" where
  "stopBegin ckey now s =
     (if sc_state s = Stopped then ([], s)
      else let s1 = fold (\<lambda>(i, r) s.
                 if \<not> isTerminal (sn_status (snap s r)) \<and> sn_status (snap s r) \<noteq> Interrupted
                 then snd (interrupt ckey now (ref_id s r) s) else s)
               (sc_records s) (s\<lparr>sc_state := Stopping\<rparr>)
           in (List.map_filter (\<lambda>(i, r). rc_promise (sc_store s1 r)) (sc_records s1), s1))"

definition stopEnd :: "sched \<Rightarrow> sched" where
  "stopEnd s = s\<lparr>sc_state := Stopped\<rparr>"

section \<open>Steps\<close>

text \<open>What a call, a timer, a microtask or the end of a wait does to the scheduler.\<close>

inductive sched_step :: "(jstring \<Rightarrow> int list) \<Rightarrow> sched \<Rightarrow> sched \<Rightarrow> bool" for ckey where
  step_start: "sched_step ckey s (snd (start ckey now s))"
| step_schedule: "sched_step ckey s (snd (schedule ckey now w s))"
| step_cancel: "sched_step ckey s (snd (cancel ckey now i s))"
| step_checkpoint: "sched_step ckey s (snd (checkpointTask now i c s))"
| step_waitForUser: "sched_step ckey s (snd (waitForUser ckey now i cp s))"
| step_interrupt: "sched_step ckey s (snd (interrupt ckey now i s))"
| step_resume: "sched_step ckey s (snd (resume ckey now i cp s))"
| step_rehydrateBegin: "sched_step ckey s (snd (rehydrateBegin w s))"
| step_rehydrateEnd: "k < length (sc_loads s) \<Longrightarrow> sched_step ckey s (snd (rehydrateEnd ckey now k loaded s))"
| step_stopBegin: "sched_step ckey s (snd (stopBegin ckey now s))"
| step_stopEnd: "sc_state s = Stopping \<Longrightarrow> sched_step ckey s (stopEnd s)"
| step_readyTimer: "sc_readyTimer s \<noteq> None \<Longrightarrow> sched_step ckey s (readyTimerFires ckey now s)"
| step_pumpTask: "sc_pumpScheduled s \<Longrightarrow> sched_step ckey s (pumpTask ckey now s)"
| step_progress: "r < sc_nextRef s \<Longrightarrow> sched_step ckey s (reportProgress r g p s)"
| step_reportCheckpoint: "r < sc_nextRef s \<Longrightarrow> sched_step ckey s (snd (recordCheckpoint now r c g s))"
| step_timeout: "k < length (sc_frames s) \<Longrightarrow> hasTimeout (fr_work (sc_frames s ! k)) \<Longrightarrow>
    sched_step ckey s (timeoutFires k s)"
| step_returned: "k < length (sc_frames s) \<Longrightarrow> \<not> fr_timedOut (sc_frames s ! k) \<Longrightarrow>
    sched_step ckey s (endExecution ckey now k (Returned v) s)"
| step_threw: "k < length (sc_frames s) \<Longrightarrow> \<not> fr_timedOut (sc_frames s ! k) \<Longrightarrow>
    sched_step ckey s (endExecution ckey now k (Threw e) s)"
| step_timedOut: "k < length (sc_frames s) \<Longrightarrow> fr_timedOut (sc_frames s ! k) \<Longrightarrow>
    wk_timeoutMs (fr_work (sc_frames s ! k)) = Some ms \<Longrightarrow>
    sched_step ckey s (endExecution ckey now k (Threw (timeoutError ms)) s)"

definition sched_reach :: "(jstring \<Rightarrow> int list) \<Rightarrow> sched \<Rightarrow> bool" where
  "sched_reach ckey s \<longleftrightarrow>
     (\<exists>mf mb p. (sched_step ckey)\<^sup>*\<^sup>* (newScheduler mf mb p) s)"

end
