(* ===== verification/SchedulerInv.thy ===== *)
theory SchedulerInv
  imports Scheduler
begin

text \<open>
  Correctness of the task scheduler. \<open>sched_inv\<close> is an invariant of every step: the queues are
  heaps of the queued records, a slot is held exactly by each running record, a running record has
  one current execution, and every promise is settled once, when its record stops being queued or
  running.
\<close>

section \<open>The comparisons are total preorders\<close>

lemma compare_keys_trans:
  "compare_keys a b \<le> 0 \<Longrightarrow> compare_keys b c \<le> 0 \<Longrightarrow> compare_keys a c \<le> 0"
proof (induction a arbitrary: b c)
  case Nil
  then show ?case by (cases c) (auto elim: compare_keys.elims)
next
  case (Cons x xs)
  then show ?case by (cases b; cases c) (auto split: if_splits)
qed

lemma compare_keys_swap: "compare_keys b a = - compare_keys a b"
  by (induction a b rule: compare_keys.induct) auto

lemma compare_scheduled_trans:
  "compareScheduledRecords ckey x y \<le> 0 \<Longrightarrow> compareScheduledRecords ckey y z \<le> 0 \<Longrightarrow>
   compareScheduledRecords ckey x z \<le> 0"
  using compare_keys_trans [of "ckey (sn_id (rc_snapshot x))" "ckey (sn_id (rc_snapshot y))" "ckey (sn_id (rc_snapshot z))"]
  by (auto simp: compareScheduledRecords_def Let_def split: if_splits)

lemma compare_scheduled_swap: "compareScheduledRecords ckey y x = - compareScheduledRecords ckey x y"
  by (simp add: compareScheduledRecords_def Let_def compare_keys_swap [of "ckey (sn_id (rc_snapshot y))"])

interpretation scheduled_order: comparison "scheduled_cmp ckey s" for ckey s
proof
  show "scheduled_cmp ckey s a b \<le> 0 \<Longrightarrow> scheduled_cmp ckey s b c \<le> 0 \<Longrightarrow> scheduled_cmp ckey s a c \<le> 0" for a b c
    unfolding scheduled_cmp_def by (rule compare_scheduled_trans)
  show "0 \<le> scheduled_cmp ckey s a b \<Longrightarrow> scheduled_cmp ckey s b a \<le> 0"
    and "scheduled_cmp ckey s a b < 0 \<Longrightarrow> 0 < scheduled_cmp ckey s b a" for a b
    using compare_scheduled_swap [of ckey "sc_store s a" "sc_store s b"] by (simp_all add: scheduled_cmp_def)
qed

interpretation ready_order: comparison "ready_cmp ckey s" for ckey s
proof
  show "ready_cmp ckey s a b \<le> 0 \<Longrightarrow> ready_cmp ckey s b c \<le> 0 \<Longrightarrow> ready_cmp ckey s a c \<le> 0" for a b c
    using compare_scheduled_trans [of ckey "sc_store s a" "sc_store s b" "sc_store s c"]
    by (auto simp: ready_cmp_def compareReadyRecords_def Let_def split: if_splits)
  show "0 \<le> ready_cmp ckey s a b \<Longrightarrow> ready_cmp ckey s b a \<le> 0"
    and "ready_cmp ckey s a b < 0 \<Longrightarrow> 0 < ready_cmp ckey s b a" for a b
    using compare_scheduled_swap [of ckey "sc_store s a" "sc_store s b"]
    by (auto simp: ready_cmp_def compareReadyRecords_def Let_def split: if_splits)
qed


section \<open>The queues\<close>

abbreviation sq_ok :: "(jstring \<Rightarrow> int list) \<Rightarrow> sched \<Rightarrow> nat pqueue \<Rightarrow> bool" where
  "sq_ok ckey s \<equiv> comparison.pq_ok (scheduled_cmp ckey s) (ref_id s)"

abbreviation rq_ok :: "(jstring \<Rightarrow> int list) \<Rightarrow> sched \<Rightarrow> nat pqueue \<Rightarrow> bool" where
  "rq_ok ckey s \<equiv> comparison.pq_ok (ready_cmp ckey s) (ref_id s)"

abbreviation entries_of :: "nat pqueue \<Rightarrow> nat set" where
  "entries_of q \<equiv> set (pq_entries q)"

text \<open>What the order of a queue depends on.\<close>

definition same_order :: "sched \<Rightarrow> sched \<Rightarrow> nat \<Rightarrow> bool" where
  "same_order s s' r \<longleftrightarrow> rc_priority (sc_store s' r) = rc_priority (sc_store s r) \<and>
     rc_readyAt (sc_store s' r) = rc_readyAt (sc_store s r) \<and> ref_id s' r = ref_id s r"

lemma parent_in_range: "0 < j \<Longrightarrow> j < n \<Longrightarrow> parentIndex j < n"
  by (simp add: parentIndex_def)

lemma positions_ok_cong:
  "(\<And>r. r \<in> entries_of q \<Longrightarrow> key' r = key r) \<Longrightarrow> positions_ok key' q = positions_ok key q"
  unfolding positions_ok_def by (metis nth_mem)

lemma sq_ok_cong:
  assumes same: "\<And>r. r \<in> entries_of q \<Longrightarrow> same_order s s' r"
  shows "sq_ok ckey s' q = sq_ok ckey s q"
proof -
  have key: "ref_id s' r = ref_id s r" if "r \<in> entries_of q" for r
    using same [OF that] by (simp add: same_order_def)
  have "scheduled_cmp ckey s' a b = scheduled_cmp ckey s a b" if "a \<in> entries_of q" "b \<in> entries_of q" for a b
    using same [OF that(1)] same [OF that(2)]
    by (simp add: same_order_def scheduled_cmp_def compareScheduledRecords_def ref_id_def)
  then have "scheduled_order.heap ckey s' (pq_entries q) = scheduled_order.heap ckey s (pq_entries q)"
    by (simp add: scheduled_order.heap_def scheduled_order.ordered_at_def parent_in_range cong: imp_cong)
  then show ?thesis
    by (simp add: scheduled_order.pq_ok_def positions_ok_cong [OF key])
qed

lemma rq_ok_cong:
  assumes same: "\<And>r. r \<in> entries_of q \<Longrightarrow> same_order s s' r"
  shows "rq_ok ckey s' q = rq_ok ckey s q"
proof -
  have key: "ref_id s' r = ref_id s r" if "r \<in> entries_of q" for r
    using same [OF that] by (simp add: same_order_def)
  have "ready_cmp ckey s' a b = ready_cmp ckey s a b" if "a \<in> entries_of q" "b \<in> entries_of q" for a b
    using same [OF that(1)] same [OF that(2)]
    by (simp add: same_order_def ready_cmp_def compareReadyRecords_def compareScheduledRecords_def ref_id_def Let_def)
  then have "ready_order.heap ckey s' (pq_entries q) = ready_order.heap ckey s (pq_entries q)"
    by (simp add: ready_order.heap_def ready_order.ordered_at_def parent_in_range cong: imp_cong)
  then show ?thesis
    by (simp add: ready_order.pq_ok_def positions_ok_cong [OF key])
qed

section \<open>The invariant\<close>

text \<open>
  The records of \<open>X\<close> are in the middle of a call: queued or running, without a current execution,
  and perhaps aborted or in no queue.
\<close>

abbreviation status_at :: "sched \<Rightarrow> nat \<Rightarrow> status" where
  "status_at s r \<equiv> sn_status (rc_snapshot (sc_store s r))"

abbreviation is_active :: "status \<Rightarrow> bool" where
  "is_active st \<equiv> st = Queued \<or> st = Running"

abbreviation settled_ids :: "sched \<Rightarrow> nat set" where
  "settled_ids s \<equiv> fst ` set (sc_settled s)"

definition current :: "sched \<Rightarrow> frame \<Rightarrow> bool" where
  "current s f \<longleftrightarrow> fr_generation f = rc_generation (sc_store s (fr_ref f))"

definition lonely :: "sched \<Rightarrow> nat \<Rightarrow> bool" where
  "lonely s r \<longleftrightarrow> (\<forall>r' < sc_nextRef s. ref_id s r' = ref_id s r \<longrightarrow> r' = r)"

definition queue_inv :: "(jstring \<Rightarrow> int list) \<Rightarrow> sched \<Rightarrow> bool" where
  "queue_inv ckey s \<longleftrightarrow> sq_ok ckey s (sc_foregroundReady s) \<and> sq_ok ckey s (sc_backgroundReady s) \<and>
     rq_ok ckey s (sc_delayedReady s)"

definition in_queue :: "sched \<Rightarrow> nat \<Rightarrow> bool" where
  "in_queue s r \<longleftrightarrow> r \<in> entries_of (sc_foregroundReady s) \<or> r \<in> entries_of (sc_backgroundReady s) \<or>
     r \<in> entries_of (sc_delayedReady s)"

definition entry_inv :: "nat set \<Rightarrow> sched \<Rightarrow> bool" where
  "entry_inv X s \<longleftrightarrow>
     (\<forall>r. in_queue s r \<longrightarrow> r < sc_nextRef s \<and> status_at s r = Queued) \<and>
     (\<forall>r \<in> entries_of (sc_foregroundReady s). isForegroundMode (sn_mode (snap s r))) \<and>
     (\<forall>r \<in> entries_of (sc_backgroundReady s). \<not> isForegroundMode (sn_mode (snap s r))) \<and>
     (\<forall>r \<in> entries_of (sc_delayedReady s).
        r \<notin> entries_of (sc_foregroundReady s) \<and> r \<notin> entries_of (sc_backgroundReady s)) \<and>
     (\<forall>r < sc_nextRef s. status_at s r = Queued \<and> r \<notin> X \<and> lonely s r \<longrightarrow> in_queue s r)"

definition record_ok :: "nat set \<Rightarrow> sched \<Rightarrow> nat \<Rightarrow> bool" where
  "record_ok X s r \<longleftrightarrow>
     (rc_slotAcquired (sc_store s r) \<longleftrightarrow> status_at s r = Running) \<and>
     (\<forall>c. rc_controller (sc_store s r) = Some c \<longrightarrow> c < sc_nextController s) \<and>
     (\<forall>p. rc_promise (sc_store s r) = Some p \<longrightarrow> p < sc_nextPromise s \<and>
        (p \<in> settled_ids s \<longleftrightarrow> \<not> is_active (status_at s r))) \<and>
     (is_active (status_at s r) \<longrightarrow> rc_controller (sc_store s r) \<noteq> None) \<and>
     (status_at s r \<notin> {Completed, Failed, Cancelled} \<longrightarrow>
        rc_work (sc_store s r) \<noteq> None \<and> rc_promise (sc_store s r) \<noteq> None) \<and>
     (status_at s r = Queued \<and> r \<notin> X \<longrightarrow> \<not> aborted (rc_controller (sc_store s r)) s)"

definition owner_inv :: "sched \<Rightarrow> bool" where
  "owner_inv s \<longleftrightarrow>
     (\<forall>r < sc_nextRef s. \<forall>r' < sc_nextRef s. \<forall>c. rc_controller (sc_store s r) = Some c \<longrightarrow>
        rc_controller (sc_store s r') = Some c \<longrightarrow> r = r') \<and>
     (\<forall>r < sc_nextRef s. \<forall>r' < sc_nextRef s. \<forall>p. rc_promise (sc_store s r) = Some p \<longrightarrow>
        rc_promise (sc_store s r') = Some p \<longrightarrow> r = r') \<and>
     (\<forall>f \<in> set (sc_frames s). \<forall>r < sc_nextRef s. rc_controller (sc_store s r) = Some (fr_controller f) \<longrightarrow>
        r = fr_ref f \<and> status_at s r \<noteq> Queued)"

definition frame_ok :: "nat set \<Rightarrow> sched \<Rightarrow> frame \<Rightarrow> bool" where
  "frame_ok X s f \<longleftrightarrow> fr_ref f < sc_nextRef s \<and> fr_generation f \<le> rc_generation (sc_store s (fr_ref f)) \<and>
     fr_controller f < sc_nextController s \<and> (fr_timedOut f \<longrightarrow> hasTimeout (fr_work f)) \<and>
     (current s f \<longrightarrow> fr_ref f \<notin> X \<and> status_at s (fr_ref f) = Running \<and>
        rc_controller (sc_store s (fr_ref f)) = Some (fr_controller f) \<and>
        (fr_controller f \<in> sc_aborted s \<longrightarrow> fr_timedOut f))"

definition frame_inv :: "nat set \<Rightarrow> sched \<Rightarrow> bool" where
  "frame_inv X s \<longleftrightarrow> (\<forall>f \<in> set (sc_frames s). frame_ok X s f) \<and>
     (\<forall>r < sc_nextRef s. status_at s r = Running \<and> r \<notin> X \<longrightarrow>
        (\<exists>f \<in> set (sc_frames s). fr_ref f = r \<and> current s f)) \<and>
     distinct (map (\<lambda>f. (fr_ref f, fr_generation f)) (sc_frames s))"

definition slot_holders :: "bool \<Rightarrow> sched \<Rightarrow> nat set" where
  "slot_holders fg s = {r. r < sc_nextRef s \<and> rc_slotAcquired (sc_store s r) \<and>
     isForegroundMode (sn_mode (snap s r)) = fg}"

definition slot_inv :: "sched \<Rightarrow> bool" where
  "slot_inv s \<longleftrightarrow>
     sc_runningForeground s = int (card (slot_holders True s)) \<and>
     sc_runningBackground s = int (card (slot_holders False s)) \<and>
     sc_runningForeground s \<le> sc_maxForeground s \<and> sc_runningBackground s \<le> sc_maxBackground s"

definition promise_inv :: "sched \<Rightarrow> bool" where
  "promise_inv s \<longleftrightarrow> distinct (map fst (sc_settled s)) \<and> (\<forall>p \<in> settled_ids s. p < sc_nextPromise s) \<and>
     (\<forall>p < sc_nextPromise s. p \<in> settled_ids s \<or>
        (\<exists>r < sc_nextRef s. rc_promise (sc_store s r) = Some p \<and> is_active (status_at s r)))"

definition map_inv :: "sched \<Rightarrow> bool" where
  "map_inv s \<longleftrightarrow> distinct (map fst (sc_records s)) \<and>
     (\<forall>i r. map_of (sc_records s) i = Some r \<longrightarrow> r < sc_nextRef s \<and> ref_id s r = i) \<and>
     (\<forall>r < sc_nextRef s. map_of (sc_records s) (ref_id s r) \<noteq> None)"

definition abort_inv :: "sched \<Rightarrow> bool" where
  "abort_inv s \<longleftrightarrow> (\<forall>c \<in> sc_aborted s. c < sc_nextController s)"

definition apart_inv :: "nat set \<Rightarrow> sched \<Rightarrow> bool" where
  "apart_inv X s \<longleftrightarrow> (\<forall>f \<in> set (sc_frames s). fr_ref f \<notin> X \<longrightarrow> status_at s (fr_ref f) = Running \<longrightarrow>
     rc_controller (sc_store s (fr_ref f)) = Some (fr_controller f) \<longrightarrow> current s f)"

lemma apartI: "(\<And>f. f \<in> set (sc_frames s) \<Longrightarrow> fr_ref f \<notin> X \<Longrightarrow> status_at s (fr_ref f) = Running \<Longrightarrow>
    rc_controller (sc_store s (fr_ref f)) = Some (fr_controller f) \<Longrightarrow> current s f) \<Longrightarrow> apart_inv X s"
  by (simp add: apart_inv_def)

lemma apartD: "apart_inv X s \<Longrightarrow> f \<in> set (sc_frames s) \<Longrightarrow> fr_ref f \<notin> X \<Longrightarrow> status_at s (fr_ref f) = Running \<Longrightarrow>
    rc_controller (sc_store s (fr_ref f)) = Some (fr_controller f) \<Longrightarrow> current s f"
  unfolding apart_inv_def by (drule (1) bspec, drule (1) mp, drule (1) mp, drule (1) mp)

definition inv_except :: "nat set \<Rightarrow> (jstring \<Rightarrow> int list) \<Rightarrow> sched \<Rightarrow> bool" where
  "inv_except X ckey s \<longleftrightarrow> queue_inv ckey s \<and> entry_inv X s \<and> (\<forall>r < sc_nextRef s. record_ok X s r) \<and>
     owner_inv s \<and> frame_inv X s \<and> slot_inv s \<and> promise_inv s \<and> map_inv s \<and> abort_inv s \<and> apart_inv X s"

definition sched_inv :: "(jstring \<Rightarrow> int list) \<Rightarrow> sched \<Rightarrow> bool" where
  "sched_inv ckey s \<longleftrightarrow> inv_except {} ckey s"

section \<open>What the invariant does not see\<close>

text \<open>Logs, timers, the lifecycle and the dedupe index are no part of the invariant.\<close>

definition core :: "sched \<Rightarrow> sched" where
  "core s = s\<lparr>sc_dedupeIndex := Map.empty, sc_persistence := False, sc_state := Idle, sc_nextSequence := 0,
     sc_readyTimer := None, sc_pumpScheduled := False, sc_loads := [], sc_events := [], sc_saves := []\<rparr>"

lemma core_fields [simp]:
  "sc_store (core s) = sc_store s" "sc_nextRef (core s) = sc_nextRef s" "sc_records (core s) = sc_records s"
  "sc_foregroundReady (core s) = sc_foregroundReady s" "sc_backgroundReady (core s) = sc_backgroundReady s"
  "sc_delayedReady (core s) = sc_delayedReady s" "sc_maxForeground (core s) = sc_maxForeground s"
  "sc_maxBackground (core s) = sc_maxBackground s" "sc_runningForeground (core s) = sc_runningForeground s"
  "sc_runningBackground (core s) = sc_runningBackground s" "sc_aborted (core s) = sc_aborted s"
  "sc_nextController (core s) = sc_nextController s" "sc_nextPromise (core s) = sc_nextPromise s"
  "sc_frames (core s) = sc_frames s" "sc_settled (core s) = sc_settled s"
  by (simp_all add: core_def)

lemma core_views [simp]:
  "ref_id (core s) = ref_id s" "scheduled_cmp ckey (core s) = scheduled_cmp ckey s"
  "ready_cmp ckey (core s) = ready_cmp ckey s" "aborted c (core s) = aborted c s"
  "live_queued (core s) = live_queued s" "current (core s) = current s" "lonely (core s) = lonely s"
  "slot_holders fg (core s) = slot_holders fg s" "in_queue (core s) = in_queue s"
  by (auto simp: fun_eq_iff ref_id_def scheduled_cmp_def ready_cmp_def aborted_def live_queued_def current_def
      lonely_def slot_holders_def in_queue_def split: option.splits)

lemma inv_core: "inv_except X ckey (core s) = inv_except X ckey s"
  by (simp add: inv_except_def queue_inv_def entry_inv_def record_ok_def owner_inv_def frame_inv_def frame_ok_def
      slot_inv_def promise_inv_def map_inv_def abort_inv_def apart_inv_def)

lemma inv_core_eq: "core s = core t \<Longrightarrow> inv_except X ckey s = inv_except X ckey t"
  using inv_core by metis

lemma core_neutral [simp]:
  "core (emit ty i s) = core s" "core (persist r s) = core s" "core (releaseDedupe r s) = core s"
  "core (registerDedupe r s) = core s" "core (scheduleReadyTimer s) = core s" "core (schedulePump s) = core s"
  "core (wake s) = core s" "core (snd (findDuplicate k s)) = core s" "core (core s) = core s"
  "core (s\<lparr>sc_state := l\<rparr>) = core s" "core (s\<lparr>sc_pumpScheduled := b\<rparr>) = core s"
  "core (s\<lparr>sc_readyTimer := t\<rparr>) = core s" "core (s\<lparr>sc_loads := ls\<rparr>) = core s"
  by (simp_all add: core_def emit_def persist_def releaseDedupe_def registerDedupe_def scheduleReadyTimer_def
      schedulePump_def wake_def findDuplicate_def Let_def split: sum.splits option.splits)

text \<open>So the fields of the core are unchanged too.\<close>

lemma core_eq_fields:
  assumes "core s' = core s"
  shows "sc_store s' = sc_store s" "sc_nextRef s' = sc_nextRef s" "sc_records s' = sc_records s"
    "sc_foregroundReady s' = sc_foregroundReady s" "sc_backgroundReady s' = sc_backgroundReady s"
    "sc_delayedReady s' = sc_delayedReady s" "sc_aborted s' = sc_aborted s"
    "sc_nextController s' = sc_nextController s" "sc_nextPromise s' = sc_nextPromise s"
    "sc_frames s' = sc_frames s" "sc_settled s' = sc_settled s"
  using assms by (metis core_fields)+

lemmas neutral_fields [simp] =
  core_eq_fields [OF core_neutral(1)] core_eq_fields [OF core_neutral(2)] core_eq_fields [OF core_neutral(3)]
  core_eq_fields [OF core_neutral(4)] core_eq_fields [OF core_neutral(5)] core_eq_fields [OF core_neutral(6)]
  core_eq_fields [OF core_neutral(7)] core_eq_fields [OF core_neutral(8)]

lemma core_commutes:
  "core (upd r f s) = upd r f (core s)" "core (settle p v s) = settle p v (core s)"
  "core (abort r s) = abort r (core s)" "core (releaseSlot r s) = releaseSlot r (core s)"
  "core (acquireSlot r s) = acquireSlot r (core s)" "core (newController r s) = newController r (core s)"
  "core (releaseSettledRuntime r s) = releaseSettledRuntime r (core s)"
  "core (s\<lparr>sc_delayedReady := q\<rparr>) = (core s)\<lparr>sc_delayedReady := q\<rparr>"
  "core (s\<lparr>sc_foregroundReady := q\<rparr>) = (core s)\<lparr>sc_foregroundReady := q\<rparr>"
  "core (s\<lparr>sc_backgroundReady := q\<rparr>) = (core s)\<lparr>sc_backgroundReady := q\<rparr>"
  "core (s\<lparr>sc_frames := fs\<rparr>) = (core s)\<lparr>sc_frames := fs\<rparr>"
  "core (s\<lparr>sc_nextPromise := n\<rparr>) = (core s)\<lparr>sc_nextPromise := n\<rparr>"
  "core (s\<lparr>sc_aborted := a\<rparr>) = (core s)\<lparr>sc_aborted := a\<rparr>"
  by (simp_all add: core_def upd_def settle_def abort_def releaseSlot_def acquireSlot_def newController_def
      releaseSettledRuntime_def split: option.splits)

lemma core_ready [simp]:
  "core (readyPush ckey r s) = readyPush ckey r (core s)" "core (readyRemove ckey r s) = readyRemove ckey r (core s)"
  by (simp_all add: readyPush_def readyRemove_def core_commutes)

section \<open>A record stops being active\<close>

lemma upd_fields [simp]:
  "sc_store (upd r f s) = (sc_store s)(r := f (sc_store s r))" "sc_nextRef (upd r f s) = sc_nextRef s"
  "sc_records (upd r f s) = sc_records s" "sc_foregroundReady (upd r f s) = sc_foregroundReady s"
  "sc_backgroundReady (upd r f s) = sc_backgroundReady s" "sc_delayedReady (upd r f s) = sc_delayedReady s"
  "sc_maxForeground (upd r f s) = sc_maxForeground s" "sc_maxBackground (upd r f s) = sc_maxBackground s"
  "sc_runningForeground (upd r f s) = sc_runningForeground s"
  "sc_runningBackground (upd r f s) = sc_runningBackground s" "sc_aborted (upd r f s) = sc_aborted s"
  "sc_nextController (upd r f s) = sc_nextController s" "sc_nextPromise (upd r f s) = sc_nextPromise s"
  "sc_frames (upd r f s) = sc_frames s" "sc_settled (upd r f s) = sc_settled s" "sc_state (upd r f s) = sc_state s"
  by (simp_all add: upd_def)

lemma releaseSlot_fields [simp]:
  "sc_nextRef (releaseSlot r s) = sc_nextRef s" "sc_records (releaseSlot r s) = sc_records s"
  "sc_foregroundReady (releaseSlot r s) = sc_foregroundReady s"
  "sc_backgroundReady (releaseSlot r s) = sc_backgroundReady s" "sc_delayedReady (releaseSlot r s) = sc_delayedReady s"
  "sc_maxForeground (releaseSlot r s) = sc_maxForeground s" "sc_maxBackground (releaseSlot r s) = sc_maxBackground s"
  "sc_aborted (releaseSlot r s) = sc_aborted s"
  "sc_nextController (releaseSlot r s) = sc_nextController s" "sc_nextPromise (releaseSlot r s) = sc_nextPromise s"
  "sc_frames (releaseSlot r s) = sc_frames s" "sc_settled (releaseSlot r s) = sc_settled s"
  "sc_state (releaseSlot r s) = sc_state s"
  "sc_store (releaseSlot r s) = (sc_store s)(r := (sc_store s r)\<lparr>rc_slotAcquired := False\<rparr>)"
  "sc_runningForeground (releaseSlot r s) = sc_runningForeground s -
     (if rc_slotAcquired (sc_store s r) \<and> isForegroundMode (sn_mode (snap s r)) then 1 else 0)"
  "sc_runningBackground (releaseSlot r s) = sc_runningBackground s -
     (if rc_slotAcquired (sc_store s r) \<and> \<not> isForegroundMode (sn_mode (snap s r)) then 1 else 0)"
  by (auto simp: releaseSlot_def upd_def)

lemma settle_fields [simp]:
  "sc_store (settle p v s) = sc_store s" "sc_nextRef (settle p v s) = sc_nextRef s"
  "sc_records (settle p v s) = sc_records s" "sc_foregroundReady (settle p v s) = sc_foregroundReady s"
  "sc_backgroundReady (settle p v s) = sc_backgroundReady s" "sc_delayedReady (settle p v s) = sc_delayedReady s"
  "sc_maxForeground (settle p v s) = sc_maxForeground s" "sc_maxBackground (settle p v s) = sc_maxBackground s"
  "sc_runningForeground (settle p v s) = sc_runningForeground s"
  "sc_runningBackground (settle p v s) = sc_runningBackground s" "sc_aborted (settle p v s) = sc_aborted s"
  "sc_nextController (settle p v s) = sc_nextController s" "sc_nextPromise (settle p v s) = sc_nextPromise s"
  "sc_frames (settle p v s) = sc_frames s" "sc_state (settle p v s) = sc_state s"
  "sc_settled (settle (Some q) v s) = sc_settled s @ [(q, v)]"
  by (simp_all add: settle_def split: option.splits)

definition leave :: "nat \<Rightarrow> (snapshot \<Rightarrow> snapshot) \<Rightarrow> bool \<Rightarrow> settled \<Rightarrow> sched \<Rightarrow> sched" where
  "leave r g release v s =
     (let s1 = upd r (on_snapshot g) (releaseSlot r s)
      in settle (rc_promise (sc_store s r)) v (if release then releaseSettledRuntime r s1 else s1))"

text \<open>What a snapshot change keeps, and the status it gives.\<close>

definition sets_status :: "status \<Rightarrow> (snapshot \<Rightarrow> snapshot) \<Rightarrow> bool" where
  "sets_status st g \<longleftrightarrow> (\<forall>n. sn_id (g n) = sn_id n \<and> sn_mode (g n) = sn_mode n \<and> sn_status (g n) = st)"

lemma slot_holders_release:
  assumes "\<And>r'. r' \<noteq> r \<Longrightarrow> sc_store s' r' = sc_store s r'" "\<not> rc_slotAcquired (sc_store s' r)"
    "sc_nextRef s' = sc_nextRef s"
  shows "slot_holders fg s' = slot_holders fg s - {r}"
  using assms unfolding slot_holders_def by auto metis+

lemma card_holders_release:
  assumes "r < sc_nextRef s"
  shows "int (card (slot_holders fg s - {r})) = int (card (slot_holders fg s)) -
     (if rc_slotAcquired (sc_store s r) \<and> isForegroundMode (sn_mode (snap s r)) = fg then 1 else 0)"
proof -
  have fin: "finite (slot_holders fg s)" by (simp add: slot_holders_def)
  show ?thesis
  proof (cases "r \<in> slot_holders fg s")
    case True
    then have "0 < card (slot_holders fg s)" using fin card_gt_0_iff by blast
    then show ?thesis using True fin by (auto simp: slot_holders_def of_nat_diff)
  next
    case False
    then show ?thesis using assms by (auto simp: slot_holders_def)
  qed
qed

lemma leave_fields:
  fixes v :: settled and release :: bool and g :: "snapshot \<Rightarrow> snapshot"
  assumes "rc_promise (sc_store s r) = Some p"
  defines "s' \<equiv> leave r g release v s"
  shows "sc_nextRef s' = sc_nextRef s" "sc_records s' = sc_records s"
    "sc_foregroundReady s' = sc_foregroundReady s" "sc_backgroundReady s' = sc_backgroundReady s"
    "sc_delayedReady s' = sc_delayedReady s" "sc_aborted s' = sc_aborted s" "sc_frames s' = sc_frames s"
    "sc_maxForeground s' = sc_maxForeground s" "sc_maxBackground s' = sc_maxBackground s"
    "sc_nextController s' = sc_nextController s" "sc_nextPromise s' = sc_nextPromise s"
    "sc_settled s' = sc_settled s @ [(p, v)]"
    "sc_runningForeground s' = sc_runningForeground s -
       (if rc_slotAcquired (sc_store s r) \<and> isForegroundMode (sn_mode (snap s r)) then 1 else 0)"
    "sc_runningBackground s' = sc_runningBackground s -
       (if rc_slotAcquired (sc_store s r) \<and> \<not> isForegroundMode (sn_mode (snap s r)) then 1 else 0)"
    "\<And>r'. r' \<noteq> r \<Longrightarrow> sc_store s' r' = sc_store s r'"
    "rc_snapshot (sc_store s' r) = g (snap s r)" "\<not> rc_slotAcquired (sc_store s' r)"
    "rc_generation (sc_store s' r) = rc_generation (sc_store s r)"
    "rc_priority (sc_store s' r) = rc_priority (sc_store s r)"
    "rc_readyAt (sc_store s' r) = rc_readyAt (sc_store s r)"
    "rc_controller (sc_store s' r) = (if release then None else rc_controller (sc_store s r))"
    "rc_promise (sc_store s' r) = (if release then None else Some p)"
    "rc_work (sc_store s' r) = (if release then None else rc_work (sc_store s r))"
  using assms(1) by (simp_all add: s'_def leave_def Let_def releaseSettledRuntime_def)

lemma owner_controller: "owner_inv s \<Longrightarrow> r < sc_nextRef s \<Longrightarrow> r' < sc_nextRef s \<Longrightarrow>
    rc_controller (sc_store s r) = Some c \<Longrightarrow> rc_controller (sc_store s r') = Some c \<Longrightarrow> r = r'"
  unfolding owner_inv_def by iprover

lemma owner_promise: "owner_inv s \<Longrightarrow> r < sc_nextRef s \<Longrightarrow> r' < sc_nextRef s \<Longrightarrow>
    rc_promise (sc_store s r) = Some p \<Longrightarrow> rc_promise (sc_store s r') = Some p \<Longrightarrow> r = r'"
  unfolding owner_inv_def by iprover

lemma owner_frame: "owner_inv s \<Longrightarrow> f \<in> set (sc_frames s) \<Longrightarrow> r < sc_nextRef s \<Longrightarrow>
    rc_controller (sc_store s r) = Some (fr_controller f) \<Longrightarrow> r = fr_ref f \<and> status_at s r \<noteq> Queued"
  unfolding owner_inv_def
  by (drule conjunct2, drule conjunct2, drule (1) bspec, drule spec, drule (1) mp, drule (1) mp)

lemma owner_invI:
  assumes c: "\<And>r r' c. r < sc_nextRef s \<Longrightarrow> r' < sc_nextRef s \<Longrightarrow> rc_controller (sc_store s r) = Some c \<Longrightarrow>
      rc_controller (sc_store s r') = Some c \<Longrightarrow> r = r'"
    and p: "\<And>r r' p. r < sc_nextRef s \<Longrightarrow> r' < sc_nextRef s \<Longrightarrow> rc_promise (sc_store s r) = Some p \<Longrightarrow>
      rc_promise (sc_store s r') = Some p \<Longrightarrow> r = r'"
    and f: "\<And>f r. f \<in> set (sc_frames s) \<Longrightarrow> r < sc_nextRef s \<Longrightarrow>
      rc_controller (sc_store s r) = Some (fr_controller f) \<Longrightarrow> r = fr_ref f \<and> status_at s r \<noteq> Queued"
  shows "owner_inv s"
  unfolding owner_inv_def
proof (rule conjI [OF _ conjI])
  show "\<forall>r < sc_nextRef s. \<forall>r' < sc_nextRef s. \<forall>c. rc_controller (sc_store s r) = Some c \<longrightarrow>
      rc_controller (sc_store s r') = Some c \<longrightarrow> r = r'"
    by (intro allI impI) (rule c)
  show "\<forall>r < sc_nextRef s. \<forall>r' < sc_nextRef s. \<forall>p. rc_promise (sc_store s r) = Some p \<longrightarrow>
      rc_promise (sc_store s r') = Some p \<longrightarrow> r = r'"
    by (intro allI impI) (rule p)
  show "\<forall>f\<in>set (sc_frames s). \<forall>r < sc_nextRef s. rc_controller (sc_store s r) = Some (fr_controller f) \<longrightarrow>
      r = fr_ref f \<and> status_at s r \<noteq> Queued"
    by (intro allI impI ballI) (rule f)
qed

lemma owner_shrink:
  assumes own: "owner_inv s" and n: "sc_nextRef s' = sc_nextRef s" and f: "set (sc_frames s') \<subseteq> set (sc_frames s)"
    and c: "\<And>r c. rc_controller (sc_store s' r) = Some c \<Longrightarrow> rc_controller (sc_store s r) = Some c"
    and p: "\<And>r p. rc_promise (sc_store s' r) = Some p \<Longrightarrow> rc_promise (sc_store s r) = Some p"
    and q: "\<And>r. status_at s' r = Queued \<Longrightarrow> status_at s r = Queued"
  shows "owner_inv s'"
proof (rule owner_invI, unfold n)
  show "r < sc_nextRef s \<Longrightarrow> r' < sc_nextRef s \<Longrightarrow> rc_controller (sc_store s' r) = Some x \<Longrightarrow>
      rc_controller (sc_store s' r') = Some x \<Longrightarrow> r = r'" for r r' x
    by (rule owner_controller [OF own _ _ c c])
  show "r < sc_nextRef s \<Longrightarrow> r' < sc_nextRef s \<Longrightarrow> rc_promise (sc_store s' r) = Some x \<Longrightarrow>
      rc_promise (sc_store s' r') = Some x \<Longrightarrow> r = r'" for r r' x
    by (rule owner_promise [OF own _ _ p p])
  show "x \<in> set (sc_frames s') \<Longrightarrow> r < sc_nextRef s \<Longrightarrow> rc_controller (sc_store s' r) = Some (fr_controller x) \<Longrightarrow>
      r = fr_ref x \<and> status_at s' r \<noteq> Queued" for x r
    using owner_frame [OF own, of x r] c [of r] q [of r] f by blast
qed

lemma leave_inv:
  assumes inv: "inv_except {r} ckey s" and r: "r < sc_nextRef s" "\<not> in_queue s r" "is_active (status_at s r)"
    and g: "sets_status st g" "\<not> is_active st" "release \<longleftrightarrow> st \<in> {Completed, Failed, Cancelled}"
  shows "inv_except {} ckey (leave r g release v s)"
proof -
  have rok: "record_ok {r} s r'" if "r' < sc_nextRef s" for r' using inv that by (simp add: inv_except_def)
  obtain p where p: "rc_promise (sc_store s r) = Some p" "p < sc_nextPromise s" "p \<notin> settled_ids s"
    using rok [OF r(1)] r(3) by (auto simp: record_ok_def)
  define s' where "s' = leave r g release v s"
  note fields = leave_fields [OF p(1), where g = g and release = release and v = v, folded s'_def]
  have keep: "same_order s s' r'" "ref_id s' r' = ref_id s r'"
      "rc_generation (sc_store s' r') = rc_generation (sc_store s r')"
      "sn_mode (snap s' r') = sn_mode (snap s r')" for r'
    using g(1) fields(15) [of r'] fields(16,18-20)
    by (cases "r' = r"; simp add: same_order_def ref_id_def sets_status_def)+
  have st: "status_at s' r = st" using g(1) fields(16) by (simp add: sets_status_def)
  have views: "in_queue s' = in_queue s" "lonely s' = lonely s" "current s' = current s"
    using keep(2,3) fields by (simp_all add: in_queue_def lonely_def current_def fun_eq_iff)
  have stat: "status_at s' r' = (if r' = r then st else status_at s r')" for r' using st fields(15) by simp
  have own: "rc_promise (sc_store s r') \<noteq> Some p" if "r' < sc_nextRef s" "r' \<noteq> r" for r'
    using inv owner_promise [OF _ r(1) that(1) p(1)] that(2) by (auto simp: inv_except_def)
  have nocur: "\<not> current s f" if "f \<in> set (sc_frames s)" "fr_ref f = r" for f
    using inv that by (auto simp: inv_except_def frame_inv_def frame_ok_def)
  have "queue_inv ckey s'"
    using inv by (simp add: inv_except_def queue_inv_def fields sq_ok_cong [OF keep(1)] rq_ok_cong [OF keep(1)])
  moreover have "entry_inv {} s'"
    using inv g(2) r(2) unfolding inv_except_def entry_inv_def views fields stat keep
    by (auto simp: in_queue_def)
  moreover have "record_ok {} s' r'" if "r' < sc_nextRef s" for r'
  proof (cases "r' = r")
    case True
    then show ?thesis using rok [OF r(1)] g(2,3) r(3) p st fields(17) unfolding True record_ok_def fields by auto
  next
    case False
    then show ?thesis
      using rok [OF that] own [OF that False] fields(15) [OF False]
      by (auto simp: record_ok_def fields aborted_def)
  qed
  moreover have "owner_inv s'"
  proof (rule owner_shrink [of s])
    show "rc_controller (sc_store s' r') = Some c \<Longrightarrow> rc_controller (sc_store s r') = Some c"
      "rc_promise (sc_store s' r') = Some q \<Longrightarrow> rc_promise (sc_store s r') = Some q" for r' c q
      using fields(15) [of r'] fields(21,22) p(1) by (cases "r' = r"; simp split: if_splits)+
    show "status_at s' r' = Queued \<Longrightarrow> status_at s r' = Queued" for r'
      using stat g(2) by (simp split: if_splits)
  qed (use inv in \<open>simp_all add: inv_except_def fields\<close>)
  moreover have "frame_inv {} s'"
  proof -
    have "frame_ok {} s' f" if "f \<in> set (sc_frames s)" for f
    proof -
      have "frame_ok {r} s f" using inv that by (simp add: inv_except_def frame_inv_def)
      then show ?thesis
        using nocur [OF that] keep(3) fields(15) [of "fr_ref f"] by (auto simp: frame_ok_def views fields stat)
    qed
    then show ?thesis using inv g(2) by (auto simp: inv_except_def frame_inv_def views fields stat)
  qed
  moreover have "slot_inv s'"
    using inv slot_holders_release [of r s' s, OF fields(15) fields(17) fields(1)] card_holders_release [OF r(1)]
    unfolding inv_except_def slot_inv_def fields by auto
  moreover have "promise_inv s'"
  proof -
    have "rc_promise (sc_store s' r') = Some q \<and> is_active (status_at s' r')"
      if "rc_promise (sc_store s r') = Some q" "is_active (status_at s r')" "q \<noteq> p" for r' q
      using that p(1) fields(15) [of r'] by (cases "r' = r") auto
    then show ?thesis
      using inv p(2,3) by (auto simp: inv_except_def promise_inv_def fields) metis
  qed
  moreover have "map_inv s'"
    using inv unfolding inv_except_def map_inv_def fields keep(2) by blast
  moreover have "abort_inv s'" using inv by (simp add: inv_except_def abort_inv_def fields)
  moreover have "apart_inv {} s'"
  proof (rule apartI, unfold views fields)
    fix f assume f: "f \<in> set (sc_frames s)" "status_at s' (fr_ref f) = Running"
      "rc_controller (sc_store s' (fr_ref f)) = Some (fr_controller f)"
    have apart: "apart_inv {r} s" using inv by (simp add: inv_except_def)
    have "fr_ref f \<noteq> r" using f(2) st g(2) by auto
    then show "current s f" using apartD [OF apart f(1)] f(2,3) fields(15) by simp
  qed
  ultimately show ?thesis by (simp add: inv_except_def fields s'_def [symmetric])
qed

section \<open>Executions end, records are taken out of the queues\<close>

lemma frame_okD:
  assumes "inv_except X ckey s" "f \<in> set (sc_frames s)"
  shows "frame_ok X s f"
  using assms by (simp add: inv_except_def frame_inv_def)

lemma remove_frame_inv:
  assumes inv: "inv_except {} ckey s" and k: "k < length (sc_frames s)"
  defines "f \<equiv> sc_frames s ! k"
  defines "s' \<equiv> s\<lparr>sc_frames := take k (sc_frames s) @ drop (Suc k) (sc_frames s)\<rparr>"
  shows "inv_except (if current s f then {fr_ref f} else {}) ckey s'"
proof -
  let ?X = "if current s f then {fr_ref f} else {}"
  obtain fs gs where split: "sc_frames s = fs @ f # gs" "sc_frames s' = fs @ gs"
    using id_take_nth_drop [OF k] by (simp add: f_def s'_def)
  have set': "set (sc_frames s) = insert f (set (sc_frames s'))" by (simp add: split)
  have dist: "distinct (map (\<lambda>f. (fr_ref f, fr_generation f)) (sc_frames s))"
    using inv by (simp add: inv_except_def frame_inv_def)
  then have dist': "distinct (map (\<lambda>f. (fr_ref f, fr_generation f)) (sc_frames s'))"
    and new: "(fr_ref f, fr_generation f) \<notin> (\<lambda>f. (fr_ref f, fr_generation f)) ` set (sc_frames s')"
    unfolding split by auto
  have views: "current s' = current s" "lonely s' = lonely s" "in_queue s' = in_queue s"
    "slot_holders fg s' = slot_holders fg s" for fg
    by (simp_all add: s'_def fun_eq_iff current_def lonely_def in_queue_def slot_holders_def ref_id_def)
  have fields: "sc_store s' = sc_store s" "sc_nextRef s' = sc_nextRef s" "sc_aborted s' = sc_aborted s"
    "sc_nextController s' = sc_nextController s"
    by (simp_all add: s'_def)
  have "frame_ok ?X s' g" if "g \<in> set (sc_frames s')" for g
  proof -
    have "current s g \<Longrightarrow> current s f \<Longrightarrow> fr_ref g \<noteq> fr_ref f"
      using new that by (auto simp: current_def image_iff)
    then show ?thesis
      using frame_okD [OF inv, of g] that set' by (auto simp: frame_ok_def views fields)
  qed
  moreover have "\<exists>g \<in> set (sc_frames s'). fr_ref g = r \<and> current s g"
    if r: "r < sc_nextRef s" "status_at s r = Running" "r \<notin> ?X" for r
  proof -
    have "\<exists>g \<in> set (sc_frames s). fr_ref g = r \<and> current s g"
      using inv r(1,2) by (simp add: inv_except_def frame_inv_def)
    moreover have "\<not> (fr_ref f = r \<and> current s f)" using r(3) by (auto split: if_splits)
    ultimately show ?thesis unfolding set' by blast
  qed
  ultimately have "frame_inv ?X s'"
    using dist' by (auto simp: frame_inv_def views fields)
  moreover have "owner_inv s'"
    by (rule owner_shrink [of s]) (use inv set' in \<open>auto simp: inv_except_def fields\<close>)
  moreover have "queue_inv ckey s'"
  proof -
    have same: "same_order s s' r" for r by (simp add: same_order_def fields ref_id_def)
    show ?thesis
      using inv by (simp add: inv_except_def queue_inv_def sq_ok_cong [OF same] rq_ok_cong [OF same])
        (simp add: s'_def)
  qed
  moreover have "entry_inv ?X s'"
    using inv unfolding inv_except_def entry_inv_def views fields by (simp add: s'_def)
  moreover have "record_ok ?X s' r" if "r < sc_nextRef s" for r
  proof -
    have "record_ok {} s r" using inv that by (simp add: inv_except_def)
    then show ?thesis by (auto simp: record_ok_def s'_def aborted_def)
  qed
  moreover have "slot_inv s'" "promise_inv s'"
    using inv by (simp_all add: inv_except_def slot_inv_def promise_inv_def views) (simp_all add: s'_def)
  moreover have "map_inv s'"
  proof -
    have "ref_id s' = ref_id s" "sc_records s' = sc_records s" by (simp_all add: s'_def ref_id_def fun_eq_iff)
    then show ?thesis using inv unfolding inv_except_def map_inv_def fields by metis
  qed
  moreover have "abort_inv s'" using inv by (simp add: inv_except_def abort_inv_def fields)
  moreover have "apart_inv ?X s'"
  proof (rule apartI, unfold views fields)
    fix g assume g: "g \<in> set (sc_frames s')" "status_at s (fr_ref g) = Running"
      "rc_controller (sc_store s (fr_ref g)) = Some (fr_controller g)"
    have apart: "apart_inv {} s" using inv by (simp add: inv_except_def)
    show "current s g" by (rule apartD [OF apart]) (use g set' in simp_all)
  qed
  ultimately show ?thesis by (simp add: inv_except_def fields)
qed

text \<open>The generation moves on and the controller is aborted.\<close>

definition retire :: "nat \<Rightarrow> sched \<Rightarrow> sched" where
  "retire r s = abort r (upd r (rc_generation_update Suc) s)"

lemma retire_inv:
  assumes inv: "inv_except {} ckey s" and r: "r < sc_nextRef s" "is_active (status_at s r)"
  shows "inv_except {r} ckey (retire r s)"
proof -
  have rok: "record_ok {} s r'" if "r' < sc_nextRef s" for r' using inv that by (simp add: inv_except_def)
  obtain c where c: "rc_controller (sc_store s r) = Some c" using rok [OF r(1)] r(2) by (auto simp: record_ok_def)
  define s' where "s' = retire r s"
  have s': "s' = (upd r (rc_generation_update Suc) s)\<lparr>sc_aborted := insert c (sc_aborted s)\<rparr>"
    by (simp add: s'_def retire_def abort_def c)
  have keep: "same_order s s' r'" "ref_id s' r' = ref_id s r'" "snap s' r' = snap s r'"
     "rc_controller (sc_store s' r') = rc_controller (sc_store s r')"
     "rc_promise (sc_store s' r') = rc_promise (sc_store s r')" "rc_work (sc_store s' r') = rc_work (sc_store s r')"
     "rc_slotAcquired (sc_store s' r') = rc_slotAcquired (sc_store s r')"
     "rc_generation (sc_store s' r') = (if r' = r then Suc else id) (rc_generation (sc_store s r'))" for r'
    by (simp_all add: s' same_order_def ref_id_def)
  have fields: "sc_nextRef s' = sc_nextRef s" "sc_frames s' = sc_frames s" "sc_records s' = sc_records s"
    "sc_aborted s' = insert c (sc_aborted s)" "sc_nextController s' = sc_nextController s"
    "sc_nextPromise s' = sc_nextPromise s" "sc_settled s' = sc_settled s"
    "sc_foregroundReady s' = sc_foregroundReady s" "sc_backgroundReady s' = sc_backgroundReady s"
    "sc_delayedReady s' = sc_delayedReady s"
    by (simp_all add: s')
  have views: "lonely s' = lonely s" "in_queue s' = in_queue s" "slot_holders fg s' = slot_holders fg s" for fg
    by (simp_all add: fun_eq_iff lonely_def in_queue_def slot_holders_def keep fields)
  have cur: "current s' f \<longleftrightarrow> current s f \<and> fr_ref f \<noteq> r" if "f \<in> set (sc_frames s)" for f
    using frame_okD [OF inv that] by (auto simp: current_def keep frame_ok_def)
  have "frame_ok {r} s' f" if f: "f \<in> set (sc_frames s)" for f
  proof -
    have "fr_controller f = c \<Longrightarrow> fr_ref f = r"
      using inv owner_frame [OF _ f r(1)] c by (auto simp: inv_except_def)
    then show ?thesis
      using frame_okD [OF inv f] by (auto simp: frame_ok_def cur [OF f] keep fields)
  qed
  then have "frame_inv {r} s'"
    using inv by (auto simp: inv_except_def frame_inv_def keep fields cur)
  moreover have "record_ok {r} s' r'" if "r' < sc_nextRef s" for r'
  proof -
    have "r' \<noteq> r \<Longrightarrow> rc_controller (sc_store s r') \<noteq> Some c"
      using inv owner_controller [OF _ that r(1) _ c] by (auto simp: inv_except_def)
    then show ?thesis using rok [OF that] by (auto simp: record_ok_def keep fields aborted_def)
  qed
  moreover have "owner_inv s'"
    by (rule owner_shrink [of s]) (use inv in \<open>simp_all add: inv_except_def fields keep\<close>)
  moreover have "queue_inv ckey s'"
    using inv by (simp add: inv_except_def queue_inv_def fields sq_ok_cong [OF keep(1)] rq_ok_cong [OF keep(1)])
  moreover have "entry_inv {r} s'"
    using inv unfolding inv_except_def entry_inv_def views fields keep by simp
  moreover have "slot_inv s'" using inv by (simp add: inv_except_def slot_inv_def views) (simp add: s')
  moreover have "promise_inv s'" using inv by (simp add: inv_except_def promise_inv_def fields keep)
  moreover have "map_inv s'" using inv unfolding inv_except_def map_inv_def fields keep by blast
  moreover have "abort_inv s'"
    using inv rok [OF r(1)] c by (simp add: inv_except_def abort_inv_def fields record_ok_def)
  moreover have "apart_inv {r} s'"
  proof (rule apartI, unfold keep fields)
    fix f assume f: "f \<in> set (sc_frames s)" "fr_ref f \<notin> {r}" "status_at s (fr_ref f) = Running"
      "rc_controller (sc_store s (fr_ref f)) = Some (fr_controller f)"
    have apart: "apart_inv {} s" using inv by (simp add: inv_except_def)
    have "current s f" by (rule apartD [OF apart f(1) _ f(3,4)]) simp
    then show "current s' f" using cur [OF f(1)] f(2) by simp
  qed
  ultimately show ?thesis by (simp add: inv_except_def fields s'_def [symmetric])
qed

end
