(* ===== verification/SchedulerPump.thy ===== *)
theory SchedulerPump
  imports SchedulerInv
begin

text \<open>
  The queue operations, the pump and the start of an execution keep the scheduler's invariant of
  \<open>SchedulerInv\<close>.
\<close>

section \<open>Changes of the queues\<close>

lemma push_entries:
  "sq_ok ckey s q \<Longrightarrow> entries_of (pq_push (ref_id s) (scheduled_cmp ckey s) r q) =
     (if ref_id s r \<in> ref_id s ` entries_of q then entries_of q else insert r (entries_of q))"
  "rq_ok ckey s q \<Longrightarrow> entries_of (pq_push (ref_id s) (ready_cmp ckey s) r q) =
     (if ref_id s r \<in> ref_id s ` entries_of q then entries_of q else insert r (entries_of q))"
  using scheduled_order.pq_push_ok [of ckey s "ref_id s" q r] ready_order.pq_push_ok [of ckey s "ref_id s" q r]
  by (metis set_mset_add_mset_insert set_mset_mset)+

lemma push_ok:
  "sq_ok ckey s q \<Longrightarrow> sq_ok ckey s (pq_push (ref_id s) (scheduled_cmp ckey s) r q)"
  "rq_ok ckey s q \<Longrightarrow> rq_ok ckey s (pq_push (ref_id s) (ready_cmp ckey s) r q)"
  using scheduled_order.pq_push_ok ready_order.pq_push_ok by blast+

lemma remove_entries:
  "sq_ok ckey s q \<Longrightarrow> entries_of (snd (pq_remove (ref_id s) (scheduled_cmp ckey s) i q)) =
     {x \<in> entries_of q. ref_id s x \<noteq> i}"
  "rq_ok ckey s q \<Longrightarrow> entries_of (snd (pq_remove (ref_id s) (ready_cmp ckey s) i q)) =
     {x \<in> entries_of q. ref_id s x \<noteq> i}"
  using scheduled_order.pq_remove_ok [of ckey s "ref_id s" q i] ready_order.pq_remove_ok [of ckey s "ref_id s" q i]
  by (metis set_mset_filter set_mset_mset)+

lemma remove_ok:
  "sq_ok ckey s q \<Longrightarrow> sq_ok ckey s (snd (pq_remove (ref_id s) (scheduled_cmp ckey s) i q))"
  "rq_ok ckey s q \<Longrightarrow> rq_ok ckey s (snd (pq_remove (ref_id s) (ready_cmp ckey s) i q))"
  using scheduled_order.pq_remove_ok ready_order.pq_remove_ok by blast+

lemma pop_sq:
  assumes ok: "sq_ok ckey s q" and peek: "pq_peek q = Some r"
  obtains q' where "pq_pop (ref_id s) (scheduled_cmp ckey s) q = (Some r, q')" "sq_ok ckey s q'"
    "entries_of q' = entries_of q - {r}" "r \<in> entries_of q"
proof -
  obtain q' where q': "pq_pop (ref_id s) (scheduled_cmp ckey s) q = (Some r, q')" "sq_ok ckey s q'"
    "add_mset r (mset (pq_entries q')) = mset (pq_entries q)"
    using scheduled_order.pq_pop_ok [OF ok peek] by metis
  have "distinct (pq_entries q)"
    using scheduled_order.positions_distinct_map [of "ref_id s" q] ok
    by (auto simp: scheduled_order.pq_ok_def distinct_map)
  then have "distinct (r # pq_entries q')" "set (r # pq_entries q') = entries_of q"
    using q'(3) by (metis mset.simps(2) mset_eq_imp_distinct_iff, metis mset.simps(2) set_mset_mset)
  then show thesis using q' by (intro that) auto
qed

lemma pop_rq:
  assumes ok: "rq_ok ckey s q" and peek: "pq_peek q = Some r"
  obtains q' where "pq_pop (ref_id s) (ready_cmp ckey s) q = (Some r, q')" "rq_ok ckey s q'"
    "entries_of q' = entries_of q - {r}" "r \<in> entries_of q"
proof -
  obtain q' where q': "pq_pop (ref_id s) (ready_cmp ckey s) q = (Some r, q')" "rq_ok ckey s q'"
    "add_mset r (mset (pq_entries q')) = mset (pq_entries q)"
    using ready_order.pq_pop_ok [OF ok peek] by metis
  have "distinct (pq_entries q)"
    using ready_order.positions_distinct_map [of "ref_id s" q] ok
    by (auto simp: ready_order.pq_ok_def distinct_map)
  then have "distinct (r # pq_entries q')" "set (r # pq_entries q') = entries_of q"
    using q'(3) by (metis mset.simps(2) mset_eq_imp_distinct_iff, metis mset.simps(2) set_mset_mset)
  then show thesis using q' by (intro that) auto
qed

definition with_queues :: "nat pqueue \<Rightarrow> nat pqueue \<Rightarrow> nat pqueue \<Rightarrow> sched \<Rightarrow> sched" where
  "with_queues q1 q2 q3 s = s\<lparr>sc_foregroundReady := q1, sc_backgroundReady := q2, sc_delayedReady := q3\<rparr>"

lemma with_queues_fields [simp]:
  "sc_store (with_queues q1 q2 q3 s) = sc_store s" "sc_nextRef (with_queues q1 q2 q3 s) = sc_nextRef s"
  "sc_foregroundReady (with_queues q1 q2 q3 s) = q1" "sc_backgroundReady (with_queues q1 q2 q3 s) = q2"
  "sc_delayedReady (with_queues q1 q2 q3 s) = q3" "sc_aborted (with_queues q1 q2 q3 s) = sc_aborted s"
  "ref_id (with_queues q1 q2 q3 s) = ref_id s" "scheduled_cmp ckey (with_queues q1 q2 q3 s) = scheduled_cmp ckey s"
  "ready_cmp ckey (with_queues q1 q2 q3 s) = ready_cmp ckey s" "lonely (with_queues q1 q2 q3 s) = lonely s"
  "live_queued (with_queues q1 q2 q3 s) = live_queued s" "aborted c (with_queues q1 q2 q3 s) = aborted c s"
  "current (with_queues q1 q2 q3 s) = current s" "slot_holders fg (with_queues q1 q2 q3 s) = slot_holders fg s"
  "sc_frames (with_queues q1 q2 q3 s) = sc_frames s" "sc_records (with_queues q1 q2 q3 s) = sc_records s"
  "sc_nextController (with_queues q1 q2 q3 s) = sc_nextController s"
  "sc_nextPromise (with_queues q1 q2 q3 s) = sc_nextPromise s"
  "sc_settled (with_queues q1 q2 q3 s) = sc_settled s"
  "sc_runningForeground (with_queues q1 q2 q3 s) = sc_runningForeground s"
  "sc_runningBackground (with_queues q1 q2 q3 s) = sc_runningBackground s"
  "sc_maxForeground (with_queues q1 q2 q3 s) = sc_maxForeground s"
  "sc_maxBackground (with_queues q1 q2 q3 s) = sc_maxBackground s"
  by (auto simp: with_queues_def fun_eq_iff ref_id_def scheduled_cmp_def ready_cmp_def lonely_def live_queued_def
      aborted_def current_def slot_holders_def split: option.splits)

lemma with_queues_inv:
  assumes inv: "inv_except X ckey s" and q: "sq_ok ckey s q1" "sq_ok ckey s q2" "rq_ok ckey s q3"
    and e: "entry_inv X (with_queues q1 q2 q3 s)"
  shows "inv_except X ckey (with_queues q1 q2 q3 s)"
proof -
  have "record_ok X (with_queues q1 q2 q3 s) = record_ok X s" "frame_ok X (with_queues q1 q2 q3 s) = frame_ok X s"
    by (simp_all add: fun_eq_iff record_ok_def frame_ok_def)
  moreover have "frame_inv X (with_queues q1 q2 q3 s) = frame_inv X s"
    unfolding frame_inv_def with_queues_fields calculation ..
  moreover have "owner_inv (with_queues q1 q2 q3 s) = owner_inv s" "slot_inv (with_queues q1 q2 q3 s) = slot_inv s"
    "promise_inv (with_queues q1 q2 q3 s) = promise_inv s" "map_inv (with_queues q1 q2 q3 s) = map_inv s"
    "abort_inv (with_queues q1 q2 q3 s) = abort_inv s" "apart_inv X (with_queues q1 q2 q3 s) = apart_inv X s"
    unfolding owner_inv_def slot_inv_def promise_inv_def map_inv_def abort_inv_def apart_inv_def with_queues_fields by (rule refl)+
  ultimately show ?thesis
    using inv q e by (simp add: inv_except_def queue_inv_def)
qed

lemma inv_except_queued:
  assumes inv: "inv_except {} ckey s" and q: "status_at s r = Queued"
  shows "inv_except {r} ckey s"
proof -
  have "record_ok {r} s r'" if "record_ok {} s r'" for r' using that by (auto simp: record_ok_def)
  moreover have "frame_ok {r} s f" if "frame_ok {} s f" for f using that q by (auto simp: frame_ok_def)
  moreover have "entry_inv {r} s" using inv by (auto simp: inv_except_def entry_inv_def)
  moreover have "apart_inv {r} s"
  proof (rule apartI)
    have apart: "apart_inv {} s" using inv by (simp add: inv_except_def)
    show "current s f" if f: "f \<in> set (sc_frames s)" "status_at s (fr_ref f) = Running"
      "rc_controller (sc_store s (fr_ref f)) = Some (fr_controller f)" for f
      by (rule apartD [OF apart f(1) _ f(2,3)]) simp
  qed
  ultimately show ?thesis using inv by (simp add: inv_except_def frame_inv_def)
qed

lemma inv_unexcept_queued:
  assumes inv: "inv_except {r} ckey s" and q: "live_queued s r" and e: "lonely s r \<Longrightarrow> in_queue s r"
  shows "inv_except {} ckey s"
proof -
  have "record_ok {} s r'" if "record_ok {r} s r'" for r' using that q by (auto simp: record_ok_def live_queued_def)
  moreover have "frame_ok {} s f" if "frame_ok {r} s f" for f using that by (auto simp: frame_ok_def)
  moreover have "entry_inv {} s" using inv e by (auto simp: inv_except_def entry_inv_def)
  moreover have run: "r' \<noteq> r" if "status_at s r' = Running" for r' using that q by (auto simp: live_queued_def)
  moreover have "apart_inv {} s"
  proof (rule apartI)
    have apart: "apart_inv {r} s" using inv by (simp add: inv_except_def)
    show "current s f" if f: "f \<in> set (sc_frames s)" "status_at s (fr_ref f) = Running"
      "rc_controller (sc_store s (fr_ref f)) = Some (fr_controller f)" for f
      by (rule apartD [OF apart f(1) _ f(2,3)]) (use run [OF f(2)] in simp)
  qed
  ultimately show ?thesis using inv by (simp add: inv_except_def frame_inv_def)
qed

section \<open>Removal, arming and promotion\<close>

lemma readyRemove_queues:
  "readyRemove ckey r s =
     (if isForegroundMode (sn_mode (snap s r))
      then with_queues (snd (pq_remove (ref_id s) (scheduled_cmp ckey s) (ref_id s r) (sc_foregroundReady s)))
             (sc_backgroundReady s) (sc_delayedReady s) s
      else with_queues (sc_foregroundReady s)
             (snd (pq_remove (ref_id s) (scheduled_cmp ckey s) (ref_id s r) (sc_backgroundReady s)))
             (sc_delayedReady s) s)"
  by (simp add: readyRemove_def with_queues_def)

lemma removeReady_queues:
  "\<exists>q1 q2 q3. core (removeReady ckey r b s) = core (with_queues q1 q2 q3 s) \<and>
     (queue_inv ckey s \<longrightarrow> sq_ok ckey s q1 \<and> sq_ok ckey s q2 \<and> rq_ok ckey s q3 \<and>
       (if isForegroundMode (sn_mode (snap s r))
        then entries_of q1 = {x \<in> entries_of (sc_foregroundReady s). ref_id s x \<noteq> ref_id s r} \<and>
             entries_of q2 = entries_of (sc_backgroundReady s)
        else entries_of q1 = entries_of (sc_foregroundReady s) \<and>
             entries_of q2 = {x \<in> entries_of (sc_backgroundReady s). ref_id s x \<noteq> ref_id s r}) \<and>
       entries_of q3 = {x \<in> entries_of (sc_delayedReady s). ref_id s x \<noteq> ref_id s r})"
proof -
  let ?s1 = "readyRemove ckey r s"
  let ?q = "snd (pq_remove (ref_id s) (ready_cmp ckey s) (ref_id s r) (sc_delayedReady s))"
  have s1: "ref_id ?s1 = ref_id s" "ready_cmp ckey ?s1 = ready_cmp ckey s" "sc_delayedReady ?s1 = sc_delayedReady s"
    by (simp_all add: readyRemove_queues)
  have "core (removeReady ckey r b s) = core (?s1\<lparr>sc_delayedReady := ?q\<rparr>)"
    by (simp add: removeReady_def Let_def s1 split: prod.splits)
  also have "\<dots> = core (with_queues (sc_foregroundReady ?s1) (sc_backgroundReady ?s1) ?q s)"
    by (simp add: readyRemove_queues with_queues_def)
  finally show ?thesis
    by (intro exI conjI, assumption) (auto simp: readyRemove_queues queue_inv_def remove_entries remove_ok)
qed

lemma removeReady_inv:
  assumes inv: "inv_except {r} ckey s" and r: "r < sc_nextRef s"
  shows "inv_except {r} ckey (removeReady ckey r b s) \<and> \<not> in_queue (removeReady ckey r b s) r \<and>
    sc_store (removeReady ckey r b s) = sc_store s \<and> sc_nextRef (removeReady ckey r b s) = sc_nextRef s \<and>
    sc_frames (removeReady ckey r b s) = sc_frames s \<and> sc_aborted (removeReady ckey r b s) = sc_aborted s \<and>
    (\<forall>x. in_queue (removeReady ckey r b s) x \<longrightarrow> ref_id s x = ref_id s r \<longrightarrow>
       isForegroundMode (sn_mode (snap s x)) \<noteq> isForegroundMode (sn_mode (snap s r)))"
proof -
  have ei: "entry_inv {r} s" "queue_inv ckey s" using inv by (simp_all add: inv_except_def)
  obtain q1 q2 q3 where c: "core (removeReady ckey r b s) = core (with_queues q1 q2 q3 s)"
    and ok: "sq_ok ckey s q1" "sq_ok ckey s q2" "rq_ok ckey s q3"
    and e: "if isForegroundMode (sn_mode (snap s r))
        then entries_of q1 = {x \<in> entries_of (sc_foregroundReady s). ref_id s x \<noteq> ref_id s r} \<and>
             entries_of q2 = entries_of (sc_backgroundReady s)
        else entries_of q1 = entries_of (sc_foregroundReady s) \<and>
             entries_of q2 = {x \<in> entries_of (sc_backgroundReady s). ref_id s x \<noteq> ref_id s r}"
       "entries_of q3 = {x \<in> entries_of (sc_delayedReady s). ref_id s x \<noteq> ref_id s r}"
    using removeReady_queues [of ckey r b s] ei(2) by blast
  note fields = core_eq_fields [OF c]
  have iq: "in_queue (removeReady ckey r b s) x \<longleftrightarrow> in_queue (with_queues q1 q2 q3 s) x" for x
    unfolding in_queue_def fields ..
  have sub: "in_queue (with_queues q1 q2 q3 s) x \<Longrightarrow> in_queue s x" for x
    using e by (auto simp: in_queue_def split: if_splits)
  have gone: "in_queue (with_queues q1 q2 q3 s) x \<Longrightarrow> ref_id s x = ref_id s r \<Longrightarrow>
      isForegroundMode (sn_mode (snap s x)) \<noteq> isForegroundMode (sn_mode (snap s r))" for x
    using e ei(1) by (auto simp: in_queue_def entry_inv_def split: if_splits)
  have kept: "in_queue s x \<Longrightarrow> ref_id s x \<noteq> ref_id s r \<Longrightarrow> in_queue (with_queues q1 q2 q3 s) x" for x
    using e by (auto simp: in_queue_def split: if_splits)
  have "entry_inv {r} (with_queues q1 q2 q3 s)"
    unfolding entry_inv_def
  proof (intro conjI allI impI ballI)
    fix x assume x: "x < sc_nextRef (with_queues q1 q2 q3 s)"
      "status_at (with_queues q1 q2 q3 s) x = Queued \<and> x \<notin> {r} \<and> lonely (with_queues q1 q2 q3 s) x"
    then have l: "x < sc_nextRef s" "status_at s x = Queued" "x \<noteq> r" "lonely s x" by simp_all
    have "in_queue s x" using ei(1) l by (simp add: entry_inv_def)
    moreover have "ref_id s x \<noteq> ref_id s r"
    proof
      assume "ref_id s x = ref_id s r"
      with l(4) r have "r = x" unfolding lonely_def by metis
      with l(3) show False by simp
    qed
    ultimately show "in_queue (with_queues q1 q2 q3 s) x" by (rule kept)
  qed (use ei(1) e sub in \<open>auto simp: entry_inv_def in_queue_def split: if_splits\<close>)
  then have "inv_except {r} ckey (removeReady ckey r b s)"
    using with_queues_inv [OF inv ok] inv_core_eq [OF c] by blast
  then show ?thesis using gone iq fields by auto
qed

text \<open>What puts a queued record into the ready queue of its mode.\<close>

lemma readyPush_inv:
  assumes inv: "inv_except {r} ckey s" and r: "r < sc_nextRef s" "live_queued s r" "\<not> in_queue s r"
  shows "inv_except {} ckey (readyPush ckey r s)"
proof -
  have ei: "entry_inv {r} s" "queue_inv ckey s" using inv by (simp_all add: inv_except_def)
  let ?fg = "isForegroundMode (sn_mode (snap s r))"
  define q1 where "q1 = (if ?fg then pq_push (ref_id s) (scheduled_cmp ckey s) r (sc_foregroundReady s)
    else sc_foregroundReady s)"
  define q2 where "q2 = (if ?fg then sc_backgroundReady s
    else pq_push (ref_id s) (scheduled_cmp ckey s) r (sc_backgroundReady s))"
  have eq: "readyPush ckey r s = with_queues q1 q2 (sc_delayedReady s) s"
    by (simp add: readyPush_def with_queues_def q1_def q2_def)
  have ok: "sq_ok ckey s q1" "sq_ok ckey s q2" "rq_ok ckey s (sc_delayedReady s)"
    using ei(2) by (simp_all add: q1_def q2_def queue_inv_def push_ok)
  have e1: "entries_of (sc_foregroundReady s) \<subseteq> entries_of q1" "x \<in> entries_of q1 \<Longrightarrow>
      x \<in> entries_of (sc_foregroundReady s) \<or> x = r \<and> ?fg" for x
    using ei(2) by (auto simp: q1_def queue_inv_def push_entries split: if_splits)
  have e2: "entries_of (sc_backgroundReady s) \<subseteq> entries_of q2" "x \<in> entries_of q2 \<Longrightarrow>
      x \<in> entries_of (sc_backgroundReady s) \<or> x = r \<and> \<not> ?fg" for x
    using ei(2) by (auto simp: q2_def queue_inv_def push_entries split: if_splits)
  have q: "status_at s r = Queued" using r(2) by (simp add: live_queued_def)
  let ?t = "with_queues q1 q2 (sc_delayedReady s) s"
  have iq: "in_queue ?t x \<Longrightarrow> in_queue s x \<or> x = r" "in_queue s x \<Longrightarrow> in_queue ?t x" for x
    using e1 e2 by (auto simp: in_queue_def)
  have "entry_inv {r} ?t"
    unfolding entry_inv_def
  proof (intro conjI allI impI ballI)
    fix x assume "x < sc_nextRef ?t" "status_at ?t x = Queued \<and> x \<notin> {r} \<and> lonely ?t x"
    then have "in_queue s x" using ei(1) by (simp add: entry_inv_def)
    then show "in_queue ?t x" by (rule iq(2))
  next
    fix x assume "in_queue ?t x"
    then have "in_queue s x \<or> x = r" by (rule iq(1))
    then show "x < sc_nextRef ?t" "status_at ?t x = Queued" using ei(1) r(1) q by (auto simp: entry_inv_def)
  next
    fix x assume "x \<in> entries_of (sc_foregroundReady ?t)"
    then show "isForegroundMode (sn_mode (snap ?t x))" using e1(2) [of x] ei(1) by (auto simp: entry_inv_def)
  next
    fix x assume "x \<in> entries_of (sc_backgroundReady ?t)"
    then show "\<not> isForegroundMode (sn_mode (snap ?t x))" using e2(2) [of x] ei(1) by (auto simp: entry_inv_def)
  next
    fix x assume "x \<in> entries_of (sc_delayedReady ?t)"
    then have "x \<noteq> r" "x \<notin> entries_of (sc_foregroundReady s)" "x \<notin> entries_of (sc_backgroundReady s)"
      using r(3) ei(1) by (auto simp: in_queue_def entry_inv_def)
    then show "x \<notin> entries_of (sc_foregroundReady ?t)" "x \<notin> entries_of (sc_backgroundReady ?t)"
      using e1(2) [of x] e2(2) [of x] by auto
  qed
  then have t: "inv_except {r} ckey ?t" by (rule with_queues_inv [OF inv ok])
  have "in_queue ?t r" if l: "lonely ?t r"
  proof -
    let ?q = "if ?fg then sc_foregroundReady s else sc_backgroundReady s"
    have "ref_id s r \<noteq> ref_id s x" if "x \<in> entries_of ?q" for x
    proof
      assume e: "ref_id s r = ref_id s x"
      have "in_queue s x" using that by (auto simp: in_queue_def split: if_splits)
      then have "x < sc_nextRef s" "x \<noteq> r" using ei(1) r(3) by (auto simp: entry_inv_def)
      then show False using l e by (simp add: lonely_def)
    qed
    then have "ref_id s r \<notin> ref_id s ` entries_of ?q" by blast
    then have "r \<in> entries_of (if ?fg then q1 else q2)"
      using ei(2) by (cases ?fg) (simp_all add: q1_def q2_def queue_inv_def push_entries)
    then show ?thesis by (auto simp: in_queue_def split: if_splits)
  qed
  then show ?thesis
    unfolding eq using t r(2) by (intro inv_unexcept_queued) simp_all
qed

lemma delayedPush_inv:
  assumes inv: "inv_except {r} ckey s" and r: "r < sc_nextRef s" "live_queued s r" "\<not> in_queue s r"
  shows "inv_except {} ckey (s\<lparr>sc_delayedReady := pq_push (ref_id s) (ready_cmp ckey s) r (sc_delayedReady s)\<rparr>)"
proof -
  have ei: "entry_inv {r} s" "queue_inv ckey s" using inv by (simp_all add: inv_except_def)
  define q where "q = pq_push (ref_id s) (ready_cmp ckey s) r (sc_delayedReady s)"
  let ?t = "with_queues (sc_foregroundReady s) (sc_backgroundReady s) q s"
  have ok: "rq_ok ckey s q" using ei(2) by (simp add: q_def queue_inv_def push_ok)
  have e: "entries_of q = (if ref_id s r \<in> ref_id s ` entries_of (sc_delayedReady s)
      then entries_of (sc_delayedReady s) else insert r (entries_of (sc_delayedReady s)))"
    using ei(2) by (simp add: q_def queue_inv_def push_entries)
  have q: "status_at s r = Queued" using r(2) by (simp add: live_queued_def)
  have iq: "in_queue ?t x \<Longrightarrow> in_queue s x \<or> x = r" "in_queue s x \<Longrightarrow> in_queue ?t x" for x
    using e by (auto simp: in_queue_def split: if_splits)
  have "entry_inv {r} ?t"
    unfolding entry_inv_def
  proof (intro conjI allI impI ballI)
    fix x assume "x < sc_nextRef ?t" "status_at ?t x = Queued \<and> x \<notin> {r} \<and> lonely ?t x"
    then have "in_queue s x" using ei(1) by (simp add: entry_inv_def)
    then show "in_queue ?t x" by (rule iq(2))
  next
    fix x assume "in_queue ?t x"
    then have "in_queue s x \<or> x = r" by (rule iq(1))
    then show "x < sc_nextRef ?t" "status_at ?t x = Queued" using ei(1) r(1) q by (auto simp: entry_inv_def)
  next
    fix x assume "x \<in> entries_of (sc_delayedReady ?t)"
    then have "x \<in> entries_of (sc_delayedReady s) \<or> x = r" using e by (auto split: if_splits)
    then show "x \<notin> entries_of (sc_foregroundReady ?t)" "x \<notin> entries_of (sc_backgroundReady ?t)"
      using r(3) ei(1) by (auto simp: in_queue_def entry_inv_def)
  qed (use ei(1) in \<open>auto simp: entry_inv_def\<close>)
  then have t: "inv_except {r} ckey ?t"
    by (intro with_queues_inv [OF inv _ _ ok]) (use ei(2) in \<open>simp_all add: queue_inv_def\<close>)
  have "in_queue ?t r" if l: "lonely ?t r"
  proof -
    have "ref_id s r \<noteq> ref_id s x" if "x \<in> entries_of (sc_delayedReady s)" for x
    proof
      assume e: "ref_id s r = ref_id s x"
      have "in_queue s x" using that by (simp add: in_queue_def)
      then have "x < sc_nextRef s" "x \<noteq> r" using ei(1) r(3) by (auto simp: entry_inv_def)
      then show False using l e by (simp add: lonely_def)
    qed
    then have "ref_id s r \<notin> ref_id s ` entries_of (sc_delayedReady s)" by blast
    then show ?thesis using e by (simp add: in_queue_def)
  qed
  then have "inv_except {} ckey ?t" using t r(2) by (intro inv_unexcept_queued) simp_all
  then show ?thesis by (simp add: with_queues_def q_def)
qed

lemma aborted_iff: "aborted c s \<longleftrightarrow> (\<exists>i. c = Some i \<and> i \<in> sc_aborted s)"
  by (auto simp: aborted_def split: option.splits)

lemma arm_inv:
  assumes inv: "inv_except {r} ckey s" and r: "r < sc_nextRef s" "live_queued s r"
  shows "inv_except {} ckey (arm ckey now r s)"
proof -
  define s1 where "s1 = removeReady ckey r False s"
  note rm = removeReady_inv [OF inv r(1), of False, folded s1_def]
  have r1: "r < sc_nextRef s1" "live_queued s1 r" "\<not> in_queue s1 r" "inv_except {r} ckey s1"
    using rm r by (simp_all add: live_queued_def aborted_iff)
  define s2 where "s2 = (if rc_readyAt (sc_store s1 r) \<le> now then readyPush ckey r s1
    else s1\<lparr>sc_delayedReady := pq_push (ref_id s1) (ready_cmp ckey s1) r (sc_delayedReady s1)\<rparr>)"
  have s2: "inv_except {} ckey s2"
    using readyPush_inv [OF r1(4,1,2,3)] delayedPush_inv [OF r1(4,1,2,3)] by (simp add: s2_def)
  have "core (arm ckey now r s) = core s2"
    using r1(2) by (simp add: arm_def Let_def s1_def [symmetric] s2_def)
  then show ?thesis using s2 inv_core_eq by blast
qed

lemma promoteLoop_inv: "inv_except {} ckey s \<Longrightarrow> inv_except {} ckey (promoteLoop ckey now s)"
proof (induction ckey now s rule: promoteLoop.induct)
  case (1 ckey now s)
  show ?case
  proof (cases "pq_peek (sc_delayedReady s)")
    case None
    then show ?thesis using 1 by (simp add: promoteLoop.simps [of ckey now s])
  next
    case (Some r)
    have ei: "entry_inv {} s" "queue_inv ckey s" using "1.prems" by (simp_all add: inv_except_def)
    show ?thesis
    proof (cases "rc_readyAt (sc_store s r) > now")
      case True
      then show ?thesis using 1 Some by (simp add: promoteLoop.simps [of ckey now s])
    next
      case False
      obtain q' where q': "pq_pop (ref_id s) (ready_cmp ckey s) (sc_delayedReady s) = (Some r, q')" "rq_ok ckey s q'"
        "entries_of q' = entries_of (sc_delayedReady s) - {r}" "r \<in> entries_of (sc_delayedReady s)"
        using pop_rq [OF _ Some] ei(2) unfolding queue_inv_def by metis
      define s1 where "s1 = s\<lparr>sc_delayedReady := q'\<rparr>"
      have s1: "s1 = with_queues (sc_foregroundReady s) (sc_backgroundReady s) q' s"
        by (simp add: s1_def with_queues_def)
      have r: "r < sc_nextRef s" "status_at s r = Queued"
        using ei(1) q'(4) by (auto simp: entry_inv_def in_queue_def)
      have "\<not> aborted (rc_controller (sc_store s r)) s"
        using "1.prems" r by (simp add: inv_except_def record_ok_def)
      then have live: "live_queued s1 r" using r by (simp add: s1 live_queued_def)
      have out: "\<not> in_queue s1 r" using ei(1) q'(3,4) by (auto simp: s1 in_queue_def entry_inv_def)
      have "inv_except {r} ckey s1"
        unfolding s1
      proof (rule with_queues_inv [OF inv_except_queued [OF "1.prems" r(2)]])
        show "entry_inv {r} (with_queues (sc_foregroundReady s) (sc_backgroundReady s) q' s)"
          using ei(1) q'(3) by (auto simp: entry_inv_def in_queue_def)
      qed (use ei(2) q'(2) in \<open>simp_all add: queue_inv_def\<close>)
      then have "inv_except {} ckey (readyPush ckey r s1)"
        by (rule readyPush_inv) (use r(1) live out in \<open>simp_all add: s1\<close>)
      then show ?thesis
        using "1.IH" [OF Some False] live Some False q'(1)
        by (simp add: promoteLoop.simps [of ckey now s] Let_def s1_def)
    qed
  qed
qed

lemma promoteReady_inv: "inv_except {} ckey s \<Longrightarrow> inv_except {} ckey (promoteReady ckey now s)"
  using promoteLoop_inv [of ckey s now] inv_core_eq [of "promoteReady ckey now s" "promoteLoop ckey now s"]
  by (simp add: promoteReady_def)

section \<open>The start of an execution and the pump\<close>

lemma acquireSlot_fields:
  assumes "\<not> rc_slotAcquired (sc_store s r)"
  shows "acquireSlot r s = upd r (rc_slotAcquired_update (\<lambda>_. True))
    (s\<lparr>sc_runningForeground := sc_runningForeground s + (if isForegroundMode (sn_mode (snap s r)) then 1 else 0),
       sc_runningBackground := sc_runningBackground s + (if isForegroundMode (sn_mode (snap s r)) then 0 else 1)\<rparr>)"
  using assms by (simp add: acquireSlot_def)

text \<open>The core of what \<open>acquireSlot\<close> and \<open>execute\<close> do to a live queued record.\<close>

definition started :: "int \<Rightarrow> nat \<Rightarrow> nat \<Rightarrow> work \<Rightarrow> sched \<Rightarrow> sched" where
  "started now r c w s =
     (let fg = isForegroundMode (sn_mode (snap s r)); x = sc_store s r
      in s\<lparr>sc_store := (sc_store s)(r := x\<lparr>rc_slotAcquired := True, rc_resumeFrom := None,
             rc_attempts := rc_attempts x + 1, rc_snapshot := (rc_snapshot x)\<lparr>sn_status := Running,
               sn_startedAt := Some (case sn_startedAt (rc_snapshot x) of None \<Rightarrow> now | Some t \<Rightarrow> t),
               sn_error := None, sn_attempts := Some (rc_attempts x + 1)\<rparr>\<rparr>),
           sc_runningForeground := sc_runningForeground s + (if fg then 1 else 0),
           sc_runningBackground := sc_runningBackground s + (if fg then 0 else 1),
           sc_frames := sc_frames s @ [\<lparr>fr_ref = r, fr_generation = rc_generation x, fr_controller = c,
             fr_work = w, fr_resumeFrom = rc_resumeFrom x, fr_timedOut = False\<rparr>]\<rparr>)"

lemma start_core:
  assumes "\<not> rc_slotAcquired (sc_store s r)" "rc_work (sc_store s r) = Some w"
    "rc_controller (sc_store s r) = Some c" "live_queued s r"
  shows "core (startExecution now r (acquireSlot r s)) = core (started now r c w s)"
proof -
  have "c \<notin> sc_aborted s" "status_at s r = Queued" using assms(3,4) by (simp_all add: live_queued_def aborted_def)
  then show ?thesis
    using assms(2,3)
    by (simp add: acquireSlot_fields [OF assms(1)] startExecution_def Let_def aborted_def core_commutes)
      (simp add: core_def upd_def started_def Let_def)
qed

lemma started_inv:
  assumes inv: "inv_except {r} ckey s" and r: "r < sc_nextRef s" "live_queued s r" "\<not> in_queue s r"
    and w: "rc_work (sc_store s r) = Some w" and c: "rc_controller (sc_store s r) = Some c"
    and room: "if isForegroundMode (sn_mode (snap s r)) then sc_runningForeground s < sc_maxForeground s
      else sc_runningBackground s < sc_maxBackground s"
  shows "inv_except {} ckey (started now r c w s)"
proof -
  define s' where "s' = started now r c w s"
  have rok: "record_ok {r} s r'" if "r' < sc_nextRef s" for r' using inv that by (simp add: inv_except_def)
  have q: "status_at s r = Queued" "c \<notin> sc_aborted s" using r(2) c by (simp_all add: live_queued_def aborted_def)
  have slot: "\<not> rc_slotAcquired (sc_store s r)" using rok [OF r(1)] q(1) by (simp add: record_ok_def)
  define f where "f = \<lparr>fr_ref = r, fr_generation = rc_generation (sc_store s r), fr_controller = c, fr_work = w,
    fr_resumeFrom = rc_resumeFrom (sc_store s r), fr_timedOut = False\<rparr>"
  have f: "sc_frames s' = sc_frames s @ [f]" "fr_ref f = r" "fr_generation f = rc_generation (sc_store s r)"
    "fr_controller f = c" "\<not> fr_timedOut f"
    by (simp_all add: s'_def started_def Let_def f_def)
  have fields: "sc_nextRef s' = sc_nextRef s" "sc_records s' = sc_records s" "sc_aborted s' = sc_aborted s"
    "sc_nextController s' = sc_nextController s" "sc_nextPromise s' = sc_nextPromise s" "sc_settled s' = sc_settled s"
    "sc_foregroundReady s' = sc_foregroundReady s" "sc_backgroundReady s' = sc_backgroundReady s"
    "sc_delayedReady s' = sc_delayedReady s" "sc_maxForeground s' = sc_maxForeground s"
    "sc_maxBackground s' = sc_maxBackground s"
    by (simp_all add: s'_def started_def Let_def)
  have keep: "same_order s s' r'" "ref_id s' r' = ref_id s r'"
    "rc_generation (sc_store s' r') = rc_generation (sc_store s r')"
    "sn_mode (snap s' r') = sn_mode (snap s r')"
    "rc_controller (sc_store s' r') = rc_controller (sc_store s r')"
    "rc_promise (sc_store s' r') = rc_promise (sc_store s r')" "rc_work (sc_store s' r') = rc_work (sc_store s r')"
    "rc_slotAcquired (sc_store s' r') = (r' = r \<or> rc_slotAcquired (sc_store s r'))"
    "status_at s' r' = (if r' = r then Running else status_at s r')" for r'
    by (simp_all add: s'_def started_def Let_def same_order_def ref_id_def)
  have views: "in_queue s' = in_queue s" "lonely s' = lonely s" "current s' = current s"
    by (simp_all add: in_queue_def lonely_def current_def fun_eq_iff keep fields)
  have "queue_inv ckey s'"
    using inv by (simp add: inv_except_def queue_inv_def fields sq_ok_cong [OF keep(1)] rq_ok_cong [OF keep(1)])
  moreover have "entry_inv {} s'"
    using inv r(3) unfolding inv_except_def entry_inv_def views fields keep by (auto simp: in_queue_def)
  moreover have "record_ok {} s' r'" if "r' < sc_nextRef s" for r'
    using rok [OF that] q by (auto simp: record_ok_def keep fields aborted_iff)
  moreover have "owner_inv s'"
  proof (rule owner_invI, unfold keep fields)
    have own: "owner_inv s" using inv by (simp add: inv_except_def)
    show "x < sc_nextRef s \<Longrightarrow> y < sc_nextRef s \<Longrightarrow> rc_controller (sc_store s x) = Some d \<Longrightarrow>
        rc_controller (sc_store s y) = Some d \<Longrightarrow> x = y" for x y d
      by (rule owner_controller [OF own])
    show "x < sc_nextRef s \<Longrightarrow> y < sc_nextRef s \<Longrightarrow> rc_promise (sc_store s x) = Some d \<Longrightarrow>
        rc_promise (sc_store s y) = Some d \<Longrightarrow> x = y" for x y d
      by (rule owner_promise [OF own])
    show "x = fr_ref g \<and> (if x = r then Running else status_at s x) \<noteq> Queued"
      if g: "g \<in> set (sc_frames s')" and x: "x < sc_nextRef s" "rc_controller (sc_store s x) = Some (fr_controller g)"
      for g x
    proof (cases "g = f")
      case True
      then show ?thesis using owner_controller [OF own x(1) r(1) x(2)] c f by auto
    next
      case False
      then show ?thesis using owner_frame [OF own _ x] g f(1) by auto
    qed
  qed
  moreover have "frame_inv {} s'"
  proof -
    have old: "frame_ok {r} s g" if "g \<in> set (sc_frames s)" for g by (rule frame_okD [OF inv that])
    have "frame_ok {} s' g" if "g \<in> set (sc_frames s)" for g
      using old [OF that] by (auto simp: frame_ok_def keep views fields)
    moreover have "frame_ok {} s' f"
      using r(1) rok [OF r(1)] c q(2) by (simp add: frame_ok_def keep views fields f record_ok_def)
    moreover have "(r, rc_generation (sc_store s r)) \<notin> (\<lambda>f. (fr_ref f, fr_generation f)) ` set (sc_frames s)"
    proof
      assume "(r, rc_generation (sc_store s r)) \<in> (\<lambda>f. (fr_ref f, fr_generation f)) ` set (sc_frames s)"
      then obtain g where g: "g \<in> set (sc_frames s)" "fr_ref g = r" "current s g" by (auto simp: current_def)
      then show False using old [OF g(1)] by (simp add: frame_ok_def)
    qed
    moreover have "current s f" by (simp add: current_def f)
    ultimately show ?thesis
      using inv f by (auto simp: inv_except_def frame_inv_def keep views fields)
  qed
  moreover have "slot_inv s'"
  proof -
    let ?fg = "isForegroundMode (sn_mode (snap s r))"
    have h: "slot_holders ?fg s' = insert r (slot_holders ?fg s)" "slot_holders (\<not> ?fg) s' = slot_holders (\<not> ?fg) s"
      using r(1) by (auto simp: slot_holders_def keep fields)
    have "finite (slot_holders ?fg s)" "r \<notin> slot_holders ?fg s" using slot by (simp_all add: slot_holders_def)
    then have "card (slot_holders ?fg s') = card (slot_holders ?fg s) + 1" unfolding h by simp
    then show ?thesis
      using inv h(2) room
      by (cases ?fg) (simp_all add: inv_except_def slot_inv_def fields, simp_all add: s'_def started_def Let_def)
  qed
  moreover have "promise_inv s'"
  proof -
    have act: "is_active (status_at s' r') \<longleftrightarrow> is_active (status_at s r')" for r' using q(1) by (simp add: keep)
    have "promise_inv s' = promise_inv s" unfolding promise_inv_def fields keep(6) act ..
    then show ?thesis using inv by (simp add: inv_except_def)
  qed
  moreover have "map_inv s'" using inv unfolding inv_except_def map_inv_def fields keep by blast
  moreover have "abort_inv s'" using inv by (simp add: inv_except_def abort_inv_def fields)
  moreover have "apart_inv {} s'"
  proof (rule apartI, unfold views keep)
    fix g assume g: "g \<in> set (sc_frames s')" "(if fr_ref g = r then Running else status_at s (fr_ref g)) = Running"
      "rc_controller (sc_store s (fr_ref g)) = Some (fr_controller g)"
    have apart: "apart_inv {r} s" and own: "owner_inv s" using inv by (simp_all add: inv_except_def)
    show "current s g"
    proof (cases "g = f")
      case True
      then show ?thesis by (simp add: current_def f)
    next
      case False
      then have gs: "g \<in> set (sc_frames s)" using g(1) f(1) by simp
      have "fr_ref g \<noteq> r"
      proof
        assume "fr_ref g = r"
        then show False using owner_frame [OF own gs, of r] r(1) g(3) q(1) by simp
      qed
      then show ?thesis using apartD [OF apart gs] g(2,3) by simp
    qed
  qed
  ultimately show ?thesis unfolding inv_except_def fields s'_def [symmetric] by blast
qed

lemma start_inv:
  assumes inv: "inv_except {r} ckey s" and r: "r < sc_nextRef s" "live_queued s r" "\<not> in_queue s r"
    and room: "if isForegroundMode (sn_mode (snap s r)) then sc_runningForeground s < sc_maxForeground s
      else sc_runningBackground s < sc_maxBackground s"
  shows "inv_except {} ckey (startExecution now r (acquireSlot r s))"
proof -
  have rok: "record_ok {r} s r" using inv r(1) by (simp add: inv_except_def)
  have q: "status_at s r = Queued" using r(2) by (simp add: live_queued_def)
  obtain c where c: "rc_controller (sc_store s r) = Some c" using rok q by (auto simp: record_ok_def)
  obtain w where w: "rc_work (sc_store s r) = Some w" using rok q by (auto simp: record_ok_def)
  have "\<not> rc_slotAcquired (sc_store s r)" using rok q by (simp add: record_ok_def)
  from inv_core_eq [OF start_core [OF this w c r(2)]] started_inv [OF inv r w c room]
  show ?thesis by blast
qed

lemma pumpStep_inv:
  assumes inv: "inv_except {} ckey s" and b: "next_queue ckey s = Some b"
  shows "inv_except {} ckey (pumpStep ckey now b s)"
proof -
  have ei: "entry_inv {} s" "queue_inv ckey s" using inv by (simp_all add: inv_except_def)
  let ?q = "if b then sc_foregroundReady s else sc_backgroundReady s"
  have room: "if b then sc_runningForeground s < sc_maxForeground s else sc_runningBackground s < sc_maxBackground s"
    and "pq_peek ?q \<noteq> None"
    using b by (auto simp: next_queue_def Let_def split: if_splits option.splits)
  then obtain r where peek: "pq_peek ?q = Some r" by blast
  have "sq_ok ckey s ?q" using ei(2) by (simp add: queue_inv_def)
  then obtain q' where q': "pq_pop (ref_id s) (scheduled_cmp ckey s) ?q = (Some r, q')" "sq_ok ckey s q'"
    "entries_of q' = entries_of ?q - {r}" "r \<in> entries_of ?q"
    using pop_sq [OF _ peek] by metis
  define s1 where "s1 = with_queues (if b then q' else sc_foregroundReady s)
    (if b then sc_backgroundReady s else q') (sc_delayedReady s) s"
  have pop: "pop_next ckey b s = (Some r, s1)"
    using q'(1) by (cases b) (simp_all add: pop_next_def s1_def with_queues_def)
  have in_q: "in_queue s r" using q'(4) by (auto simp: in_queue_def split: if_splits)
  then have r: "r < sc_nextRef s" "status_at s r = Queued" using ei(1) by (auto simp: entry_inv_def)
  have mode: "isForegroundMode (sn_mode (snap s r)) = b"
    using q'(4) ei(1) by (cases b) (auto simp: entry_inv_def)
  have live: "live_queued s1 r"
    using inv r by (simp add: s1_def live_queued_def inv_except_def record_ok_def)
  have out: "\<not> in_queue s1 r"
    using q'(3,4) ei(1) mode by (cases b) (auto simp: s1_def in_queue_def entry_inv_def)
  have "entry_inv {r} s1"
    using ei(1) q'(3) unfolding s1_def
    by (cases b) (auto simp: entry_inv_def in_queue_def)
  then have "inv_except {r} ckey s1"
    unfolding s1_def
    by (intro with_queues_inv [OF inv_except_queued [OF inv r(2)]])
      (use ei(2) q'(2) in \<open>simp_all add: queue_inv_def\<close>)
  then have "inv_except {} ckey (startExecution now r (acquireSlot r s1))"
    by (rule start_inv) (use r(1) live out mode room in \<open>simp_all add: s1_def\<close>)
  then show ?thesis using pop live by (simp add: pumpStep_def)
qed

lemma pumpLoop_inv: "inv_except {} ckey s \<Longrightarrow> inv_except {} ckey (pumpLoop ckey now s)"
proof (induction ckey now s rule: pumpLoop.induct)
  case (1 ckey now s)
  show ?case
    using 1 pumpStep_inv [OF "1.prems"]
    by (cases "next_queue ckey s") (simp_all add: pumpLoop.simps [of ckey now s])
qed

lemma pump_inv: "inv_except {} ckey s \<Longrightarrow> inv_except {} ckey (pump ckey now s)"
  by (simp add: pump_def pumpLoop_inv promoteReady_inv)

end
