(* ===== verification/SchedulerProofs.thy ===== *)
theory SchedulerProofs
  imports SchedulerPump
begin

text \<open>
  The operations of the task scheduler and the ends of its executions keep the invariant of
  \<open>SchedulerInv\<close>; the properties of the schedulers that can be reached follow.
\<close>

section \<open>Ends of executions\<close>

lemma not_queued_out: "inv_except X ckey s \<Longrightarrow> status_at s r \<noteq> Queued \<Longrightarrow> \<not> in_queue s r"
  by (auto simp: inv_except_def entry_inv_def)

lemma upd_upd [simp]: "upd r f (upd r g s) = upd r (\<lambda>x. f (g x)) s"
  by (simp add: upd_def)

lemma completeTask_core:
  "core (completeTask now r value s) =
   core (leave r (\<lambda>n. n\<lparr>sn_status := Completed, sn_finishedAt := Some now\<rparr>) True (ResolvedWith value) s)"
  by (simp add: completeTask_def leave_def Let_def core_commutes releaseSettledRuntime_def)

lemma failTask_core:
  "core (failTask now r e s) =
   core (leave r (\<lambda>n. n\<lparr>sn_status := Failed, sn_error := Some (error_of e), sn_finishedAt := Some now\<rparr>) True
     (RejectedWith e) s)"
  by (simp add: failTask_def leave_def Let_def core_commutes releaseSettledRuntime_def o_def)

definition cancelled :: "(jstring \<Rightarrow> int list) \<Rightarrow> int \<Rightarrow> nat \<Rightarrow> sched \<Rightarrow> sched" where
  "cancelled ckey now r s = leave r (\<lambda>n. n\<lparr>sn_status := Cancelled, sn_finishedAt := Some now\<rparr>) True
     (ResolvedWith None) (removeReady ckey r True s)"

lemma finishCancelled_pump:
  assumes "is_active (status_at s r)"
  obtains t where "finishCancelled ckey now r s = pump ckey now t" "core t = core (cancelled ckey now r s)"
proof
  let ?s2 = "upd r (on_snapshot (\<lambda>n. n\<lparr>sn_status := Cancelled, sn_finishedAt := Some now\<rparr>))
    (releaseSlot r (removeReady ckey r True s))"
  let ?s3 = "persist r (releaseDedupe r ?s2)"
  let ?t = "settle (rc_promise (sc_store ?s3 r)) (ResolvedWith None)
    (emit ECancelled (ref_id ?s3 r) (releaseSettledRuntime r ?s3))"
  have "\<not> (isTerminal (status_at s r) \<or> status_at s r = Interrupted)" using assms by (auto simp: isTerminal_def)
  then show "finishCancelled ckey now r s = pump ckey now ?t"
    unfolding finishCancelled_def Let_def by (simp only: if_False)
  show "core ?t = core (cancelled ckey now r s)"
    by (simp add: cancelled_def leave_def Let_def core_commutes releaseSettledRuntime_def)
qed

lemma leave_removed_inv:
  assumes inv: "inv_except {r} ckey s" and r: "r < sc_nextRef s" "is_active (status_at s r)"
    and g: "sets_status st g" "\<not> is_active st" "release \<longleftrightarrow> st \<in> {Completed, Failed, Cancelled}"
  shows "inv_except {} ckey (leave r g release v (removeReady ckey r b s))"
  using removeReady_inv [OF inv r(1), of b] r g by (intro leave_inv) simp_all

lemma finishCancelled_inv:
  assumes inv: "inv_except {r} ckey s" and r: "r < sc_nextRef s" "is_active (status_at s r)"
  shows "inv_except {} ckey (finishCancelled ckey now r s)"
proof -
  obtain t where t: "finishCancelled ckey now r s = pump ckey now t" "core t = core (cancelled ckey now r s)"
    using finishCancelled_pump [OF r(2)] .
  have "inv_except {} ckey (cancelled ckey now r s)"
    unfolding cancelled_def by (rule leave_removed_inv [OF inv r, where st = Cancelled]) (simp_all add: sets_status_def)
  then show ?thesis using t inv_core_eq pump_inv by metis
qed

lemma completeTask_inv:
  assumes "inv_except {r} ckey s" "r < sc_nextRef s" "status_at s r = Running"
  shows "inv_except {} ckey (completeTask now r v s)"
  unfolding inv_core_eq [OF completeTask_core]
  using assms not_queued_out [OF assms(1)] by (intro leave_inv [where st = Completed]) (simp_all add: sets_status_def)

lemma failTask_inv:
  assumes "inv_except {r} ckey s" "r < sc_nextRef s" "status_at s r = Running"
  shows "inv_except {} ckey (failTask now r e s)"
  unfolding inv_core_eq [OF failTask_core]
  using assms not_queued_out [OF assms(1)] by (intro leave_inv [where st = Failed]) (simp_all add: sets_status_def)

section \<open>A record is queued again\<close>

text \<open>A new controller and generation; a new promise when the old one is settled.\<close>

definition requeues :: "nat \<Rightarrow> sched \<Rightarrow> sched \<Rightarrow> bool" where
  "requeues r s s' \<longleftrightarrow>
     (\<forall>r'. r' \<noteq> r \<longrightarrow> sc_store s' r' = sc_store s r') \<and>
     (let x = sc_store s r; x' = sc_store s' r; fg = isForegroundMode (sn_mode (rc_snapshot x)) in
        sn_id (rc_snapshot x') = sn_id (rc_snapshot x) \<and> sn_mode (rc_snapshot x') = sn_mode (rc_snapshot x) \<and>
        sn_status (rc_snapshot x') = Queued \<and> rc_work x' = rc_work x \<and> \<not> rc_slotAcquired x' \<and>
        rc_controller x' = Some (sc_nextController s) \<and> rc_generation x' = Suc (rc_generation x) \<and>
        (if sn_status (rc_snapshot x) = Running
         then rc_promise x' = rc_promise x \<and> sc_nextPromise s' = sc_nextPromise s
         else rc_promise x' = Some (sc_nextPromise s) \<and> sc_nextPromise s' = sc_nextPromise s + 1) \<and>
        sc_runningForeground s' = sc_runningForeground s - (if rc_slotAcquired x \<and> fg then 1 else 0) \<and>
        sc_runningBackground s' = sc_runningBackground s - (if rc_slotAcquired x \<and> \<not> fg then 1 else 0)) \<and>
     sc_nextRef s' = sc_nextRef s \<and> sc_records s' = sc_records s \<and>
     sc_foregroundReady s' = sc_foregroundReady s \<and> sc_backgroundReady s' = sc_backgroundReady s \<and>
     sc_delayedReady s' = sc_delayedReady s \<and> sc_aborted s' = sc_aborted s \<and> sc_frames s' = sc_frames s \<and>
     sc_maxForeground s' = sc_maxForeground s \<and> sc_maxBackground s' = sc_maxBackground s \<and>
     sc_nextController s' = sc_nextController s + 1 \<and> sc_settled s' = sc_settled s"

lemma record_ok_mono:
  assumes ok: "record_ok X s r" and eq: "sc_store s' r = sc_store s r" "sc_aborted s' = sc_aborted s"
    and le: "sc_nextController s \<le> sc_nextController s'" "sc_nextPromise s \<le> sc_nextPromise s'"
    and settled: "\<And>p. p < sc_nextPromise s \<Longrightarrow> p \<in> settled_ids s' \<longleftrightarrow> p \<in> settled_ids s" and X: "r \<in> X \<longrightarrow> r \<in> X'"
  shows "record_ok X' s' r"
proof -
  have "\<forall>c. rc_controller (sc_store s r) = Some c \<longrightarrow> c < sc_nextController s'"
    using ok le(1) by (auto simp: record_ok_def)
  moreover have "\<forall>p. rc_promise (sc_store s r) = Some p \<longrightarrow> p < sc_nextPromise s' \<and>
      (p \<in> settled_ids s' \<longleftrightarrow> \<not> is_active (status_at s r))"
    using ok le(2) settled by (auto simp: record_ok_def)
  moreover have "aborted c s' = aborted c s" for c using eq(2) by (simp add: aborted_iff)
  moreover have "status_at s r = Queued \<and> r \<notin> X' \<longrightarrow> \<not> aborted (rc_controller (sc_store s r)) s"
    using ok X unfolding record_ok_def by blast
  moreover have "rc_slotAcquired (sc_store s r) \<longleftrightarrow> status_at s r = Running"
    and "is_active (status_at s r) \<longrightarrow> rc_controller (sc_store s r) \<noteq> None"
    and "status_at s r \<notin> {Completed, Failed, Cancelled} \<longrightarrow>
      rc_work (sc_store s r) \<noteq> None \<and> rc_promise (sc_store s r) \<noteq> None"
    using ok unfolding record_ok_def by blast+
  ultimately show ?thesis unfolding record_ok_def eq(1) by (intro conjI) simp_all
qed

lemma requeues_inv:
  assumes inv: "inv_except Y ckey s" and r: "r < sc_nextRef s"
    and st: "status_at s r = Running \<and> Y = {r} \<or> status_at s r \<in> {Interrupted, WaitingUser} \<and> Y = {}"
    and re: "requeues r s s'"
  shows "inv_except {r} ckey s' \<and> live_queued s' r"
proof -
  have rok: "record_ok Y s r'" if "r' < sc_nextRef s" for r' using inv that by (simp add: inv_except_def)
  have out: "\<not> in_queue s r" using not_queued_out [OF inv] st by auto
  have Y: "Y \<subseteq> {r}" using st by auto
  have other: "sc_store s' r' = sc_store s r'" if "r' \<noteq> r" for r' using re that by (simp add: requeues_def)
  have fields: "sc_nextRef s' = sc_nextRef s" "sc_records s' = sc_records s" "sc_aborted s' = sc_aborted s"
    "sc_nextController s' = sc_nextController s + 1" "sc_settled s' = sc_settled s" "sc_frames s' = sc_frames s"
    "sc_foregroundReady s' = sc_foregroundReady s" "sc_backgroundReady s' = sc_backgroundReady s"
    "sc_delayedReady s' = sc_delayedReady s" "sc_maxForeground s' = sc_maxForeground s"
    "sc_maxBackground s' = sc_maxBackground s"
    using re by (simp_all add: requeues_def)
  have new: "status_at s' r = Queued" "rc_work (sc_store s' r) = rc_work (sc_store s r)"
    "\<not> rc_slotAcquired (sc_store s' r)" "rc_controller (sc_store s' r) = Some (sc_nextController s)"
    "rc_generation (sc_store s' r) = Suc (rc_generation (sc_store s r))"
    using re by (simp_all add: requeues_def Let_def)
  have keep: "ref_id s' r' = ref_id s r'" "sn_mode (snap s' r') = sn_mode (snap s r')"
    "rc_work (sc_store s' r') = rc_work (sc_store s r')"
    "rc_generation (sc_store s' r') = (if r' = r then Suc else id) (rc_generation (sc_store s r'))"
    "status_at s' r' = (if r' = r then Queued else status_at s r')" for r'
    using re by (cases "r' = r"; simp add: requeues_def Let_def ref_id_def)+
  have views: "in_queue s' = in_queue s" "lonely s' = lonely s"
    by (simp_all add: in_queue_def lonely_def fun_eq_iff keep fields)
  have cur: "current s' f \<longleftrightarrow> current s f \<and> fr_ref f \<noteq> r" if "f \<in> set (sc_frames s)" for f
    using frame_okD [OF inv that] by (auto simp: current_def keep frame_ok_def)
  have same: "same_order s s' x" if "in_queue s x" for x
  proof -
    have "x \<noteq> r" using out that by auto
    then show ?thesis using other by (simp add: same_order_def ref_id_def)
  qed
  have "queue_inv ckey s'"
    using inv same unfolding inv_except_def queue_inv_def fields in_queue_def
    by (metis (no_types, lifting) sq_ok_cong rq_ok_cong)
  moreover have "entry_inv {r} s'"
    using inv out Y unfolding inv_except_def entry_inv_def views fields keep by (auto simp: in_queue_def)
  moreover have "frame_inv {r} s'"
  proof -
    have "frame_ok {r} s' f" if f: "f \<in> set (sc_frames s)" for f
      using frame_okD [OF inv f] other [of "fr_ref f"]
      by (auto simp: frame_ok_def cur [OF f] keep fields)
    moreover have "\<exists>f \<in> set (sc_frames s). fr_ref f = x \<and> current s' f"
      if x: "x < sc_nextRef s" "status_at s x = Running" "x \<noteq> r" for x
    proof -
      have "x \<notin> Y" using st x(3) by auto
      then obtain f where "f \<in> set (sc_frames s)" "fr_ref f = x" "current s f"
        using inv x unfolding inv_except_def frame_inv_def by blast
      then show ?thesis using cur x(3) by blast
    qed
    ultimately show ?thesis using inv by (auto simp: inv_except_def frame_inv_def fields keep)
  qed
  moreover have "abort_inv s'" using inv by (auto simp: inv_except_def abort_inv_def fields)
  moreover have "map_inv s'" using inv unfolding inv_except_def map_inv_def fields keep by blast
  moreover have "slot_inv s'"
  proof -
    have "slot_holders fg s' = slot_holders fg s - {r}" for fg
      by (rule slot_holders_release [OF other new(3) fields(1)])
    then show ?thesis
      using inv re card_holders_release [OF r, of True] card_holders_release [OF r, of False]
      by (auto simp: inv_except_def slot_inv_def fields requeues_def Let_def split: if_splits)
  qed
  moreover have "record_ok {r} s' x" if x: "x < sc_nextRef s" for x
  proof (cases "x = r")
    case True
    have "sc_nextPromise s \<notin> settled_ids s" using inv by (auto simp: inv_except_def promise_inv_def)
    then show ?thesis
      using rok [OF r] st re new unfolding True record_ok_def fields
      by (auto simp: requeues_def Let_def split: if_splits)
  next
    case False
    have "sc_nextPromise s \<le> sc_nextPromise s'" using re by (auto simp: requeues_def Let_def split: if_splits)
    moreover have "x \<notin> Y" using Y False by blast
    ultimately show ?thesis
      by (intro record_ok_mono [OF rok [OF x] other [OF False]]) (simp_all add: fields)
  qed
  moreover have own: "owner_inv s'"
  proof -
    have o: "owner_inv s" using inv by (simp add: inv_except_def)
    have c: "rc_controller (sc_store s' x) = Some c \<Longrightarrow>
        if x = r then c = sc_nextController s else rc_controller (sc_store s x) = Some c \<and> c < sc_nextController s"
      if "x < sc_nextRef s" for x c
      using new(4) other [of x] rok [OF that] by (cases "x = r") (simp_all add: record_ok_def)
    have p: "rc_promise (sc_store s' x) = Some p \<Longrightarrow>
        rc_promise (sc_store s x) = Some p \<or> x = r \<and> p = sc_nextPromise s"
      if "x < sc_nextRef s" for x p
      using re other [of x] by (cases "x = r") (auto simp: requeues_def Let_def split: if_splits)
    have bound: "rc_promise (sc_store s x) \<noteq> Some (sc_nextPromise s)" if "x < sc_nextRef s" for x
      using rok [OF that] by (auto simp: record_ok_def)
    show ?thesis
    proof (rule owner_invI, unfold fields)
      show "x = y" if "x < sc_nextRef s" "y < sc_nextRef s" "rc_controller (sc_store s' x) = Some d"
        "rc_controller (sc_store s' y) = Some d" for x y d
        using c [OF that(1,3)] c [OF that(2,4)] owner_controller [OF o that(1,2), of d] by (auto split: if_splits)
      show "x = y" if "x < sc_nextRef s" "y < sc_nextRef s" "rc_promise (sc_store s' x) = Some d"
        "rc_promise (sc_store s' y) = Some d" for x y d
        using p [OF that(1,3)] p [OF that(2,4)] owner_promise [OF o that(1,2), of d] bound that(1,2) by auto
      show "x = fr_ref f \<and> status_at s' x \<noteq> Queued"
        if f: "f \<in> set (sc_frames s)" and x: "x < sc_nextRef s" "rc_controller (sc_store s' x) = Some (fr_controller f)"
        for f x
        using c [OF x] frame_okD [OF inv f] owner_frame [OF o f x(1)] keep(5) [of x]
        by (auto simp: frame_ok_def split: if_splits)
    qed
  qed
  moreover have "promise_inv s'"
  proof -
    have pi: "promise_inv s" using inv by (simp add: inv_except_def)
    have "\<exists>x < sc_nextRef s. rc_promise (sc_store s' x) = Some p \<and> is_active (status_at s' x)"
      if p: "p < sc_nextPromise s'" "p \<notin> settled_ids s" for p
    proof (cases "rc_promise (sc_store s' r) = Some p")
      case True
      then show ?thesis using r new(1) by auto
    next
      case False
      then have "p < sc_nextPromise s"
        using re p(1) by (auto simp: requeues_def Let_def less_Suc_eq split: if_splits)
      then obtain x where x: "x < sc_nextRef s" "rc_promise (sc_store s x) = Some p" "is_active (status_at s x)"
        using pi p(2) unfolding promise_inv_def by blast
      have "x \<noteq> r"
      proof
        assume "x = r"
        then have "status_at s r = Running" using x(3) st by auto
        then show False using re False x(2) \<open>x = r\<close> by (simp add: requeues_def Let_def)
      qed
      then show ?thesis using x other by auto
    qed
    moreover have "p < sc_nextPromise s'" if "p \<in> settled_ids s" for p
      using pi that re by (auto simp: promise_inv_def requeues_def Let_def less_Suc_eq split: if_splits)
    ultimately show ?thesis using pi unfolding promise_inv_def fields by blast
  qed
  moreover have "apart_inv {r} s'"
  proof (rule apartI, unfold fields)
    fix f assume f: "f \<in> set (sc_frames s)" "fr_ref f \<notin> {r}" "status_at s' (fr_ref f) = Running"
      "rc_controller (sc_store s' (fr_ref f)) = Some (fr_controller f)"
    have apart: "apart_inv Y s" using inv by (simp add: inv_except_def)
    have "current s f"
      by (rule apartD [OF apart f(1)]) (use f(2-4) Y other [of "fr_ref f"] in auto)
    then show "current s' f" using cur [OF f(1)] f(2) by simp
  qed
  moreover have "live_queued s' r"
    using inv new(1,4) by (auto simp: live_queued_def aborted_iff inv_except_def abort_inv_def fields)
  ultimately show ?thesis by (simp add: inv_except_def fields)
qed

lemma newController_fields [simp]:
  "sc_store (newController r s) = (sc_store s)(r := (sc_store s r)\<lparr>rc_controller := Some (sc_nextController s)\<rparr>)"
  "sc_nextController (newController r s) = sc_nextController s + 1"
  "sc_nextPromise (newController r s) = sc_nextPromise s" "sc_nextRef (newController r s) = sc_nextRef s"
  "sc_records (newController r s) = sc_records s" "sc_frames (newController r s) = sc_frames s"
  "sc_aborted (newController r s) = sc_aborted s" "sc_settled (newController r s) = sc_settled s"
  "sc_foregroundReady (newController r s) = sc_foregroundReady s"
  "sc_backgroundReady (newController r s) = sc_backgroundReady s"
  "sc_delayedReady (newController r s) = sc_delayedReady s"
  "sc_maxForeground (newController r s) = sc_maxForeground s"
  "sc_maxBackground (newController r s) = sc_maxBackground s"
  "sc_runningForeground (newController r s) = sc_runningForeground s"
  "sc_runningBackground (newController r s) = sc_runningBackground s"
  by (simp_all add: newController_def)

lemma arm_requeued_inv:
  assumes "inv_except Y ckey s" "r < sc_nextRef s"
    and "status_at s r = Running \<and> Y = {r} \<or> status_at s r \<in> {Interrupted, WaitingUser} \<and> Y = {}"
    and "requeues r s t" "core t' = core t"
  shows "inv_except {} ckey (arm ckey now r t')"
proof -
  have "inv_except {r} ckey t \<and> live_queued t r" by (rule requeues_inv [OF assms(1-4)])
  moreover have "live_queued t' r = live_queued t r" using core_views(5) assms(5) by metis
  moreover have "r < sc_nextRef t'" using assms(2,4) core_eq_fields(2) [OF assms(5)] by (simp add: requeues_def)
  ultimately show ?thesis using inv_core_eq [OF assms(5)] by (intro arm_inv) simp_all
qed

lemma retryTask_inv:
  assumes inv: "inv_except {r} ckey s" and r: "r < sc_nextRef s" "status_at s r = Running"
  shows "inv_except {} ckey (retryTask ckey now r w s)"
proof -
  define t where "t = upd r (\<lambda>x. x\<lparr>rc_generation := rc_generation x + 1,
      rc_snapshot := (rc_snapshot x)\<lparr>sn_status := Queued\<rparr>,
      rc_readyAt := now + max 0 (case wk_retryDelayMs w of None \<Rightarrow> 0 | Some d \<Rightarrow> d)\<rparr>)
    (newController r (releaseSlot r s))"
  have "requeues r s t" using r(2) by (simp add: requeues_def t_def Let_def)
  then have "inv_except {} ckey (arm ckey now r (emit ERetrying (ref_id t r) (persist r t)))"
    by (intro arm_requeued_inv [OF inv r(1)]) (use r(2) in simp_all)
  then show ?thesis by (simp add: retryTask_def Let_def t_def del: upd_upd)
qed

lemma settleExecution_inv:
  assumes inv: "inv_except X ckey s" and r: "fr_ref f < sc_nextRef s"
    and X: "X = (if current s f then {fr_ref f} else {})"
    and st: "current s f \<Longrightarrow> status_at s (fr_ref f) = Running"
  shows "inv_except {} ckey (settleExecution ckey now f oc s)"
proof (cases "current s f")
  case False
  then show ?thesis using inv X by (simp add: settleExecution_def Let_def current_def eq_commute)
next
  case True
  note i = inv [unfolded X, simplified True, simplified] and s = st [OF True]
  have "fr_generation f = rc_generation (sc_store s (fr_ref f))" using True by (simp add: current_def)
  then show ?thesis
    using finishCancelled_inv [OF i r] completeTask_inv [OF i r s] failTask_inv [OF i r s] retryTask_inv [OF i r s] s
    by (simp add: settleExecution_def Let_def split: outcome.split)
qed

lemma endExecution_inv:
  assumes inv: "inv_except {} ckey s" and k: "k < length (sc_frames s)"
  shows "inv_except {} ckey (endExecution ckey now k oc s)"
proof -
  let ?f = "sc_frames s ! k" and ?s = "s\<lparr>sc_frames := take k (sc_frames s) @ drop (Suc k) (sc_frames s)\<rparr>"
  have ok: "frame_ok {} s ?f" by (rule frame_okD [OF inv nth_mem [OF k]])
  have cur: "current ?s ?f = current s ?f" by (simp add: current_def)
  have "inv_except {} ckey (settleExecution ckey now ?f oc ?s)"
    by (rule settleExecution_inv [OF remove_frame_inv [OF inv k]]) (use ok in \<open>auto simp: cur frame_ok_def\<close>)
  then show ?thesis by (simp add: endExecution_def Let_def pump_inv)
qed

section \<open>Notes, timeouts\<close>

text \<open>Changes of the store and the frames that the invariant does not see.\<close>

definition same_record :: "srec \<Rightarrow> srec \<Rightarrow> bool" where
  "same_record x y \<longleftrightarrow> sn_id (rc_snapshot y) = sn_id (rc_snapshot x) \<and> sn_mode (rc_snapshot y) = sn_mode (rc_snapshot x) \<and>
     sn_status (rc_snapshot y) = sn_status (rc_snapshot x) \<and> rc_work y = rc_work x \<and>
     rc_controller y = rc_controller x \<and> rc_promise y = rc_promise x \<and> rc_readyAt y = rc_readyAt x \<and>
     rc_priority y = rc_priority x \<and> rc_slotAcquired y = rc_slotAcquired x \<and> rc_generation y = rc_generation x"

lemma note_inv:
  assumes inv: "inv_except X ckey s" and same: "\<And>r. same_record (sc_store s r) (st r)"
  shows "inv_except X ckey (s\<lparr>sc_store := st\<rparr>)"
proof -
  define s' where "s' = s\<lparr>sc_store := st\<rparr>"
  have keep: "same_order s s' r" "ref_id s' r = ref_id s r" "sn_mode (snap s' r) = sn_mode (snap s r)"
    "status_at s' r = status_at s r" "rc_work (sc_store s' r) = rc_work (sc_store s r)"
    "rc_controller (sc_store s' r) = rc_controller (sc_store s r)"
    "rc_promise (sc_store s' r) = rc_promise (sc_store s r)"
    "rc_slotAcquired (sc_store s' r) = rc_slotAcquired (sc_store s r)"
    "rc_generation (sc_store s' r) = rc_generation (sc_store s r)" for r
    using same [of r] by (simp_all add: s'_def same_record_def same_order_def ref_id_def)
  have fields: "sc_nextRef s' = sc_nextRef s" "sc_frames s' = sc_frames s" "sc_records s' = sc_records s"
    "sc_aborted s' = sc_aborted s" "sc_nextController s' = sc_nextController s"
    "sc_nextPromise s' = sc_nextPromise s" "sc_settled s' = sc_settled s"
    "sc_foregroundReady s' = sc_foregroundReady s" "sc_backgroundReady s' = sc_backgroundReady s"
    "sc_delayedReady s' = sc_delayedReady s" "sc_runningForeground s' = sc_runningForeground s"
    "sc_runningBackground s' = sc_runningBackground s" "sc_maxForeground s' = sc_maxForeground s"
    "sc_maxBackground s' = sc_maxBackground s"
    by (simp_all add: s'_def)
  have views: "lonely s' = lonely s" "in_queue s' = in_queue s" "slot_holders fg s' = slot_holders fg s"
    "current s' = current s" "aborted c s' = aborted c s" for fg c
    by (simp_all add: fun_eq_iff lonely_def in_queue_def slot_holders_def current_def aborted_iff keep fields)
  have "record_ok X s' = record_ok X s" "frame_ok X s' = frame_ok X s"
    by (simp_all add: fun_eq_iff record_ok_def frame_ok_def keep fields views)
  moreover from this have "frame_inv X s' = frame_inv X s"
    unfolding frame_inv_def keep fields views by simp
  moreover have "owner_inv s' = owner_inv s" "slot_inv s' = slot_inv s" "promise_inv s' = promise_inv s"
    "map_inv s' = map_inv s" "abort_inv s' = abort_inv s" "entry_inv X s' = entry_inv X s"
    "apart_inv X s' = apart_inv X s"
    unfolding apart_inv_def owner_inv_def slot_inv_def promise_inv_def map_inv_def abort_inv_def entry_inv_def keep fields views
    by (rule refl)+
  moreover have "queue_inv ckey s' = queue_inv ckey s"
    unfolding queue_inv_def fields using sq_ok_cong [OF keep(1)] rq_ok_cong [OF keep(1)] by simp
  ultimately show ?thesis using inv unfolding s'_def [symmetric] inv_except_def fields by simp
qed

lemma note_upd_inv:
  "inv_except X ckey s \<Longrightarrow> (\<And>x. same_record x (f x)) \<Longrightarrow> inv_except X ckey (upd r f s)"
  unfolding upd_def by (rule note_inv) (auto simp: same_record_def)

lemma reportProgress_inv: "inv_except {} ckey s \<Longrightarrow> inv_except {} ckey (reportProgress r g p s)"
  using note_upd_inv [of "{}" ckey s "on_snapshot (\<lambda>n. n\<lparr>sn_progress := Some (max 0 (min 1 p))\<rparr>)" r]
  by (simp add: reportProgress_def Let_def same_record_def inv_core_eq [OF core_neutral(1)])

lemma set_checkpoint_inv:
  "inv_except {} ckey s \<Longrightarrow> inv_except {} ckey (upd r (on_snapshot (\<lambda>m. m\<lparr>sn_checkpoint := c\<rparr>)) s)"
  by (rule note_upd_inv) (simp_all add: same_record_def)

lemma recordCheckpoint_inv: "inv_except {} ckey s \<Longrightarrow> inv_except {} ckey (snd (recordCheckpoint now r c g s))"
  using set_checkpoint_inv [of ckey s r]
  by (simp add: recordCheckpoint_def Let_def inv_core_eq [OF core_neutral(1)] inv_core_eq [OF core_neutral(2)]
      split: option.split)

lemma recordCheckpoint_fields:
  "sc_nextRef (snd (recordCheckpoint now r c g s)) = sc_nextRef s"
  "sc_records (snd (recordCheckpoint now r c g s)) = sc_records s"
  "status_at (snd (recordCheckpoint now r c g s)) x = status_at s x"
  by (simp_all add: recordCheckpoint_def Let_def split: option.split)

lemma timeoutFires_inv:
  assumes inv: "inv_except {} ckey s" and k: "k < length (sc_frames s)" and t: "hasTimeout (fr_work (sc_frames s ! k))"
  shows "inv_except {} ckey (timeoutFires k s)"
proof -
  define f where "f = sc_frames s ! k"
  define f' where "f' = f\<lparr>fr_timedOut := True\<rparr>"
  define s' where "s' = timeoutFires k s"
  have f: "f \<in> set (sc_frames s)" using k by (simp add: f_def)
  have own: "owner_inv s" using inv by (simp add: inv_except_def)
  let ?id = "\<lambda>f. (fr_ref f, fr_generation f)"
  have dist: "distinct (map ?id (sc_frames s))" using inv by (simp add: inv_except_def frame_inv_def)
  have eq: "s' = s\<lparr>sc_aborted := insert (fr_controller f) (sc_aborted s), sc_frames := (sc_frames s)[k := f']\<rparr>"
    by (simp add: s'_def timeoutFires_def Let_def f_def f'_def)
  have frames: "sc_frames s' = (sc_frames s)[k := f']" by (simp add: eq)
  have "?id f' = map ?id (sc_frames s) ! k" using k by (simp add: f'_def f_def)
  then have ids: "map ?id (sc_frames s') = map ?id (sc_frames s)"
    unfolding frames map_update by (simp only: list_update_id)
  have mem: "g = f' \<or> g \<in> set (sc_frames s) \<and> ?id g \<noteq> ?id f" if "g \<in> set (sc_frames s')" for g
  proof -
    obtain j where j: "j < length (sc_frames s)" "g = (sc_frames s)[k := f'] ! j"
      using \<open>g \<in> set (sc_frames s')\<close> by (auto simp: eq in_set_conv_nth)
    show ?thesis
    proof (cases "j = k")
      case False
      then have "?id (sc_frames s ! j) \<noteq> ?id (sc_frames s ! k)"
        using nth_eq_iff_index_eq [OF dist, of j k] j(1) k by simp
      then show ?thesis using False j by (simp add: f_def)
    qed (use j k in simp)
  qed
  have views: "current s' g = current s g" "lonely s' = lonely s" "in_queue s' = in_queue s"
    "ref_id s' = ref_id s" "slot_holders fg s' = slot_holders fg s" for g fg
    by (simp_all add: fun_eq_iff current_def lonely_def in_queue_def slot_holders_def eq ref_id_def)
  have store: "sc_store s' = sc_store s" "sc_nextRef s' = sc_nextRef s"
    "sc_aborted s' = insert (fr_controller f) (sc_aborted s)" "sc_nextController s' = sc_nextController s"
    by (simp_all add: eq)
  have okf: "frame_ok {} s f" by (rule frame_okD [OF inv f])
  have cur: "?id g = ?id f" if g: "g \<in> set (sc_frames s)" "current s g" "fr_controller g = fr_controller f" for g
  proof -
    have g': "fr_ref g < sc_nextRef s" "status_at s (fr_ref g) = Running"
      "rc_controller (sc_store s (fr_ref g)) = Some (fr_controller f)"
      using frame_okD [OF inv g(1)] g(2,3) by (simp_all add: frame_ok_def)
    then have ref: "fr_ref f = fr_ref g" using owner_frame [OF own f] by simp
    have "apart_inv {} s" using inv by (simp add: inv_except_def)
    then have "current s f" by (rule apartD [OF _ f]) (use g' ref in simp_all)
    then show ?thesis using g(2) ref by (simp add: current_def)
  qed
  have A: "frame_ok {} s' g" if "g \<in> set (sc_frames s')" for g
  proof (cases "g = f'")
    case True
    have f': "fr_ref f' = fr_ref f" "fr_generation f' = fr_generation f" "fr_controller f' = fr_controller f"
      "fr_timedOut f'" "fr_work f' = fr_work f"
      by (simp_all add: f'_def)
    have "frame_ok {} s f" by (rule frame_okD [OF inv f])
    moreover have "current s f' = current s f" by (simp add: current_def f')
    ultimately show ?thesis
      unfolding True frame_ok_def views store f' using t f'(4) by (simp add: f_def)
  next
    case False
    then have g: "g \<in> set (sc_frames s)" "?id g \<noteq> ?id f" using mem [OF that] by auto
    then have "\<not> (current s g \<and> fr_controller g = fr_controller f)" using cur by blast
    then show ?thesis using frame_okD [OF inv g(1)] unfolding frame_ok_def views store by simp
  qed
  have B: "\<exists>g \<in> set (sc_frames s'). fr_ref g = r \<and> current s g"
    if r: "r < sc_nextRef s" "status_at s r = Running" for r
  proof -
    obtain g where g: "g \<in> set (sc_frames s)" "fr_ref g = r" "current s g"
      using inv r by (auto simp: inv_except_def frame_inv_def)
    have "?id g \<in> set (map ?id (sc_frames s'))" unfolding ids set_map using g(1) by (rule imageI)
    then obtain h where "h \<in> set (sc_frames s')" "?id h = ?id g" by auto
    then show ?thesis using g(2,3) by (auto simp: current_def)
  qed
  have "frame_inv {} s'"
    unfolding frame_inv_def views store ids using A B dist by blast
  moreover have "record_ok {} s' r" if r: "r < sc_nextRef s" for r
  proof -
    have ok: "record_ok {} s r" using inv r by (simp add: inv_except_def)
    have "rc_controller (sc_store s r) \<noteq> Some (fr_controller f)" if "status_at s r = Queued"
      using owner_frame [OF own f r] that by auto
    then have "status_at s r = Queued \<longrightarrow> \<not> aborted (rc_controller (sc_store s r)) s'"
      using ok by (auto simp: record_ok_def aborted_iff store)
    then show ?thesis using ok by (simp add: record_ok_def store) (simp add: eq)
  qed
  moreover have "owner_inv s'"
  proof (rule owner_invI, unfold store)
    show "x < sc_nextRef s \<Longrightarrow> y < sc_nextRef s \<Longrightarrow> rc_controller (sc_store s x) = Some d \<Longrightarrow>
        rc_controller (sc_store s y) = Some d \<Longrightarrow> x = y" for x y d
      by (rule owner_controller [OF own])
    show "x < sc_nextRef s \<Longrightarrow> y < sc_nextRef s \<Longrightarrow> rc_promise (sc_store s x) = Some d \<Longrightarrow>
        rc_promise (sc_store s y) = Some d \<Longrightarrow> x = y" for x y d
      by (rule owner_promise [OF own])
    show "x = fr_ref g \<and> status_at s x \<noteq> Queued" if g: "g \<in> set (sc_frames s')" and x: "x < sc_nextRef s"
      "rc_controller (sc_store s x) = Some (fr_controller g)" for g x
    proof (cases "g = f'")
      case True
      then have e: "fr_controller g = fr_controller f" "fr_ref g = fr_ref f" by (simp_all add: f'_def)
      show ?thesis unfolding e using owner_frame [OF own f x(1)] x(2) unfolding e by blast
    next
      case False
      then show ?thesis using mem [OF g] owner_frame [OF own _ x] by blast
    qed
  qed
  moreover have "queue_inv ckey s'"
  proof -
    have same: "same_order s s' r" for r by (simp add: same_order_def store views)
    show ?thesis
      using inv by (simp add: inv_except_def queue_inv_def sq_ok_cong [OF same] rq_ok_cong [OF same]) (simp add: eq)
  qed
  moreover have "entry_inv {} s'" using inv unfolding inv_except_def entry_inv_def views store by (simp add: eq)
  moreover have "slot_inv s'" "promise_inv s'"
    using inv by (simp_all add: inv_except_def slot_inv_def promise_inv_def views) (simp_all add: eq)
  moreover have "map_inv s'"
  proof -
    have "sc_records s' = sc_records s" by (simp add: eq)
    then show ?thesis using inv unfolding inv_except_def map_inv_def views store by metis
  qed
  moreover have "abort_inv s'"
    using inv frame_okD [OF inv f] by (simp add: inv_except_def abort_inv_def store frame_ok_def)
  moreover have "apart_inv {} s'"
  proof (rule apartI, unfold views store)
    fix g assume g: "g \<in> set (sc_frames s')" "status_at s (fr_ref g) = Running"
      "rc_controller (sc_store s (fr_ref g)) = Some (fr_controller g)"
    have apart: "apart_inv {} s" using inv by (simp add: inv_except_def)
    show "current s g"
    proof (cases "g = f'")
      case True
      have "current s f" by (rule apartD [OF apart f]) (use g(2,3) True in \<open>simp_all add: f'_def\<close>)
      then show ?thesis by (simp add: True current_def f'_def)
    next
      case False
      then have gs: "g \<in> set (sc_frames s)" using mem [OF g(1)] by simp
      show ?thesis by (rule apartD [OF apart gs _ g(2,3)]) simp
    qed
  qed
  ultimately show ?thesis unfolding inv_except_def store s'_def [symmetric] by blast
qed

section \<open>Operations on a record of the map\<close>

lemma map_record: "inv_except X ckey s \<Longrightarrow> map_of (sc_records s) i = Some r \<Longrightarrow> r < sc_nextRef s \<and> ref_id s r = i"
  unfolding inv_except_def map_inv_def by blast

lemma retire_fields [simp]:
  "sc_nextRef (retire r s) = sc_nextRef s" "rc_snapshot (sc_store (retire r s) x) = rc_snapshot (sc_store s x)"
  "sc_state (retire r s) = sc_state s" "sc_records (retire r s) = sc_records s"
  by (simp_all add: retire_def abort_def split: option.split)

lemma not_ended: "\<not> (isTerminal st \<or> st = Interrupted) \<Longrightarrow> is_active st"
  by (cases st) (simp_all add: isTerminal_def)

lemma cancel_inv: "inv_except {} ckey s \<Longrightarrow> inv_except {} ckey (snd (cancel ckey now i s))"
proof (cases "map_of (sc_records s) i")
  case (Some r)
  assume inv: "inv_except {} ckey s"
  show ?thesis
  proof (cases "isTerminal (status_at s r) \<or> status_at s r = Interrupted")
    case False
    have r: "r < sc_nextRef s" using map_record [OF inv Some] ..
    have act: "is_active (status_at s r)" using not_ended [OF False] .
    have "inv_except {} ckey (finishCancelled ckey now r (retire r s))"
      by (rule finishCancelled_inv [OF retire_inv [OF inv r act]]) (use r act in simp_all)
    then show ?thesis
      using Some False act by (simp add: cancel_def Let_def retire_def [symmetric])
  qed (use inv Some in \<open>simp add: cancel_def\<close>)
qed (simp add: cancel_def)

lemma checkpointTask_inv: "inv_except {} ckey s \<Longrightarrow> inv_except {} ckey (snd (checkpointTask now i c s))"
  by (simp add: checkpointTask_def recordCheckpoint_inv split: option.split)

lemma pauseForUser_core:
  obtains t where "pauseForUser ckey now i r s = pump ckey now t"
    "core t = core (leave r (\<lambda>n. n\<lparr>sn_status := WaitingUser, sn_error := None, sn_finishedAt := Some now\<rparr>) False
       (ResolvedWith None) (retire r s))"
  by (rule that, unfold pauseForUser_def Let_def, rule refl)
    (simp add: leave_def Let_def core_commutes retire_def)

lemma pauseForUser_inv:
  assumes inv: "inv_except {} ckey s" and r: "r < sc_nextRef s" "status_at s r = Running"
  shows "inv_except {} ckey (pauseForUser ckey now i r s)"
proof -
  obtain t where t: "pauseForUser ckey now i r s = pump ckey now t"
    "core t = core (leave r (\<lambda>n. n\<lparr>sn_status := WaitingUser, sn_error := None, sn_finishedAt := Some now\<rparr>) False
       (ResolvedWith None) (retire r s))"
    using pauseForUser_core .
  have re: "inv_except {r} ckey (retire r s)" by (rule retire_inv [OF inv]) (use r in simp_all)
  have "inv_except {} ckey (leave r (\<lambda>n. n\<lparr>sn_status := WaitingUser, sn_error := None, sn_finishedAt := Some now\<rparr>)
      False (ResolvedWith None) (retire r s))"
    by (rule leave_inv [OF re, where st = WaitingUser])
      (use r not_queued_out [OF re, of r] in \<open>simp_all add: sets_status_def\<close>)
  then show ?thesis unfolding t(1) using inv_core_eq [OF t(2)] pump_inv by blast
qed

lemma waitForUser_inv:
  assumes inv: "inv_except {} ckey s"
  shows "inv_except {} ckey (snd (waitForUser ckey now i c s))"
proof (cases "map_of (sc_records s) i")
  case (Some r)
  have r: "r < sc_nextRef s" using map_record [OF inv Some] ..
  show ?thesis
  proof (cases "status_at s r = Running")
    case True
    define p where "p = (case c of None \<Rightarrow> (True, s) | Some cp \<Rightarrow> recordCheckpoint now r cp (rc_generation (sc_store s r)) s)"
    have "inv_except {} ckey (snd p)" "sc_nextRef (snd p) = sc_nextRef s" "status_at (snd p) r = Running"
      using inv True by (simp_all add: p_def recordCheckpoint_inv recordCheckpoint_fields split: option.split)
    then have "inv_except {} ckey (pauseForUser ckey now i r (snd p))" using r by (intro pauseForUser_inv) simp_all
    then show ?thesis
      using Some True \<open>inv_except {} ckey (snd p)\<close>
      by (simp add: waitForUser_def p_def [symmetric] split: prod.split) (auto split: prod.splits)
  qed (use inv Some in \<open>simp add: waitForUser_def\<close>)
qed (use inv in \<open>simp add: waitForUser_def\<close>)

lemma interruptRecord_core:
  obtains t where "interruptRecord ckey now i r s = pump ckey now t"
    "core t = core (leave r (\<lambda>n. n\<lparr>sn_status := Interrupted,
       sn_error := Some (interruptedError default_interruption), sn_finishedAt := Some now\<rparr>) False
       (ResolvedWith None) (removeReady ckey r True (retire r s)))"
  by (rule that, unfold interruptRecord_def Let_def, rule refl)
    (simp add: leave_def Let_def core_commutes retire_def)

lemma interruptRecord_inv:
  assumes inv: "inv_except {} ckey s" and r: "r < sc_nextRef s" "is_active (status_at s r)"
  shows "inv_except {} ckey (interruptRecord ckey now i r s)"
proof -
  let ?g = "\<lambda>n. n\<lparr>sn_status := Interrupted, sn_error := Some (interruptedError default_interruption),
    sn_finishedAt := Some now\<rparr>"
  obtain t where t: "interruptRecord ckey now i r s = pump ckey now t"
    "core t = core (leave r ?g False (ResolvedWith None) (removeReady ckey r True (retire r s)))"
    using interruptRecord_core .
  have "inv_except {} ckey (leave r ?g False (ResolvedWith None) (removeReady ckey r True (retire r s)))"
    by (rule leave_removed_inv [OF retire_inv [OF inv r], where st = Interrupted])
      (use r in \<open>simp_all add: sets_status_def\<close>)
  then show ?thesis unfolding t(1) using inv_core_eq [OF t(2)] pump_inv by blast
qed

lemma interrupt_inv:
  assumes inv: "inv_except {} ckey s"
  shows "inv_except {} ckey (snd (interrupt ckey now i s))"
proof (cases "map_of (sc_records s) i")
  case (Some r)
  have r: "r < sc_nextRef s" using map_record [OF inv Some] ..
  show ?thesis
    using inv Some interruptRecord_inv [OF inv r] not_ended [of "status_at s r"]
    by (simp add: interrupt_def)
qed (use inv in \<open>simp add: interrupt_def\<close>)

lemma requeue_inv:
  assumes inv: "inv_except {} ckey s" and r: "r < sc_nextRef s" "status_at s r \<in> {Interrupted, WaitingUser}"
  shows "inv_except {} ckey (requeue ckey now i r s)"
proof -
  define t where "t = upd r (\<lambda>x. x\<lparr>rc_readyAt := now, rc_snapshot := (rc_snapshot x)\<lparr>sn_startedAt := None,
      sn_finishedAt := None, sn_error := None\<rparr>\<rparr>)
    (upd r (\<lambda>x. x\<lparr>rc_resumeFrom := sn_checkpoint (rc_snapshot x), rc_promise := Some (sc_nextPromise s),
        rc_snapshot := (rc_snapshot x)\<lparr>sn_status := Queued\<rparr>\<rparr>)
      ((newController r (upd r (rc_generation_update Suc) s))\<lparr>sc_nextPromise := sc_nextPromise s + 1\<rparr>))"
  have "record_ok {} s r" using inv r(1) by (simp add: inv_except_def)
  then have slot: "\<not> rc_slotAcquired (sc_store s r)" using r(2) by (auto simp: record_ok_def)
  have "requeues r s t" using r(2) slot by (auto simp: requeues_def t_def Let_def)
  then have "inv_except {} ckey (arm ckey now r t')" if "core t' = core t" for t'
    by (intro arm_requeued_inv [OF inv r(1) _ _ that]) (use r(2) in simp_all)
  then show ?thesis
    unfolding requeue_def Let_def by (simp add: t_def core_commutes)
qed

lemma resume_inv:
  assumes inv: "inv_except {} ckey s"
  shows "inv_except {} ckey (snd (resume ckey now i c s))"
proof (cases "map_of (sc_records s) i")
  case (Some r)
  have r: "r < sc_nextRef s" using map_record [OF inv Some] ..
  have "inv_except {} ckey (requeue ckey now i r (upd r (on_snapshot (\<lambda>m. m\<lparr>sn_checkpoint := n\<rparr>)) s))"
    if "status_at s r \<in> {Interrupted, WaitingUser}" for n
    by (rule requeue_inv [OF set_checkpoint_inv [OF inv]]) (use r that in simp_all)
  then show ?thesis
    using inv Some requeue_inv [OF inv r]
    by (auto simp: resume_def Let_def split: option.split)
qed (use inv in \<open>simp add: resume_def\<close>)

section \<open>New records\<close>

definition entering :: "snapshot \<Rightarrow> settled \<Rightarrow> sched \<Rightarrow> sched" where
  "entering sn v s = (if sn_status sn = Queued then s else settle (Some (sc_nextPromise s)) v s)"

lemma entering_fields [simp]:
  "sc_store (entering sn v s) = sc_store s" "sc_nextRef (entering sn v s) = sc_nextRef s"
  "sc_records (entering sn v s) = sc_records s" "sc_nextController (entering sn v s) = sc_nextController s"
  "sc_nextPromise (entering sn v s) = sc_nextPromise s" "sc_frames (entering sn v s) = sc_frames s"
  "sc_aborted (entering sn v s) = sc_aborted s" "sc_foregroundReady (entering sn v s) = sc_foregroundReady s"
  "sc_backgroundReady (entering sn v s) = sc_backgroundReady s" "sc_delayedReady (entering sn v s) = sc_delayedReady s"
  "sc_runningForeground (entering sn v s) = sc_runningForeground s"
  "sc_runningBackground (entering sn v s) = sc_runningBackground s"
  "sc_maxForeground (entering sn v s) = sc_maxForeground s" "sc_maxBackground (entering sn v s) = sc_maxBackground s"
  "sc_settled (entering sn v s) = (if sn_status sn = Queued then sc_settled s
     else sc_settled s @ [(sc_nextPromise s, v)])"
  by (simp_all add: entering_def)

lemma allocate_inv:
  assumes inv: "inv_except {} ckey s" and sn: "sn_id sn = i" "sn_status sn \<in> {Queued, Interrupted, WaitingUser}"
    and n_def: "n = sc_nextRef s"
    and s'_def: "s' = snd (allocate i (newRecord w sn a ra rf (entering sn v s)) (entering sn v s))"
  shows "inv_except (if sn_status sn = Queued then {n} else {}) ckey s' \<and>
    (sn_status sn = Queued \<longrightarrow> live_queued s' n) \<and> sc_nextRef s' = n + 1"
proof -
  let ?X = "if sn_status sn = Queued then {n} else {}"
  have rok: "record_ok {} s r" if "r < n" for r using inv that by (simp add: inv_except_def n_def)
  have old: "sc_store s' r = sc_store s r" if "r \<noteq> n" for r using that by (simp add: s'_def allocate_def Let_def n_def)
  have new: "rc_snapshot (sc_store s' n) = sn" "rc_work (sc_store s' n) = Some w"
    "rc_controller (sc_store s' n) = Some (sc_nextController s)" "rc_promise (sc_store s' n) = Some (sc_nextPromise s)"
    "\<not> rc_slotAcquired (sc_store s' n)"
    by (simp_all add: s'_def allocate_def Let_def n_def newRecord_def)
  have fields: "sc_nextRef s' = n + 1" "sc_records s' = AList.update i n (sc_records s)"
    "sc_nextController s' = sc_nextController s + 1" "sc_nextPromise s' = sc_nextPromise s + 1"
    "sc_frames s' = sc_frames s" "sc_aborted s' = sc_aborted s" "sc_foregroundReady s' = sc_foregroundReady s"
    "sc_backgroundReady s' = sc_backgroundReady s" "sc_delayedReady s' = sc_delayedReady s"
    "sc_runningForeground s' = sc_runningForeground s" "sc_runningBackground s' = sc_runningBackground s"
    "sc_maxForeground s' = sc_maxForeground s" "sc_maxBackground s' = sc_maxBackground s"
    "sc_settled s' = (if sn_status sn = Queued then sc_settled s else sc_settled s @ [(sc_nextPromise s, v)])"
    by (simp_all add: s'_def allocate_def Let_def n_def)
  have settled: "settled_ids s' = (if sn_status sn = Queued then {} else {sc_nextPromise s}) \<union> settled_ids s"
    by (simp add: fields)
  have fref: "fr_ref f < n" if "f \<in> set (sc_frames s)" for f
    using frame_okD [OF inv that] by (simp add: frame_ok_def n_def)
  have iq: "in_queue s' = in_queue s" by (simp add: fun_eq_iff in_queue_def fields)
  have qref: "r < n" if "in_queue s r" for r using inv that by (simp add: inv_except_def entry_inv_def n_def)
  have same: "same_order s s' r" if "in_queue s r" for r
    using old [of r] qref [OF that] by (simp add: same_order_def ref_id_def)
  have ids: "ref_id s' r = (if r = n then i else ref_id s r)" for r
    using old [of r] new(1) sn(1) by (simp add: ref_id_def)
  have cur: "current s' f = current s f" if "f \<in> set (sc_frames s)" for f
    using fref [OF that] old [of "fr_ref f"] by (simp add: current_def)
  have p_unsettled: "p < sc_nextPromise s" if "p \<in> settled_ids s" for p
    using inv that unfolding inv_except_def promise_inv_def by blast
  have "queue_inv ckey s'"
    using inv same unfolding inv_except_def queue_inv_def fields in_queue_def
    by (metis (no_types, lifting) sq_ok_cong rq_ok_cong)
  moreover have "entry_inv ?X s'"
    unfolding entry_inv_def iq
  proof (intro conjI allI impI ballI)
    fix r assume r: "r < sc_nextRef s'" "status_at s' r = Queued \<and> r \<notin> ?X \<and> lonely s' r"
    then have ne: "r \<noteq> n" using new(1) by (auto split: if_splits)
    then have "r < n" using r(1) by (simp add: fields)
    moreover have "lonely s r"
      unfolding lonely_def
    proof (intro allI impI)
      fix x assume x: "x < sc_nextRef s" "ref_id s x = ref_id s r"
      then have "x < sc_nextRef s'" "ref_id s' x = ref_id s' r" using ne ids by (simp_all add: fields n_def)
      then show "x = r" using r(2) unfolding lonely_def by blast
    qed
    ultimately show "in_queue s r"
      using inv r(2) old [OF ne] by (simp add: inv_except_def entry_inv_def n_def)
  next
    fix r assume "in_queue s r"
    then show "r < sc_nextRef s'" "status_at s' r = Queued"
      using inv qref [of r] old [of r] by (simp_all add: fields inv_except_def entry_inv_def)
  next
    fix r assume r: "r \<in> entries_of (sc_foregroundReady s')"
    then have "in_queue s r" by (simp add: in_queue_def fields)
    then show "isForegroundMode (sn_mode (snap s' r))"
      using inv r qref [of r] old [of r] by (simp add: fields inv_except_def entry_inv_def)
  next
    fix r assume r: "r \<in> entries_of (sc_backgroundReady s')"
    then have "in_queue s r" by (simp add: in_queue_def fields)
    then show "\<not> isForegroundMode (sn_mode (snap s' r))"
      using inv r qref [of r] old [of r] by (simp add: fields inv_except_def entry_inv_def)
  next
    fix r assume r: "r \<in> entries_of (sc_delayedReady s')"
    then show "r \<notin> entries_of (sc_foregroundReady s')" "r \<notin> entries_of (sc_backgroundReady s')"
      using inv by (simp_all add: fields inv_except_def entry_inv_def)
  qed
  moreover have "record_ok ?X s' r" if r: "r < n + 1" for r
  proof (cases "r = n")
    case True
    have "sc_nextPromise s \<notin> settled_ids s" using p_unsettled by blast
    then show ?thesis using new sn(2) unfolding True record_ok_def settled fields by auto
  next
    case False
    then show ?thesis
      using r by (intro record_ok_mono [OF rok old]) (auto simp: fields split: if_splits)
  qed
  moreover have "owner_inv s'"
  proof -
    have own: "owner_inv s" using inv by (simp add: inv_except_def)
    have c: "rc_controller (sc_store s' r) = Some c \<Longrightarrow>
        if r = n then c = sc_nextController s else r < sc_nextRef s \<and> rc_controller (sc_store s r) = Some c \<and> c < sc_nextController s"
      if "r < n + 1" for r c
      using new(3) old [of r] rok [of r] that by (cases "r = n") (simp_all add: record_ok_def n_def)
    have p: "rc_promise (sc_store s' r) = Some c \<Longrightarrow>
        if r = n then c = sc_nextPromise s else r < sc_nextRef s \<and> rc_promise (sc_store s r) = Some c \<and> c < sc_nextPromise s"
      if "r < n + 1" for r c
      using new(4) old [of r] rok [of r] that by (cases "r = n") (simp_all add: record_ok_def n_def)
    show ?thesis
    proof (rule owner_invI, unfold fields)
      show "x = y" if "x < n + 1" "y < n + 1" "rc_controller (sc_store s' x) = Some d"
        "rc_controller (sc_store s' y) = Some d" for x y d
        using c [OF that(1,3)] c [OF that(2,4)] owner_controller [OF own, of x y d] by (auto split: if_splits)
      show "x = y" if "x < n + 1" "y < n + 1" "rc_promise (sc_store s' x) = Some d"
        "rc_promise (sc_store s' y) = Some d" for x y d
        using p [OF that(1,3)] p [OF that(2,4)] owner_promise [OF own, of x y d] by (auto split: if_splits)
      show "x = fr_ref f \<and> status_at s' x \<noteq> Queued"
        if f: "f \<in> set (sc_frames s)" and x: "x < n + 1" "rc_controller (sc_store s' x) = Some (fr_controller f)"
        for f x
        using c [OF x] frame_okD [OF inv f] owner_frame [OF own f, of x] old [of x]
        by (auto simp: frame_ok_def split: if_splits)
    qed
  qed
  moreover have "frame_inv ?X s'"
  proof -
    have A: "frame_ok ?X s' f" if f: "f \<in> set (sc_frames s)" for f
      using frame_okD [OF inv f] fref [OF f] old [of "fr_ref f"] cur [OF f]
      by (auto simp: frame_ok_def fields n_def)
    have B: "\<exists>f \<in> set (sc_frames s). fr_ref f = r \<and> current s' f" if r: "r < n + 1" "status_at s' r = Running" for r
    proof -
      have "r \<noteq> n" using r(2) new(1) sn(2) by auto
      then have "r < n" "status_at s r = Running" using r old by simp_all
      then obtain f where "f \<in> set (sc_frames s)" "fr_ref f = r" "current s f"
        using inv by (auto simp: inv_except_def frame_inv_def n_def)
      then show ?thesis using cur by blast
    qed
    have "distinct (map (\<lambda>f. (fr_ref f, fr_generation f)) (sc_frames s))"
      using inv by (simp add: inv_except_def frame_inv_def)
    then show ?thesis unfolding frame_inv_def fields using A B by blast
  qed
  moreover have "slot_inv s'"
  proof -
    have "slot_holders fg s' = slot_holders fg s" for fg
    proof -
      have "r \<in> slot_holders fg s' \<longleftrightarrow> r \<in> slot_holders fg s" for r
        using new(5) old [of r] by (cases "r = n") (auto simp: slot_holders_def fields n_def)
      then show ?thesis by blast
    qed
    then show ?thesis using inv by (simp add: inv_except_def slot_inv_def fields)
  qed
  moreover have "promise_inv s'"
  proof -
    have pi: "promise_inv s" using inv by (simp add: inv_except_def)
    have "sc_nextPromise s \<notin> settled_ids s" using p_unsettled by blast
    then have d: "distinct (map fst (sc_settled s'))" using pi by (simp add: promise_inv_def fields)
    have le: "p < sc_nextPromise s'" if "p \<in> settled_ids s'" for p
    proof (cases "p \<in> settled_ids s")
      case True
      then show ?thesis using p_unsettled [of p] by (simp add: fields(4))
    next
      case False
      then show ?thesis using that unfolding settled by (simp add: fields(4) split: if_splits)
    qed
    have "\<exists>r < n + 1. rc_promise (sc_store s' r) = Some p \<and> is_active (status_at s' r)"
      if p: "p < sc_nextPromise s'" "p \<notin> settled_ids s'" for p
    proof (cases "p = sc_nextPromise s")
      case True
      then have "sn_status sn = Queued" using p(2) settled by (auto split: if_splits)
      then show ?thesis using True new by auto
    next
      case False
      then have "p < sc_nextPromise s" "p \<notin> settled_ids s" using p by (auto simp: settled fields)
      then obtain r where r: "r < n" "rc_promise (sc_store s r) = Some p" "is_active (status_at s r)"
        using pi unfolding promise_inv_def n_def by blast
      then show ?thesis using old [of r] by (intro exI [of _ r]) simp
    qed
    then show ?thesis using d le unfolding promise_inv_def fields(1) by blast
  qed
  moreover have "map_inv s'"
  proof -
    have mi: "map_inv s" using inv by (simp add: inv_except_def)
    have mo: "map_of (sc_records s') = (map_of (sc_records s))(i \<mapsto> n)" by (simp add: fields update_conv')
    have "distinct (map fst (sc_records s'))"
      using mi by (simp add: map_inv_def fields distinct_update)
    moreover have "r < n + 1 \<and> ref_id s' r = j" if "map_of (sc_records s') j = Some r" for j r
    proof (cases "j = i")
      case True
      then show ?thesis using that ids by (simp add: mo)
    next
      case False
      then have "map_of (sc_records s) j = Some r" using that by (simp add: mo)
      then have "r < n" "ref_id s r = j" using mi unfolding map_inv_def n_def by blast+
      then show ?thesis using ids by simp
    qed
    moreover have "map_of (sc_records s') (ref_id s' r) \<noteq> None" if "r < n + 1" for r
      using that mi ids [of r] unfolding mo map_inv_def n_def by (auto simp: less_Suc_eq)
    ultimately show ?thesis unfolding map_inv_def fields(1) by blast
  qed
  moreover have "abort_inv s'" using inv by (auto simp: inv_except_def abort_inv_def fields)
  moreover have "apart_inv ?X s'"
  proof (rule apartI, unfold fields)
    fix f assume f: "f \<in> set (sc_frames s)" "status_at s' (fr_ref f) = Running"
      "rc_controller (sc_store s' (fr_ref f)) = Some (fr_controller f)"
    have apart: "apart_inv {} s" using inv by (simp add: inv_except_def)
    have "current s f"
      by (rule apartD [OF apart f(1)]) (use f old [of "fr_ref f"] fref [OF f(1)] in simp_all)
    then show "current s' f" using cur [OF f(1)] by simp
  qed
  moreover have "sn_status sn = Queued \<longrightarrow> live_queued s' n"
    using inv new(1,3) by (auto simp: live_queued_def aborted_iff inv_except_def abort_inv_def fields)
  ultimately show ?thesis unfolding inv_except_def fields(1) by blast
qed

lemma schedule_inv:
  assumes inv: "inv_except {} ckey s"
  shows "inv_except {} ckey (snd (schedule ckey now w s))"
proof -
  obtain d s1 where d: "findDuplicate (wk_dedupeKey w) s = (d, s1)" by fastforce
  then have c1: "core s1 = core s" using core_neutral(8) [of "wk_dedupeKey w" s] by simp
  then have i1: "inv_except {} ckey s1" using inv inv_core_eq by blast
  define sn where "sn = \<lparr>sn_id = wk_id w, sn_mode = wk_mode w, sn_status = Queued, sn_startedAt = None,
    sn_finishedAt = None, sn_error = None, sn_progress = None, sn_attempts = None, sn_checkpoint = None\<rparr>"
  have i2: "inv_except {} ckey (wake s1)" using i1 inv_core_eq [of "wake s1" s1] by simp
  define s3 where "s3 = snd (allocate (wk_id w) (newRecord w sn 0 (now + debounce w) None (wake s1)) (wake s1))"
  define r where "r = sc_nextRef (wake s1)"
  have a: "allocate (wk_id w) (newRecord w sn 0 (now + debounce w) None (wake s1)) (wake s1) = (r, s3)"
    by (simp add: s3_def allocate_def Let_def r_def)
  have "entering sn v (wake s1) = wake s1" for v by (simp add: entering_def sn_def)
  then have "inv_except {r} ckey s3 \<and> live_queued s3 r \<and> sc_nextRef s3 = r + 1"
    using allocate_inv [OF i2, of sn "wk_id w" r s3] by (simp add: sn_def r_def s3_def)
  then have "inv_except {} ckey (arm ckey now r t)" if "core t = core s3" for t
    using core_eq_fields(2) [OF that] inv_core_eq [OF that] core_views(5) [of t] core_views(5) [of s3] that
    by (intro arm_inv) simp_all
  then have "inv_except {} ckey (arm ckey now r (emit EQueued (wk_id w) (emit ECreated (wk_id w)
      (persist r (registerDedupe r s3)))))" by simp
  then show ?thesis
    using inv i1 d a by (simp add: schedule_def Let_def sn_def [symmetric] split: option.split)
qed

lemma restore_inv:
  assumes inv: "inv_except {} ckey s"
  shows "inv_except {} ckey (snd (restore ckey now w loaded s))"
proof (cases "\<exists>stored. loaded = Some stored \<and> ts_id stored = wk_id w \<and> sn_id (ts_snapshot stored) = wk_id w \<and>
    ts_mode stored = wk_mode w \<and> sn_mode (ts_snapshot stored) = wk_mode w \<and>
    ts_status stored \<notin> {Completed, Failed, Cancelled}")
  case False
  then show ?thesis using inv by (auto simp: restore_def split: option.split)
next
  case True
  then obtain stored where st: "loaded = Some stored" "ts_id stored = wk_id w" "sn_id (ts_snapshot stored) = wk_id w"
    "ts_mode stored = wk_mode w" "sn_mode (ts_snapshot stored) = wk_mode w"
    "ts_status stored \<notin> {Completed, Failed, Cancelled}" by blast
  define sn where "sn = restoredSnapshot now stored"
  have sn: "sn_id sn = wk_id w" "sn_status sn \<in> {Queued, Interrupted, WaitingUser}"
    using st(3,6) by (cases "ts_status stored"; simp add: sn_def restoredSnapshot_def Let_def)+
  define s1 where "s1 = entering sn (ResolvedWith None) s"
  have s1: "(if sn_status sn = Interrupted \<or> sn_status sn = WaitingUser
      then settle (Some (sc_nextPromise s)) (ResolvedWith None) s else s) = s1"
    using sn(2) by (auto simp: s1_def entering_def)
  define x where "x = newRecord w sn (max 0 (ts_attempts stored)) (case ts_readyAt stored of None \<Rightarrow> now | Some t \<Rightarrow> t)
    (if sn_status sn = Queued then sn_checkpoint sn else None) s1"
  define s2 where "s2 = snd (allocate (wk_id w) x s1)"
  define r where "r = sc_nextRef s"
  have a: "allocate (wk_id w) x s1 = (r, s2)" by (simp add: s2_def allocate_def Let_def r_def s1_def)
  have new: "inv_except (if sn_status sn = Queued then {r} else {}) ckey s2 \<and>
      (sn_status sn = Queued \<longrightarrow> live_queued s2 r) \<and> sc_nextRef s2 = r + 1"
    by (rule allocate_inv [OF inv sn]) (simp_all add: r_def s2_def x_def s1_def)
  have "inv_except {} ckey (arm ckey now r t)" if "core t = core s2" "sn_status sn = Queued" for t
    using new that core_eq_fields(2) [OF that(1)] inv_core_eq [OF that(1)] core_views(5) [of t] core_views(5) [of s2]
    by (intro arm_inv) simp_all
  moreover have "inv_except {} ckey t" if "core t = core s2" "sn_status sn \<noteq> Queued" for t
    using new that inv_core_eq [OF that(1)] by simp
  moreover have "snd (restore ckey now w loaded s) =
      (let s3 = wake (registerDedupe r s2) in
       if sn_status sn = Queued then arm ckey now r (emit EQueued (wk_id w) s3)
       else if ts_status stored = Running then persist r s3 else s3)"
    unfolding restore_def st(1) option.case sn_def [symmetric] s1 Let_def x_def [symmetric] a
    using st by simp
  ultimately show ?thesis by (simp add: Let_def)
qed

lemma rehydrateEnd_inv: "inv_except {} ckey s \<Longrightarrow> inv_except {} ckey (snd (rehydrateEnd ckey now k loaded s))"
  unfolding rehydrateEnd_def by (rule restore_inv) (simp add: inv_core_eq [OF core_neutral(13)])

lemma rehydrateBegin_inv: "inv_except {} ckey s \<Longrightarrow> inv_except {} ckey (snd (rehydrateBegin w s))"
  by (simp add: rehydrateBegin_def inv_core_eq [OF core_neutral(13)] split: sum.split)

lemma stop_fold_inv: "inv_except {} ckey t \<Longrightarrow> inv_except {} ckey (fold (\<lambda>(i, r) s.
    if \<not> isTerminal (sn_status (snap s r)) \<and> sn_status (snap s r) \<noteq> Interrupted
    then snd (interrupt ckey now (ref_id s r) s) else s) rs t)"
  by (induction rs arbitrary: t) (auto simp: interrupt_inv)

lemma stopBegin_inv:
  assumes inv: "inv_except {} ckey s"
  shows "inv_except {} ckey (snd (stopBegin ckey now s))"
proof (cases "sc_state s = Stopped")
  case False
  have "inv_except {} ckey (s\<lparr>sc_state := Stopping\<rparr>)" using inv by (simp add: inv_core_eq [OF core_neutral(10)])
  from stop_fold_inv [OF this] show ?thesis unfolding stopBegin_def Let_def using False by (simp only: if_False snd_conv)
qed (use inv in \<open>simp add: stopBegin_def\<close>)

section \<open>Reachable schedulers\<close>

lemma start_op_inv: "inv_except {} ckey s \<Longrightarrow> inv_except {} ckey (snd (start ckey now s))"
  by (simp add: start_def pump_inv inv_core_eq [OF core_neutral(10)])

lemma sched_step_inv: "sched_step ckey s s' \<Longrightarrow> inv_except {} ckey s \<Longrightarrow> inv_except {} ckey s'"
proof (induction rule: sched_step.induct)
  case (step_readyTimer s now)
  then have "inv_except {} ckey (promoteReady ckey now (s\<lparr>sc_readyTimer := None\<rparr>))"
    by (intro promoteReady_inv) (simp add: inv_core_eq [OF core_neutral(12)])
  then show ?case by (simp add: readyTimerFires_def inv_core_eq [OF core_neutral(6)])
next
  case (step_pumpTask s now)
  then show ?case by (simp add: pumpTask_def pump_inv inv_core_eq [OF core_neutral(11)])
qed (simp_all add: start_op_inv schedule_inv cancel_inv checkpointTask_inv waitForUser_inv interrupt_inv resume_inv
    rehydrateBegin_inv rehydrateEnd_inv stopBegin_inv stopEnd_def inv_core_eq [OF core_neutral(10)]
    reportProgress_inv recordCheckpoint_inv timeoutFires_inv endExecution_inv)

lemma newScheduler_inv: "inv_except {} ckey (newScheduler mf mb p)"
  by (simp add: inv_except_def newScheduler_def queue_inv_def scheduled_order.newQueue_ok ready_order.newQueue_ok
      entry_inv_def in_queue_def owner_inv_def frame_inv_def slot_inv_def slot_holders_def promise_inv_def map_inv_def
      abort_inv_def apart_inv_def newQueue_def [symmetric])
    (simp add: newQueue_def le_max_iff_disj)

lemma sched_reach_inv: "sched_reach ckey s \<Longrightarrow> sched_inv ckey s"
proof -
  assume "sched_reach ckey s"
  then obtain mf mb p where "(sched_step ckey)\<^sup>*\<^sup>* (newScheduler mf mb p) s" by (auto simp: sched_reach_def)
  then have "inv_except {} ckey s"
    by (induction rule: rtranclp_induct) (simp_all add: newScheduler_inv sched_step_inv)
  then show ?thesis by (simp add: sched_inv_def)
qed

end
