(* ===== verification/SchedulerProperties.thy ===== *)
theory SchedulerProperties
  imports SchedulerProofs
begin

text \<open>
  What clients of the task scheduler rely on, for every scheduler that can be reached: bounds on
  running tasks, promises, executions, the order of the ready queues, final states and shutdown.
\<close>

section \<open>The ready queue as a priority queue\<close>

text \<open>
  C30: On every well-formed ready queue of the scheduler, pushing adds a record whose id is new and
  changes nothing otherwise, popping removes exactly the record it returns, which no entry precedes in the
  order of priority and id, and removing an id removes exactly the records with that id; all keep the heap.
\<close>

theorem ready_queue_refines:
  assumes "sq_ok ckey s q"
  shows "sq_ok ckey s (pq_push (ref_id s) (scheduled_cmp ckey s) r q) \<and>
    mset (pq_entries (pq_push (ref_id s) (scheduled_cmp ckey s) r q)) =
      (if ref_id s r \<in> ref_id s ` set (pq_entries q) then mset (pq_entries q)
       else add_mset r (mset (pq_entries q))) \<and>
    (case pq_pop (ref_id s) (scheduled_cmp ckey s) q of
      (None, q') \<Rightarrow> pq_entries q = [] \<and> q' = q
    | (Some x, q') \<Rightarrow> sq_ok ckey s q' \<and> add_mset x (mset (pq_entries q')) = mset (pq_entries q) \<and>
        (\<forall>y \<in> set (pq_entries q). scheduled_cmp ckey s x y \<le> 0)) \<and>
    sq_ok ckey s (snd (pq_remove (ref_id s) (scheduled_cmp ckey s) i q)) \<and>
    mset (pq_entries (snd (pq_remove (ref_id s) (scheduled_cmp ckey s) i q))) =
      filter_mset (\<lambda>x. ref_id s x \<noteq> i) (mset (pq_entries q))"
proof -
  have "case pq_pop (ref_id s) (scheduled_cmp ckey s) q of
      (None, q') \<Rightarrow> pq_entries q = [] \<and> q' = q
    | (Some x, q') \<Rightarrow> sq_ok ckey s q' \<and> add_mset x (mset (pq_entries q')) = mset (pq_entries q) \<and>
        (\<forall>y \<in> set (pq_entries q). scheduled_cmp ckey s x y \<le> 0)"
  proof (cases "pq_peek q")
    case None
    then have "pq_entries q = []" by (simp add: pq_peek_def split: list.splits)
    then show ?thesis by (simp add: pq_pop_def removeAt_def)
  next
    case (Some x)
    obtain q' where "pq_pop (ref_id s) (scheduled_cmp ckey s) q = (Some x, q')" "sq_ok ckey s q'"
      "add_mset x (mset (pq_entries q')) = mset (pq_entries q)"
      using scheduled_order.pq_pop_ok [OF assms Some] by blast
    then show ?thesis using scheduled_order.pq_peek_least [OF assms Some] by simp
  qed
  then show ?thesis
    using scheduled_order.pq_push_ok [OF assms, of r] scheduled_order.pq_remove_ok [OF assms, of i] by blast
qed

theorem ready_queue_refines_witness:
  "sq_ok (\<lambda>_. []) (newScheduler None None False) newQueue \<and>
   mset (pq_entries (pq_push (ref_id (newScheduler None None False))
      (scheduled_cmp (\<lambda>_. []) (newScheduler None None False)) 3 newQueue)) = {#3#}"
proof -
  have ok: "sq_ok (\<lambda>_. []) (newScheduler None None False) newQueue" by (rule scheduled_order.newQueue_ok)
  show ?thesis
    using ok ready_queue_refines [OF ok, of 3 "[]"] by (simp add: newQueue_def)
qed

section \<open>Bounds, promises and executions\<close>

text \<open>
  C6: In every reachable scheduler the two counters are exactly the numbers of running tasks of their
  kind, and neither exceeds the limit of its kind, which is at least one.
\<close>

theorem running_tasks_bounded:
  assumes "sched_reach ckey s"
  shows "sc_runningForeground s =
      int (card {r. r < sc_nextRef s \<and> sn_status (snap s r) = Running \<and> isForegroundMode (sn_mode (snap s r))}) \<and>
    sc_runningBackground s =
      int (card {r. r < sc_nextRef s \<and> sn_status (snap s r) = Running \<and> \<not> isForegroundMode (sn_mode (snap s r))}) \<and>
    sc_runningForeground s \<le> sc_maxForeground s \<and> sc_runningBackground s \<le> sc_maxBackground s"
proof -
  have inv: "inv_except {} ckey s" using sched_reach_inv [OF assms] by (simp add: sched_inv_def)
  have slot: "rc_slotAcquired (sc_store s r) \<longleftrightarrow> sn_status (snap s r) = Running" if "r < sc_nextRef s" for r
    using inv that by (simp add: inv_except_def record_ok_def)
  have "slot_holders fg s =
      {r. r < sc_nextRef s \<and> sn_status (snap s r) = Running \<and> isForegroundMode (sn_mode (snap s r)) = fg}" for fg
    using slot by (auto simp: slot_holders_def)
  from this [of True] this [of False] show ?thesis using inv by (simp add: inv_except_def slot_inv_def)
qed

lemma new_reach: "sched_reach ckey (newScheduler mf mb p)"
  by (auto simp: sched_reach_def)

theorem running_tasks_bounded_witness:
  "sched_reach (\<lambda>_. []) (newScheduler (Some 0) None True) \<and>
   sc_runningForeground (newScheduler (Some 0) None True) \<le> 1"
  using running_tasks_bounded [OF new_reach [of "\<lambda>_. []" "Some 0" None True]] new_reach [of "\<lambda>_. []" "Some 0" None True]
  by (simp add: newScheduler_def)

text \<open>
  C4: In every reachable scheduler no promise is settled twice, and a promise that was handed out is
  not settled exactly while some task that it belongs to is queued or running.
\<close>

theorem promises_settled_once:
  assumes "sched_reach ckey s"
  shows "distinct (map fst (sc_settled s)) \<and>
    (\<forall>p < sc_nextPromise s. p \<notin> fst ` set (sc_settled s) \<longleftrightarrow>
       (\<exists>r < sc_nextRef s. rc_promise (sc_store s r) = Some p \<and>
          (sn_status (snap s r) = Queued \<or> sn_status (snap s r) = Running)))"
proof -
  have inv: "inv_except {} ckey s" using sched_reach_inv [OF assms] by (simp add: sched_inv_def)
  then have pi: "promise_inv s" by (simp add: inv_except_def)
  have "p \<notin> settled_ids s" if "r < sc_nextRef s" "rc_promise (sc_store s r) = Some p" "is_active (status_at s r)" for r p
    using inv that by (simp add: inv_except_def record_ok_def)
  then show ?thesis using pi unfolding promise_inv_def by blast
qed

theorem promises_settled_once_witness:
  "sched_reach (\<lambda>_. []) (newScheduler None None True) \<and>
   distinct (map fst (sc_settled (newScheduler None None True)))"
  using promises_settled_once [OF new_reach [of "\<lambda>_. []" None None True]] new_reach [of "\<lambda>_. []" None None True] by blast

text \<open>
  C24: In every reachable scheduler a task is running exactly when it has an execution of its current
  generation, and then it has one only; an execution of an older generation holds no controller of a
  running task.
\<close>

theorem one_current_execution:
  assumes "sched_reach ckey s" "r < sc_nextRef s"
  shows "(sn_status (snap s r) = Running \<longleftrightarrow>
      (\<exists>!k. k < length (sc_frames s) \<and> fr_ref (sc_frames s ! k) = r \<and> current s (sc_frames s ! k))) \<and>
    (\<forall>f \<in> set (sc_frames s). \<not> current s f \<longrightarrow> sn_status (snap s r) = Running \<longrightarrow>
      rc_controller (sc_store s r) \<noteq> Some (fr_controller f))"
proof -
  have inv: "inv_except {} ckey s" using sched_reach_inv [OF assms(1)] by (simp add: sched_inv_def)
  have dist: "distinct (map (\<lambda>f. (fr_ref f, fr_generation f)) (sc_frames s))"
    using inv by (simp add: inv_except_def frame_inv_def)
  have uniq: "j = k" if "j < length (sc_frames s)" "k < length (sc_frames s)"
    "fr_ref (sc_frames s ! j) = r" "current s (sc_frames s ! j)"
    "fr_ref (sc_frames s ! k) = r" "current s (sc_frames s ! k)" for j k
    using nth_eq_iff_index_eq [OF dist, of j k] that by (simp add: current_def)
  have run: "sn_status (snap s r) = Running" if "f \<in> set (sc_frames s)" "fr_ref f = r" "current s f" for f
    using frame_okD [OF inv that(1)] that(2,3) by (simp add: frame_ok_def)
  have "\<exists>k. k < length (sc_frames s) \<and> fr_ref (sc_frames s ! k) = r \<and> current s (sc_frames s ! k)"
    if run': "sn_status (snap s r) = Running"
  proof -
    obtain f where "f \<in> set (sc_frames s)" "fr_ref f = r" "current s f"
      using inv assms(2) run' unfolding inv_except_def frame_inv_def by blast
    then show ?thesis by (metis in_set_conv_nth)
  qed
  then have "sn_status (snap s r) = Running \<longleftrightarrow>
      (\<exists>!k. k < length (sc_frames s) \<and> fr_ref (sc_frames s ! k) = r \<and> current s (sc_frames s ! k))"
    using uniq run nth_mem by blast
  moreover have "rc_controller (sc_store s r) \<noteq> Some (fr_controller f)"
    if f: "f \<in> set (sc_frames s)" "\<not> current s f" "sn_status (snap s r) = Running" for f
  proof
    assume c: "rc_controller (sc_store s r) = Some (fr_controller f)"
    have own: "owner_inv s" and apart: "apart_inv {} s" using inv by (simp_all add: inv_except_def)
    have "r = fr_ref f" using owner_frame [OF own f(1) assms(2) c] by simp
    then show False using apartD [OF apart f(1)] f(2,3) c by simp
  qed
  ultimately show ?thesis by blast
qed

theorem one_current_execution_witness:
  "\<exists>s. sched_reach (\<lambda>_. []) s \<and> 0 < sc_nextRef s \<and>
     (sn_status (snap s 0) = Running \<longleftrightarrow>
       (\<exists>!k. k < length (sc_frames s) \<and> fr_ref (sc_frames s ! k) = 0 \<and> current s (sc_frames s ! k)))"
proof -
  let ?w = "\<lparr>wk_id = [97], wk_mode = Foreground, wk_priority = None, wk_dedupeKey = None, wk_debounceMs = None,
    wk_timeoutMs = None, wk_maxAttempts = None, wk_retryDelayMs = None\<rparr> :: work"
  let ?t = "\<lparr>ts_id = [97], ts_mode = Foreground, ts_status = Interrupted, ts_snapshot = \<lparr>sn_id = [97], sn_mode = Foreground,
    sn_status = Interrupted, sn_startedAt = None, sn_finishedAt = None, sn_error = None, sn_progress = None,
    sn_attempts = None, sn_checkpoint = None\<rparr>, ts_attempts = 0, ts_readyAt = None\<rparr> :: task_state"
  let ?a = "snd (rehydrateBegin ?w (newScheduler None None True))"
  let ?s = "snd (rehydrateEnd (\<lambda>_. []) 0 0 (Some ?t) ?a)"
  have a: "?a = (newScheduler None None True)\<lparr>sc_loads := [?w]\<rparr>"
    by (simp add: rehydrateBegin_def rehydrateCheck_def newScheduler_def is_closing_def js_trim_def js_space_def)
  have "sched_step (\<lambda>_. []) (newScheduler None None True) ?a" by (rule step_rehydrateBegin)
  moreover have "sched_step (\<lambda>_. []) ?a ?s" by (rule step_rehydrateEnd) (simp add: a)
  ultimately have reach: "sched_reach (\<lambda>_. []) ?s"
    unfolding sched_reach_def by (meson rtranclp.rtrancl_into_rtrancl rtranclp.rtrancl_refl)
  have n: "0 < sc_nextRef ?s"
    unfolding a rehydrateEnd_def
    by (simp add: restore_def restoredSnapshot_def Let_def allocate_def newScheduler_def)
  show ?thesis using one_current_execution [OF reach n] reach n by blast
qed

end
