(* ===== verification/JsText.thy ===== *)
theory JsText
  imports Utf8
begin

text \<open>
  The string operations of the language that the editor and the RPC transports use: \<open>slice\<close>,
  \<open>split\<close> and \<open>join\<close>, on lists of UTF-16 code units.
\<close>

text \<open>\<open>String.prototype.slice\<close>: negative indices count from the end, others stop at the end.\<close>

definition slice_index :: "nat \<Rightarrow> int \<Rightarrow> nat" where
  "slice_index n i = (if i < 0 then nat (max 0 (int n + i)) else min (nat i) n)"

definition js_slice :: "int \<Rightarrow> int \<Rightarrow> jstring \<Rightarrow> jstring" where
  "js_slice a b s = drop (slice_index (length s) a) (take (slice_index (length s) b) s)"

definition js_slice_from :: "int \<Rightarrow> jstring \<Rightarrow> jstring" where
  "js_slice_from a s = drop (slice_index (length s) a) s"

abbreviation newline :: nat where
  "newline \<equiv> 10"

fun split_lines :: "jstring \<Rightarrow> jstring list" where
  "split_lines [] = [[]]"
| "split_lines (c # cs) =
     (if c = newline then [] # split_lines cs
      else case split_lines cs of [] \<Rightarrow> [[c]] | l # ls \<Rightarrow> (c # l) # ls)"

fun join_lines :: "jstring list \<Rightarrow> jstring" where
  "join_lines [] = []"
| "join_lines [l] = l"
| "join_lines (l # m # ls) = l @ newline # join_lines (m # ls)"

lemma split_lines_not_Nil [simp]: "split_lines s \<noteq> []"
  by (cases s) (auto split: list.split)

lemma join_split [simp]: "join_lines (split_lines s) = s"
proof (induction s)
  case (Cons c cs)
  then show ?case by (cases "split_lines cs" rule: join_lines.cases) auto
qed simp

lemma split_append: "newline \<notin> set l \<Longrightarrow> split_lines (l @ newline # s) = l # split_lines s"
  by (induction l) auto

lemma split_one: "newline \<notin> set l \<Longrightarrow> split_lines l = [l]"
  by (induction l) auto

lemma split_join:
  "ls \<noteq> [] \<Longrightarrow> \<forall>l \<in> set ls. newline \<notin> set l \<Longrightarrow> split_lines (join_lines ls) = ls"
  by (induction ls rule: join_lines.induct) (simp_all add: split_one split_append)

lemma split_lines_newline: "l \<in> set (split_lines s) \<Longrightarrow> newline \<notin> set l"
  by (induction s arbitrary: l) (auto split: if_splits list.splits)

lemma js_slice_from_nat [simp]: "js_slice_from (int n) s = drop n s"
  by (auto simp: js_slice_from_def slice_index_def min_def)

lemma js_slice_nat [simp]: "js_slice (int m) (int n) s = drop m (take n s)"
  by (auto simp: js_slice_def slice_index_def min_def)

lemma js_slice_0_nat [simp]: "js_slice 0 (int n) s = take n s"
  using js_slice_nat[of 0 n s] by simp

end
