(* ===== verification/Editor.thy ===== *)
theory Editor
  imports JsText
begin

text \<open>
  \<open>packages/editor-core/src\<close>: the headless editor (\<open>state.ts\<close>) with its undo and redo stacks and
  its cached word count, the ghost-text manager (\<open>ghost-text.ts\<close>), the IME guard (\<open>ime.ts\<close>) and the
  typography helpers (\<open>typography.ts\<close>). Strings are lists of UTF-16 code units. A deep copy by
  \<open>JSON.parse(JSON.stringify(...))\<close> is the document itself, since a document is a value here.
\<close>

section \<open>The document and its text\<close>

datatype node_type = Doc | Paragraph | Heading | TextNode | Blockquote

datatype doc_node = DocNode (dn_type: node_type) (dn_text: "jstring option") (dn_content: "doc_node list option")

definition line_node :: "jstring \<Rightarrow> doc_node" where
  "line_node line = DocNode Paragraph None (Some (if line = [] then [] else [DocNode TextNode (Some line) None]))"

definition doc_of :: "jstring \<Rightarrow> doc_node" where
  "doc_of text = DocNode Doc None (Some (map line_node (split_lines text)))"

definition node_text :: "doc_node \<Rightarrow> jstring" where
  "node_text t = (case dn_text t of None \<Rightarrow> [] | Some s \<Rightarrow> s)"

definition paragraph_text :: "doc_node \<Rightarrow> jstring" where
  "paragraph_text p = (case dn_content p of None \<Rightarrow> [] | Some ts \<Rightarrow> concat (map node_text ts))"

definition doc_text :: "doc_node \<Rightarrow> jstring" where
  "doc_text d = join_lines (case dn_content d of None \<Rightarrow> [] | Some ps \<Rightarrow> map paragraph_text ps)"

lemma doc_text_of [simp]: "doc_text (doc_of t) = t"
proof -
  have "map (paragraph_text \<circ> line_node) (split_lines t) = split_lines t"
    by (rule map_idI) (simp add: paragraph_text_def line_node_def node_text_def)
  then show ?thesis by (simp add: doc_text_def doc_of_def)
qed

section \<open>The editor state\<close>

datatype step_type = SReplace | SInsert | SDelete

record editor_step =
  st_type :: step_type
  st_from :: int
  st_to :: int
  st_text :: "jstring option"

record transaction =
  tr_steps :: "editor_step list"
  tr_docBefore :: doc_node
  tr_docAfter :: doc_node
  tr_time :: int

record editor =
  ed_doc :: doc_node
  ed_selection :: "int \<times> int"
  ed_version :: nat
  ed_cachedVersion :: nat
  ed_cachedCount :: nat
  ed_undo :: "transaction list"
  ed_redo :: "transaction list"

definition newEditor :: "jstring \<Rightarrow> editor" where
  "newEditor initialText =
     \<lparr>ed_doc = (if initialText = [] then DocNode Doc None (Some [DocNode Paragraph None (Some [])]) else doc_of initialText),
      ed_selection = (0, 0), ed_version = 1, ed_cachedVersion = 0, ed_cachedCount = 0, ed_undo = [], ed_redo = []\<rparr>"

definition getText :: "editor \<Rightarrow> jstring" where
  "getText ed = doc_text (ed_doc ed)"

definition setSelection :: "int \<Rightarrow> int \<Rightarrow> editor \<Rightarrow> editor" where
  "setSelection from to ed = ed\<lparr>ed_selection := (from, to)\<rparr>"

definition is_cjk :: "nat \<Rightarrow> bool" where
  "is_cjk u \<longleftrightarrow> 0x4e00 \<le> u \<and> u \<le> 0x9fa5"

definition is_word_char :: "nat \<Rightarrow> bool" where
  "is_word_char u \<longleftrightarrow> 97 \<le> u \<and> u \<le> 122 \<or> 65 \<le> u \<and> u \<le> 90 \<or> 48 \<le> u \<and> u \<le> 57 \<or> u = 95 \<or> u = 45"

text \<open>The number of matches of \<open>[a-zA-Z0-9_-]+\<close>: a match starts where a run of word characters starts.\<close>

fun count_runs :: "bool \<Rightarrow> jstring \<Rightarrow> nat" where
  "count_runs inside [] = 0"
| "count_runs inside (c # cs) =
     (if is_word_char c then (if inside then 0 else 1) + count_runs True cs else count_runs False cs)"

definition wordCount :: "jstring \<Rightarrow> nat" where
  "wordCount text =
     (if js_trim text = [] then 0
      else length (filter is_cjk text) + count_runs False (map (\<lambda>c. if is_cjk c then 32 else c) text))"

definition getWordCount :: "editor \<Rightarrow> nat \<times> editor" where
  "getWordCount ed =
     (if ed_cachedVersion ed = ed_version ed then (ed_cachedCount ed, ed)
      else let n = wordCount (getText ed)
           in (n, ed\<lparr>ed_cachedCount := n, ed_cachedVersion := ed_version ed\<rparr>))"

definition insertText :: "int \<Rightarrow> int \<Rightarrow> jstring \<Rightarrow> editor \<Rightarrow> transaction \<times> editor" where
  "insertText now pos text ed =
     (let docBefore = ed_doc ed;
          currentText = getText ed;
          newText = js_slice 0 pos currentText @ text @ js_slice_from pos currentText;
          doc = doc_of newText;
          at = pos + int (length text);
          tr = \<lparr>tr_steps = [\<lparr>st_type = SInsert, st_from = pos, st_to = pos, st_text = Some text\<rparr>],
                tr_docBefore = docBefore, tr_docAfter = doc, tr_time = now\<rparr>
      in (tr, ed\<lparr>ed_doc := doc, ed_version := ed_version ed + 1, ed_selection := (at, at),
                ed_undo := ed_undo ed @ [tr], ed_redo := []\<rparr>))"

definition insert_at_selection :: "int \<Rightarrow> jstring \<Rightarrow> editor \<Rightarrow> transaction \<times> editor" where
  "insert_at_selection now text ed = insertText now (snd (ed_selection ed)) text ed"

definition deleteRange :: "int \<Rightarrow> int \<Rightarrow> int \<Rightarrow> editor \<Rightarrow> transaction \<times> editor" where
  "deleteRange now from to ed =
     (let docBefore = ed_doc ed;
          currentText = getText ed;
          deletedText = js_slice from to currentText;
          newText = js_slice 0 from currentText @ js_slice_from to currentText;
          doc = doc_of newText;
          tr = \<lparr>tr_steps = [\<lparr>st_type = SDelete, st_from = from, st_to = to, st_text = Some deletedText\<rparr>],
                tr_docBefore = docBefore, tr_docAfter = doc, tr_time = now\<rparr>
      in (tr, ed\<lparr>ed_doc := doc, ed_version := ed_version ed + 1, ed_selection := (from, from),
                ed_undo := ed_undo ed @ [tr], ed_redo := []\<rparr>))"

definition replaceRange :: "int \<Rightarrow> int \<Rightarrow> int \<Rightarrow> jstring \<Rightarrow> editor \<Rightarrow> transaction \<times> editor" where
  "replaceRange now start end text ed = insertText now start text (snd (deleteRange now start end ed))"

definition undo :: "editor \<Rightarrow> bool \<times> editor" where
  "undo ed =
     (if ed_undo ed = [] then (False, ed)
      else let tr = last (ed_undo ed)
           in (True, ed\<lparr>ed_undo := butlast (ed_undo ed), ed_redo := ed_redo ed @ [tr],
                ed_doc := tr_docBefore tr, ed_version := ed_version ed + 1\<rparr>))"

definition redo :: "editor \<Rightarrow> bool \<times> editor" where
  "redo ed =
     (if ed_redo ed = [] then (False, ed)
      else let tr = last (ed_redo ed)
           in (True, ed\<lparr>ed_redo := butlast (ed_redo ed), ed_undo := ed_undo ed @ [tr],
                ed_doc := tr_docAfter tr, ed_version := ed_version ed + 1\<rparr>))"

definition clearHistory :: "editor \<Rightarrow> editor" where
  "clearHistory ed = ed\<lparr>ed_undo := [], ed_redo := []\<rparr>"

definition setContent :: "jstring \<Rightarrow> editor \<Rightarrow> editor" where
  "setContent text ed = clearHistory (ed\<lparr>ed_doc := doc_of text, ed_version := ed_version ed + 1\<rparr>)"

inductive editor_step_rel :: "editor \<Rightarrow> editor \<Rightarrow> bool" where
  "editor_step_rel ed (snd (insertText now pos text ed))"
| "editor_step_rel ed (snd (insert_at_selection now text ed))"
| "editor_step_rel ed (snd (deleteRange now a b ed))"
| "editor_step_rel ed (snd (replaceRange now a b text ed))"
| "editor_step_rel ed (snd (undo ed))"
| "editor_step_rel ed (snd (redo ed))"
| "editor_step_rel ed (setContent text ed)"
| "editor_step_rel ed (clearHistory ed)"
| "editor_step_rel ed (setSelection a b ed)"
| "editor_step_rel ed (snd (getWordCount ed))"

definition editor_reach :: "editor \<Rightarrow> bool" where
  "editor_reach ed \<longleftrightarrow> (\<exists>t. editor_step_rel\<^sup>*\<^sup>* (newEditor t) ed)"

section \<open>History\<close>

text \<open>The transactions of the two stacks form one chain of documents that passes through the current one.\<close>

fun linked :: "transaction list \<Rightarrow> bool" where
  "linked [] = True"
| "linked [a] = True"
| "linked (a # b # trs) = (tr_docAfter a = tr_docBefore b \<and> linked (b # trs))"

definition editor_inv :: "editor \<Rightarrow> bool" where
  "editor_inv ed \<longleftrightarrow> linked (ed_undo ed) \<and> linked (rev (ed_redo ed)) \<and>
     (ed_undo ed \<noteq> [] \<longrightarrow> tr_docAfter (last (ed_undo ed)) = ed_doc ed) \<and>
     (ed_redo ed \<noteq> [] \<longrightarrow> tr_docBefore (last (ed_redo ed)) = ed_doc ed) \<and>
     ed_cachedVersion ed \<le> ed_version ed \<and>
     (ed_cachedVersion ed = ed_version ed \<longrightarrow> ed_cachedCount ed = wordCount (getText ed))"

lemma linked_snoc: "linked (trs @ [a]) \<longleftrightarrow> linked trs \<and> (trs \<noteq> [] \<longrightarrow> tr_docAfter (last trs) = tr_docBefore a)"
  by (induction trs rule: linked.induct) auto

lemma linked_Cons: "linked (a # trs) \<longleftrightarrow> linked trs \<and> (trs \<noteq> [] \<longrightarrow> tr_docAfter a = tr_docBefore (hd trs))"
  by (cases trs) auto

lemma inv_record:
  assumes "editor_inv ed" and "tr_docBefore tr = ed_doc ed" and "tr_docAfter tr = doc"
  shows "editor_inv (ed\<lparr>ed_doc := doc, ed_version := ed_version ed + 1, ed_selection := sel,
    ed_undo := ed_undo ed @ [tr], ed_redo := []\<rparr>)"
  using assms by (auto simp: editor_inv_def linked_snoc)

lemma inv_insertText: "editor_inv ed \<Longrightarrow> editor_inv (snd (insertText now pos t ed))"
  unfolding insertText_def Let_def snd_conv by (rule inv_record) simp_all

lemma inv_deleteRange: "editor_inv ed \<Longrightarrow> editor_inv (snd (deleteRange now a b ed))"
  unfolding deleteRange_def Let_def snd_conv by (rule inv_record) simp_all

lemma split_last: "xs \<noteq> [] \<Longrightarrow> \<exists>ys y. xs = ys @ [y]"
  by (metis append_butlast_last_id)

lemma inv_undo:
  assumes "editor_inv ed"
  shows "editor_inv (snd (undo ed))"
proof (cases "ed_undo ed = []")
  case False
  then obtain trs tr where "ed_undo ed = trs @ [tr]" using split_last by blast
  then show ?thesis using assms by (auto simp: undo_def editor_inv_def linked_snoc linked_Cons hd_rev Let_def)
qed (use assms in \<open>simp add: undo_def\<close>)

lemma inv_redo:
  assumes "editor_inv ed"
  shows "editor_inv (snd (redo ed))"
proof (cases "ed_redo ed = []")
  case False
  then obtain trs tr where "ed_redo ed = trs @ [tr]" using split_last by blast
  then show ?thesis using assms by (auto simp: redo_def editor_inv_def linked_snoc linked_Cons hd_rev Let_def)
qed (use assms in \<open>simp add: redo_def\<close>)

lemma getText_count [simp]: "getText (ed\<lparr>ed_cachedCount := n, ed_cachedVersion := v\<rparr>) = getText ed"
  by (simp add: getText_def)

lemma inv_step: "editor_step_rel ed ed' \<Longrightarrow> editor_inv ed \<Longrightarrow> editor_inv ed'"
proof (induction rule: editor_step_rel.induct)
  case (10 ed)
  then show ?case by (auto simp: getWordCount_def editor_inv_def Let_def)
qed (simp_all add: insert_at_selection_def replaceRange_def inv_insertText inv_deleteRange inv_undo inv_redo
    setContent_def clearHistory_def setSelection_def, auto simp: editor_inv_def getText_def)

lemma editor_reach_inv: "editor_reach ed \<Longrightarrow> editor_inv ed"
proof -
  assume "editor_reach ed"
  then obtain t where r: "editor_step_rel\<^sup>*\<^sup>* (newEditor t) ed" unfolding editor_reach_def by blast
  have "editor_inv (newEditor t)" by (simp add: editor_inv_def newEditor_def)
  with r show ?thesis by (induction rule: rtranclp_induct) (auto intro: inv_step)
qed

lemma newEditor_reach: "editor_reach (newEditor t)"
  by (auto simp: editor_reach_def)

lemma reach_step: "editor_reach ed \<Longrightarrow> editor_step_rel ed ed' \<Longrightarrow> editor_reach ed'"
  unfolding editor_reach_def by (meson rtranclp.rtrancl_into_rtrancl)

text \<open>
  C31: in every reachable editor an undo that did something is exactly reversed by a redo, and a redo by
  an undo: the document, the selection, both stacks and the cached count are the ones from before, and
  only the version has moved on by two.
\<close>

lemma undo_redo_inverse:
  assumes "editor_reach ed"
  shows "(fst (undo ed) \<longrightarrow> redo (snd (undo ed)) = (True, ed\<lparr>ed_version := ed_version ed + 2\<rparr>)) \<and>
    (fst (redo ed) \<longrightarrow> undo (snd (redo ed)) = (True, ed\<lparr>ed_version := ed_version ed + 2\<rparr>))"
proof -
  note inv = editor_reach_inv[OF assms]
  have "fst (undo ed) \<Longrightarrow> redo (snd (undo ed)) = (True, ed\<lparr>ed_version := ed_version ed + 2\<rparr>)"
  proof -
    assume "fst (undo ed)"
    then obtain trs tr where "ed_undo ed = trs @ [tr]" using split_last by (auto simp: undo_def split: if_splits)
    then show ?thesis using inv by (cases ed) (simp add: undo_def redo_def editor_inv_def Let_def)
  qed
  moreover have "fst (redo ed) \<Longrightarrow> undo (snd (redo ed)) = (True, ed\<lparr>ed_version := ed_version ed + 2\<rparr>)"
  proof -
    assume "fst (redo ed)"
    then obtain trs tr where "ed_redo ed = trs @ [tr]" using split_last by (auto simp: redo_def split: if_splits)
    then show ?thesis using inv by (cases ed) (simp add: undo_def redo_def editor_inv_def Let_def)
  qed
  ultimately show ?thesis by blast
qed

lemma undo_redo_inverse_witness:
  "redo (snd (undo (snd (insertText 5 0 [97] (newEditor []))))) =
     (True, (snd (insertText 5 0 [97] (newEditor [])))\<lparr>ed_version := 4\<rparr>)"
  using undo_redo_inverse[OF reach_step[OF newEditor_reach[of "[]"], OF editor_step_rel.intros(1)[of _ 5 0 "[97]"]]]
  by (simp add: undo_def insertText_def newEditor_def Let_def)

text \<open>
  The cached word count is never stale: in every reachable editor \<open>getWordCount\<close> returns the count of
  the current text, and asking changes neither the document nor its history.
\<close>

lemma word_count_fresh:
  assumes "editor_reach ed"
  shows "fst (getWordCount ed) = wordCount (getText ed) \<and> ed_doc (snd (getWordCount ed)) = ed_doc ed \<and>
    ed_undo (snd (getWordCount ed)) = ed_undo ed \<and> ed_redo (snd (getWordCount ed)) = ed_redo ed"
  using editor_reach_inv[OF assms] by (auto simp: getWordCount_def editor_inv_def Let_def)

lemma word_count_fresh_witness:
  "fst (getWordCount (snd (insertText 5 0 [97, 32, 0x4e2d] (newEditor [])))) = 2"
proof -
  let ?ed = "snd (insertText 5 0 [97, 32, 0x4e2d] (newEditor []))"
  have "editor_reach ?ed" by (rule reach_step[OF newEditor_reach editor_step_rel.intros(1)])
  then have "fst (getWordCount ?ed) = wordCount (getText ?ed)" using word_count_fresh[of ?ed] by simp
  moreover have "getText ?ed = [97, 32, 0x4e2d]"
    by (simp add: getText_def insertText_def newEditor_def Let_def js_slice_def js_slice_from_def slice_index_def)
      (simp add: doc_text_def paragraph_text_def)
  ultimately show ?thesis by (simp add: wordCount_def js_trim_def js_space_def is_cjk_def is_word_char_def)
qed

section \<open>Edits of the text\<close>

lemma getText_insertText:
  "getText (snd (insertText now (int p) t ed)) = take p (getText ed) @ t @ drop p (getText ed)"
  by (simp add: insertText_def Let_def getText_def)

lemma getText_deleteRange:
  "getText (snd (deleteRange now (int a) (int b) ed)) = take a (getText ed) @ drop b (getText ed)"
  by (simp add: deleteRange_def Let_def getText_def)

text \<open>
  within the text an insertion at a position puts the new text there, deleting what was inserted
  restores the text, and inserting again what a deletion removed (the text of its recorded step)
  restores it too; \<open>replaceRange\<close> replaces the range by the new text.
\<close>

lemma edits_on_text:
  assumes "a \<le> b" and "b \<le> length (getText ed)"
  shows "getText (snd (insertText now (int a) t ed)) = take a (getText ed) @ t @ drop a (getText ed) \<and>
    getText (snd (deleteRange now (int a) (int (a + length t)) (snd (insertText now (int a) t ed)))) = getText ed \<and>
    (let (tr, ed') = deleteRange now (int a) (int b) ed
     in getText (snd (insertText now (int a) (case st_text (hd (tr_steps tr)) of Some d \<Rightarrow> d | None \<Rightarrow> []) ed')) =
          getText ed) \<and>
    getText (snd (replaceRange now (int a) (int b) t ed)) = take a (getText ed) @ t @ drop b (getText ed)"
proof -
  have s: "st_text (hd (tr_steps (fst (deleteRange now (int a) (int b) ed)))) = Some (drop a (take b (getText ed)))"
    by (simp add: deleteRange_def Let_def)
  have j: "take a x @ drop a (take b x) @ drop b x = x" for x :: jstring
    using assms(1) by (metis append.assoc append_take_drop_id min.absorb1 take_take)
  have restored: "getText (snd (insertText now (int a) (drop a (take b (getText ed)))
      (snd (deleteRange now (int a) (int b) ed)))) = getText ed"
    using assms j[of "getText ed"] by (simp add: getText_insertText getText_deleteRange)
  have "getText (snd (replaceRange now (int a) (int b) t ed)) = take a (getText ed) @ t @ drop b (getText ed)"
    using assms by (simp add: replaceRange_def getText_insertText getText_deleteRange)
  moreover have "getText (snd (deleteRange now (int a) (int (a + length t)) (snd (insertText now (int a) t ed)))) =
      getText ed"
    using assms by (simp add: getText_insertText getText_deleteRange del: of_nat_add)
  ultimately show ?thesis
    using restored s by (simp add: getText_insertText case_prod_beta Let_def)
qed

lemma edits_on_text_witness:
  "getText (snd (deleteRange 9 0 1 (snd (insertText 9 0 [120] (newEditor [97, 10, 98]))))) = [97, 10, 98]"
proof -
  have "getText (newEditor [97, 10, 98]) = [97, 10, 98]" by (simp add: getText_def newEditor_def)
  then show ?thesis using edits_on_text[of 0 0 "newEditor [97, 10, 98]" 9 "[120]"] by simp
qed

end
