(* ===== verification/GhostText.thy ===== *)
theory GhostText
  imports Editor
begin

text \<open>
  \<open>packages/editor-core/src/ghost-text.ts\<close> and \<open>ime.ts\<close>. The manager holds the editor by reference,
  so every accepting operation takes and returns both states. \<open>Date.now()\<close> and the generated
  identifier are arguments.
\<close>

section \<open>The ghost-text manager\<close>

record suggestion =
  gt_id :: jstring
  gt_pos :: int
  gt_text :: jstring
  gt_source :: jstring
  gt_createdAt :: int

record ghost_state =
  gs_active :: bool
  gs_current :: "suggestion option"

definition newGhost :: ghost_state where
  "newGhost = \<lparr>gs_active = False, gs_current = None\<rparr>"

definition ai_stream :: jstring where
  "ai_stream = ascii ''ai-stream''"

definition setGhostText :: "jstring \<Rightarrow> int \<Rightarrow> int \<Rightarrow> jstring \<Rightarrow> jstring \<Rightarrow> ghost_state \<Rightarrow> suggestion \<times> ghost_state" where
  "setGhostText i now pos text source g =
     (let s = \<lparr>gt_id = i, gt_pos = pos, gt_text = text, gt_source = source, gt_createdAt = now\<rparr>
      in (s, \<lparr>gs_active = True, gs_current = Some s\<rparr>))"

definition suggest :: "jstring \<Rightarrow> int \<Rightarrow> jstring \<Rightarrow> int option \<Rightarrow> editor \<Rightarrow> ghost_state \<Rightarrow> suggestion \<times> ghost_state" where
  "suggest i now text pos ed g =
     (let target = (case pos of Some p \<Rightarrow> p | None \<Rightarrow> int (length (getText ed)))
      in setGhostText i now target text ai_stream g)"

definition getSuggestion :: "ghost_state \<Rightarrow> jstring option" where
  "getSuggestion g = map_option gt_text (gs_current g)"

definition hasGhostText :: "ghost_state \<Rightarrow> bool" where
  "hasGhostText g \<longleftrightarrow> gs_active g \<and> (case gs_current g of None \<Rightarrow> False | Some s \<Rightarrow> gt_text s \<noteq> [])"

definition dismissGhostText :: "ghost_state \<Rightarrow> ghost_state" where
  "dismissGhostText g = \<lparr>gs_active = False, gs_current = None\<rparr>"

definition acceptGhostText :: "int \<Rightarrow> ghost_state \<Rightarrow> editor \<Rightarrow> bool \<times> ghost_state \<times> editor" where
  "acceptGhostText now g ed =
     (case gs_current g of
        None \<Rightarrow> (False, g, ed)
      | Some s \<Rightarrow>
          if \<not> hasGhostText g then (False, g, ed)
          else (True, dismissGhostText g, snd (insertText now (gt_pos s) (gt_text s) ed)))"

text \<open>\<open>\w\<close>: the ASCII letters, digits and the underscore.\<close>

definition is_regex_word :: "nat \<Rightarrow> bool" where
  "is_regex_word u \<longleftrightarrow> is_word_char u \<and> u \<noteq> 45"

definition is_other_char :: "nat \<Rightarrow> bool" where
  "is_other_char u \<longleftrightarrow> \<not> js_space u \<and> \<not> is_regex_word u \<and> \<not> is_cjk u"

text \<open>The longest match at the start of the text of the first of the four alternatives of the pattern that matches at all.\<close>

definition next_word :: "jstring \<Rightarrow> jstring" where
  "next_word text =
     (let cjk = takeWhile is_cjk text; latin = takeWhile is_word_char text;
          space = takeWhile js_space text; other = takeWhile is_other_char text
      in if cjk \<noteq> [] then cjk else if latin \<noteq> [] then latin else if space \<noteq> [] then space
         else if other \<noteq> [] then other else take 1 text)"

definition consume :: "int \<Rightarrow> jstring \<Rightarrow> suggestion \<Rightarrow> ghost_state \<Rightarrow> editor \<Rightarrow> bool \<times> ghost_state \<times> editor" where
  "consume now part s g ed =
     (let ed' = snd (insertText now (gt_pos s) part ed);
          remaining = js_slice_from (int (length part)) (gt_text s)
      in if remaining \<noteq> [] then
           (True, g\<lparr>gs_current := Some (s\<lparr>gt_pos := gt_pos s + int (length part), gt_text := remaining\<rparr>)\<rparr>, ed')
         else (True, dismissGhostText g, ed'))"

definition acceptWord :: "int \<Rightarrow> ghost_state \<Rightarrow> editor \<Rightarrow> bool \<times> ghost_state \<times> editor" where
  "acceptWord now g ed =
     (case gs_current g of
        None \<Rightarrow> (False, g, ed)
      | Some s \<Rightarrow> if \<not> hasGhostText g then (False, g, ed) else consume now (next_word (gt_text s)) s g ed)"

text \<open>The text up to and including its first newline, or all of it.\<close>

definition next_line :: "jstring \<Rightarrow> jstring" where
  "next_line text =
     (let head = takeWhile (\<lambda>c. c \<noteq> newline) text
      in if newline \<in> set text then take (length head + 1) text else text)"

definition acceptLine :: "int \<Rightarrow> ghost_state \<Rightarrow> editor \<Rightarrow> bool \<times> ghost_state \<times> editor" where
  "acceptLine now g ed =
     (case gs_current g of
        None \<Rightarrow> (False, g, ed)
      | Some s \<Rightarrow> if \<not> hasGhostText g then (False, g, ed) else consume now (next_line (gt_text s)) s g ed)"

section \<open>The IME guard\<close>

record ime =
  ime_composing :: bool
  ime_text :: jstring

definition newIme :: ime where
  "newIme = \<lparr>ime_composing = False, ime_text = []\<rparr>"

definition onCompositionStart :: "ime \<Rightarrow> ime" where
  "onCompositionStart m = m\<lparr>ime_composing := True, ime_text := []\<rparr>"

definition onCompositionUpdate :: "jstring \<Rightarrow> ime \<Rightarrow> ime" where
  "onCompositionUpdate text m = (if ime_composing m then m\<lparr>ime_text := text\<rparr> else m)"

definition onCompositionEnd :: "jstring \<Rightarrow> ime \<Rightarrow> jstring \<times> ime" where
  "onCompositionEnd finalText m = (finalText, m\<lparr>ime_composing := False, ime_text := []\<rparr>)"

text \<open>Outside a composition no composition text is kept.\<close>

inductive ime_reach :: "ime \<Rightarrow> bool" where
  "ime_reach newIme"
| "ime_reach m \<Longrightarrow> ime_reach (onCompositionStart m)"
| "ime_reach m \<Longrightarrow> ime_reach (onCompositionUpdate t m)"
| "ime_reach m \<Longrightarrow> ime_reach (snd (onCompositionEnd t m))"

lemma ime_idle: "ime_reach m \<Longrightarrow> \<not> ime_composing m \<longrightarrow> ime_text m = []"
  by (induction rule: ime_reach.induct)
    (auto simp: newIme_def onCompositionStart_def onCompositionUpdate_def onCompositionEnd_def)

section \<open>Accepting part by part\<close>

lemma takeWhile_prefix: "\<exists>r. s = takeWhile P s @ r"
  using takeWhile_dropWhile_id[of P s] by metis

lemma take_prefix: "\<exists>r. s = take n s @ r"
  using append_take_drop_id[of n s] by metis

lemma next_word_prefix: "\<exists>r. s = next_word s @ r"
  unfolding next_word_def Let_def
  by (simp only: takeWhile_prefix take_prefix split: if_split) blast

lemma next_word_nonempty: "s \<noteq> [] \<Longrightarrow> next_word s \<noteq> []"
  by (cases s) (auto simp: next_word_def Let_def)

lemma next_line_prefix: "\<exists>r. s = next_line s @ r"
  unfolding next_line_def Let_def using take_prefix[of s] by simp

lemma next_line_nonempty: "s \<noteq> [] \<Longrightarrow> next_line s \<noteq> []"
  by (cases s) (auto simp: next_line_def Let_def)

text \<open>A run of \<open>acceptWord\<close> (\<open>True\<close>) and \<open>acceptLine\<close> (\<open>False\<close>) calls.\<close>

fun accept_parts :: "int \<Rightarrow> bool list \<Rightarrow> ghost_state \<Rightarrow> editor \<Rightarrow> ghost_state \<times> editor" where
  "accept_parts now [] g ed = (g, ed)"
| "accept_parts now (w # ws) g ed =
     (let (_, g', ed') = (if w then acceptWord now g ed else acceptLine now g ed) in accept_parts now ws g' ed')"

text \<open>What the manager and the editor promise together: the text once the whole suggestion is accepted.\<close>

definition accepted_text :: "ghost_state \<Rightarrow> editor \<Rightarrow> jstring" where
  "accepted_text g ed =
     (case gs_current g of
        None \<Rightarrow> getText ed
      | Some s \<Rightarrow> if hasGhostText g
                   then take (nat (gt_pos s)) (getText ed) @ gt_text s @ drop (nat (gt_pos s)) (getText ed)
                   else getText ed)"

definition ghost_ok :: "ghost_state \<Rightarrow> bool" where
  "ghost_ok g \<longleftrightarrow> (case gs_current g of None \<Rightarrow> True | Some s \<Rightarrow> 0 \<le> gt_pos s)"

definition ghost_left :: "ghost_state \<Rightarrow> nat" where
  "ghost_left g = (case gs_current g of None \<Rightarrow> 0 | Some s \<Rightarrow> if hasGhostText g then length (gt_text s) else 0)"

lemma accept_whole:
  assumes "ghost_ok g"
  shows "getText (snd (snd (acceptGhostText now g ed))) = accepted_text g ed"
proof (cases "gs_current g")
  case (Some s)
  then have "int (nat (gt_pos s)) = gt_pos s" using assms by (simp add: ghost_ok_def)
  then show ?thesis
    using Some getText_insertText[of now "nat (gt_pos s)" "gt_text s" ed]
    by (simp add: acceptGhostText_def accepted_text_def)
qed (simp add: acceptGhostText_def accepted_text_def)

lemma consume_keeps:
  assumes "gs_current g = Some s" and "hasGhostText g" and "ghost_ok g"
    and "gt_text s = part @ r" and "part \<noteq> []" and "consume now part s g ed = (ok, g', ed')"
  shows "ok \<and> ghost_ok g' \<and> accepted_text g' ed' = accepted_text g ed \<and> ghost_left g' < ghost_left g"
proof -
  obtain p where p: "gt_pos s = int p" using assms(1,3) by (auto simp: ghost_ok_def intro: nonneg_int_cases)
  have e: "getText ed' = take p (getText ed) @ part @ drop p (getText ed)"
    using assms(6) p by (auto simp: consume_def Let_def getText_insertText split: if_splits)
  have a: "gs_active g" using assms(2) by (simp add: hasGhostText_def)
  have k: "nat (int p + int n) = p + n" for n by simp
  show ?thesis
  proof (cases "r = []")
    case True
    then have "g' = dismissGhostText g" "ok" using assms(4,6) by (auto simp: consume_def Let_def)
    then show ?thesis
      using assms True p e
      by (simp add: dismissGhostText_def ghost_ok_def accepted_text_def ghost_left_def)
  next
    case False
    then have "g' = g\<lparr>gs_current := Some (s\<lparr>gt_pos := int p + int (length part), gt_text := r\<rparr>)\<rparr>" "ok"
      using assms(4,6) p by (auto simp: consume_def Let_def)
    then show ?thesis
      using assms False p e a
      by (cases "p \<le> length (getText ed)") (simp_all add: ghost_ok_def accepted_text_def ghost_left_def hasGhostText_def k)
  qed
qed

lemma part_keeps:
  assumes "ghost_ok g" and "(if w then acceptWord now g ed else acceptLine now g ed) = (ok, g', ed')"
  shows "ghost_ok g' \<and> accepted_text g' ed' = accepted_text g ed \<and> (ghost_left g' < ghost_left g \<or> ghost_left g' = 0) \<and>
    ok = hasGhostText g"
proof (cases "hasGhostText g")
  case True
  then obtain s where s: "gs_current g = Some s" and ne: "gt_text s \<noteq> []"
    by (auto simp: hasGhostText_def split: option.splits)
  obtain part r where "gt_text s = part @ r" "part \<noteq> []" "consume now part s g ed = (ok, g', ed')"
    using assms(2) s True next_word_prefix[of "gt_text s"] next_word_nonempty[OF ne]
      next_line_prefix[of "gt_text s"] next_line_nonempty[OF ne]
    by (cases w) (auto simp: acceptWord_def acceptLine_def)
  then show ?thesis using consume_keeps[OF s True assms(1)] True by blast
next
  case False
  then have "ok = False \<and> g' = g \<and> ed' = ed"
    using assms(2) by (auto simp: acceptWord_def acceptLine_def split: if_splits option.splits)
  then show ?thesis using False assms(1) by (auto simp: ghost_left_def split: option.split)
qed

lemma parts_keep:
  "ghost_ok g \<Longrightarrow> accept_parts now ws g ed = (g', ed') \<Longrightarrow>
     ghost_ok g' \<and> accepted_text g' ed' = accepted_text g ed \<and> ghost_left g' \<le> ghost_left g - length ws"
proof (induction ws arbitrary: g ed)
  case (Cons w ws)
  obtain ok g1 ed1 where s: "(if w then acceptWord now g ed else acceptLine now g ed) = (ok, g1, ed1)"
    by (metis prod_cases3)
  then have r: "accept_parts now ws g1 ed1 = (g', ed')" using Cons.prems by simp
  show ?case using part_keeps[OF Cons.prems(1) s] Cons.IH[OF _ r] by auto
qed simp

text \<open>
  C33: however a user mixes \<open>acceptWord\<close> and \<open>acceptLine\<close>, accepting the rest of the suggestion afterwards
  gives the text that accepting the whole suggestion at once gives, and as many partial accepts as the
  suggestion has characters always use it up, leaving that text already in place.
\<close>

lemma accept_parts_text:
  assumes "gs_current g = Some s" and "0 \<le> gt_pos s" and "accept_parts now ws g ed = (g', ed')"
  shows "getText (snd (snd (acceptGhostText now g' ed'))) = getText (snd (snd (acceptGhostText now g ed))) \<and>
    (length (gt_text s) \<le> length ws \<longrightarrow>
       \<not> hasGhostText g' \<and> getText ed' = getText (snd (snd (acceptGhostText now g ed))))"
proof -
  have ok: "ghost_ok g" using assms by (simp add: ghost_ok_def)
  note K = parts_keep[OF ok assms(3)]
  have "ghost_left g \<le> length (gt_text s)" using assms(1) by (simp add: ghost_left_def)
  then have "length (gt_text s) \<le> length ws \<Longrightarrow> ghost_left g' = 0" using K by linarith
  then have "length (gt_text s) \<le> length ws \<Longrightarrow> \<not> hasGhostText g'"
    by (auto simp: ghost_left_def hasGhostText_def split: option.splits if_splits)
  moreover have "\<not> hasGhostText g' \<Longrightarrow> accepted_text g' ed' = getText ed'"
    by (simp add: accepted_text_def split: option.split)
  ultimately show ?thesis using K accept_whole[OF ok] accept_whole[of g' now ed'] by auto
qed

lemma accept_parts_text_witness:
  "getText (snd (accept_parts 0 [True, True, False]
     \<lparr>gs_active = True, gs_current = Some \<lparr>gt_id = [], gt_pos = 0, gt_text = [97, 32, 98], gt_source = [], gt_createdAt = 0\<rparr>\<rparr>
     (newEditor [99]))) = [97, 32, 98, 99]"
proof -
  define s where "s = \<lparr>gt_id = [], gt_pos = 0, gt_text = [97, 32, 98 :: nat], gt_source = [], gt_createdAt = 0\<rparr>"
  define g where "g = \<lparr>gs_active = True, gs_current = Some s\<rparr>"
  have t: "getText (newEditor [99]) = [99]" by (simp add: getText_def newEditor_def)
  obtain g' ed' where r: "accept_parts 0 [True, True, False] g (newEditor [99]) = (g', ed')" by fastforce
  have s: "gs_current g = Some s" and p: "0 \<le> gt_pos s" by (simp_all add: g_def s_def)
  have "getText ed' = getText (snd (snd (acceptGhostText 0 g (newEditor [99]))))"
    using accept_parts_text[OF s p r] by (simp add: s_def)
  also have "\<dots> = [97, 32, 98, 99]"
    using accept_whole[of g 0 "newEditor [99]"]
    by (simp add: ghost_ok_def accepted_text_def hasGhostText_def g_def s_def t)
  finally show ?thesis using r by (simp add: g_def s_def)
qed

end
