(* ===== verification/Typography.thy ===== *)
theory Typography
  imports Editor
begin

text \<open>
  \<open>packages/editor-core/src/typography.ts\<close>: paragraph indentation for Chinese prose, whitespace
  normalisation for western prose, and the dispatch between them.
\<close>

definition trim_start :: "jstring \<Rightarrow> jstring" where
  "trim_start s = dropWhile js_space s"

definition starts_with :: "jstring \<Rightarrow> jstring \<Rightarrow> bool" where
  "starts_with p s \<longleftrightarrow> take (length p) s = p"

record typography_options =
  ty_enabled :: "bool option"
  ty_indentString :: "jstring option"
  ty_preventPunctuationAtLineStart :: "bool option"

datatype typography_mode = Chinese | Western | NoMode

definition default_indent :: jstring where
  "default_indent = [0x3000, 0x3000]"

definition DEFAULT_CHINESE_TYPOGRAPHY :: typography_options where
  "DEFAULT_CHINESE_TYPOGRAPHY =
     \<lparr>ty_enabled = Some True, ty_indentString = Some default_indent, ty_preventPunctuationAtLineStart = Some True\<rparr>"

definition fence :: jstring where
  "fence = [96, 96, 96]"

text \<open>The alternatives of the pattern of unindented lines, matched without regard to ASCII case.\<close>

definition is_digit_unit :: "nat \<Rightarrow> bool" where
  "is_digit_unit u \<longleftrightarrow> 48 \<le> u \<and> u \<le> 57"

definition is_ordinal :: "nat \<Rightarrow> bool" where
  "is_ordinal u \<longleftrightarrow> is_digit_unit u \<or>
     u \<in> {0x4E00, 0x4E8C, 0x4E09, 0x56DB, 0x4E94, 0x516D, 0x4E03, 0x516B, 0x4E5D, 0x5341}"

definition space_next :: "jstring \<Rightarrow> bool" where
  "space_next s \<longleftrightarrow> (case s of [] \<Rightarrow> False | c # _ \<Rightarrow> js_space c)"

definition upper_ascii :: "nat \<Rightarrow> nat" where
  "upper_ascii u = (if 97 \<le> u \<and> u \<le> 122 then u - 32 else u)"

definition heading_mark :: "jstring \<Rightarrow> bool" where
  "heading_mark s \<longleftrightarrow>
     (let n = length (takeWhile (\<lambda>c. c = 35) s) in 1 \<le> n \<and> n \<le> 6 \<and> space_next (drop n s))"

definition bullet_mark :: "jstring \<Rightarrow> bool" where
  "bullet_mark s \<longleftrightarrow> (case s of [] \<Rightarrow> False | c # r \<Rightarrow> c \<in> {62, 42, 45, 43} \<and> space_next r)"

definition number_mark :: "jstring \<Rightarrow> bool" where
  "number_mark s \<longleftrightarrow>
     (let n = length (takeWhile is_digit_unit s)
      in 1 \<le> n \<and> (case drop n s of [] \<Rightarrow> False | c # r \<Rightarrow> c = 46 \<and> space_next r))"

definition scene_mark :: "jstring \<Rightarrow> bool" where
  "scene_mark s \<longleftrightarrow> map upper_ascii (take 4 s) \<in> {[73, 78, 84, 46], [69, 88, 84, 46]} \<or>
     take 2 s \<in> {[0x5185, 0x666F], [0x5916, 0x666F]}"

definition chapter_mark :: "jstring \<Rightarrow> bool" where
  "chapter_mark s \<longleftrightarrow>
     (case s of [] \<Rightarrow> False
      | c # r \<Rightarrow> c = 0x7B2C \<and>
          (let n = length (takeWhile is_ordinal r)
           in 1 \<le> n \<and> (case drop n r of [] \<Rightarrow> False
                         | d # q \<Rightarrow> d \<in> {0x573A, 0x5E55, 0x7AE0, 0x56DE} \<and> space_next q)))"

definition unindented :: "jstring \<Rightarrow> bool" where
  "unindented s \<longleftrightarrow> heading_mark s \<or> bullet_mark s \<or> number_mark s \<or> scene_mark s \<or> chapter_mark s"

text \<open>One line: the formatted line and whether a code block is open after it.\<close>

definition format_line :: "jstring \<Rightarrow> bool \<Rightarrow> jstring \<Rightarrow> jstring \<times> bool" where
  "format_line indent inCodeBlock line =
     (let trimmed = trim_start line
      in if starts_with fence trimmed then (line, \<not> inCodeBlock)
         else if inCodeBlock \<or> trimmed = [] then (line, inCodeBlock)
         else if unindented trimmed then (trimmed, inCodeBlock)
         else (indent @ dropWhile (\<lambda>c. c = 0x3000 \<or> js_space c) trimmed, inCodeBlock))"

fun format_lines :: "jstring \<Rightarrow> bool \<Rightarrow> jstring list \<Rightarrow> jstring list" where
  "format_lines indent inCodeBlock [] = []"
| "format_lines indent inCodeBlock (l # ls) =
     (let (l', block) = format_line indent inCodeBlock l in l' # format_lines indent block ls)"

definition formatChineseTypography :: "jstring \<Rightarrow> typography_options \<Rightarrow> jstring" where
  "formatChineseTypography text opts =
     (if ty_enabled opts = Some False then text
      else let indent = (case ty_indentString opts of Some i \<Rightarrow> i | None \<Rightarrow> default_indent)
           in join_lines (format_lines indent False (split_lines text)))"

text \<open>\<open>replace(/[ ]{2,}/g, ' ')\<close>: a run of two or more spaces becomes one.\<close>

fun collapse :: "jstring \<Rightarrow> jstring" where
  "collapse [] = []"
| "collapse [c] = [c]"
| "collapse (c # d # s) = (if c = 32 \<and> d = 32 then collapse (d # s) else c # collapse (d # s))"

definition formatWesternTypography :: "jstring \<Rightarrow> jstring" where
  "formatWesternTypography text = join_lines (map (\<lambda>l. collapse (js_trim l)) (split_lines text))"

definition formatTypography :: "jstring \<Rightarrow> typography_options \<Rightarrow> typography_mode option \<Rightarrow> jstring" where
  "formatTypography text opts mode =
     (if ty_enabled opts = Some False \<or> mode = Some NoMode then text
      else if mode = Some Western then formatWesternTypography text
      else if mode = None then text
      else formatChineseTypography text opts)"

section \<open>Formatting twice changes nothing more\<close>

lemma trim_start_idem [simp]: "trim_start (trim_start s) = trim_start s"
  by (simp add: trim_start_def)

lemma trim_start_indent: "\<forall>c \<in> set i. js_space c \<Longrightarrow> trim_start (i @ s) = trim_start s"
  by (simp add: trim_start_def dropWhile_append)

lemma js_space_wide: "(c = 0x3000 \<or> js_space c) = js_space c"
  by (auto simp: js_space_def)

lemma dropWhile_trim_start: "dropWhile (\<lambda>c. c = 0x3000 \<or> js_space c) (trim_start s) = trim_start s"
  by (simp only: js_space_wide trim_start_def dropWhile_idem)

lemma format_line_twice:
  assumes "\<forall>c \<in> set i. js_space c"
  shows "format_line i b (fst (format_line i b l)) = (fst (format_line i b l), snd (format_line i b l))"
  by (simp add: format_line_def Let_def dropWhile_trim_start trim_start_indent[OF assms])

lemma format_lines_twice:
  assumes "\<forall>c \<in> set i. js_space c"
  shows "format_lines i b (format_lines i b ls) = format_lines i b ls"
proof (induction ls arbitrary: b)
  case (Cons l ls)
  obtain l' b' where f: "format_line i b l = (l', b')" by fastforce
  have "format_line i b l' = (l', b')" using format_line_twice[OF assms, of b l] f by simp
  then show ?case using f Cons.IH by simp
qed simp

lemma format_line_newline:
  assumes "newline \<notin> set i" and "newline \<notin> set l"
  shows "newline \<notin> set (fst (format_line i b l))"
  using assms
  by (auto simp: format_line_def Let_def trim_start_def dest: set_dropWhileD)

lemma format_lines_newline:
  assumes "newline \<notin> set i"
  shows "\<forall>l \<in> set ls. newline \<notin> set l \<Longrightarrow> \<forall>l \<in> set (format_lines i b ls). newline \<notin> set l"
proof (induction ls arbitrary: b)
  case (Cons l ls)
  have "newline \<notin> set (fst (format_line i b l))" using Cons.prems format_line_newline[OF assms] by simp
  then show ?case using Cons by (simp add: Let_def split: prod.split) (metis fst_conv)
qed simp

lemma format_lines_length [simp]: "length (format_lines i b ls) = length ls"
  by (induction ls arbitrary: b) (simp_all add: Let_def split: prod.split)

lemma split_formatted:
  assumes "newline \<notin> set i"
  shows "split_lines (join_lines (format_lines i b (split_lines t))) = format_lines i b (split_lines t)"
proof (rule split_join)
  show "format_lines i b (split_lines t) \<noteq> []"
    using format_lines_length[of i b "split_lines t"] split_lines_not_Nil[of t] by (metis length_0_conv)
  show "\<forall>l \<in> set (format_lines i b (split_lines t)). newline \<notin> set l"
    by (rule format_lines_newline[OF assms]) (auto dest: split_lines_newline)
qed

lemma collapse_Cons: "collapse (c # s) = (if c = 32 \<and> s \<noteq> [] \<and> hd s = 32 then collapse s else c # collapse s)"
  by (cases s) auto

lemma collapse_hd: "s \<noteq> [] \<Longrightarrow> collapse s \<noteq> [] \<and> hd (collapse s) = hd s"
  by (induction s rule: collapse.induct) auto

lemma collapse_last: "s \<noteq> [] \<Longrightarrow> last (collapse s) = last s"
  by (induction s rule: collapse.induct) (auto simp: collapse_hd)

lemma collapse_idem: "collapse (collapse s) = collapse s"
proof (induction s)
  case (Cons c s)
  show ?case
  proof (cases "s = []")
    case False
    then show ?thesis using Cons collapse_hd[OF False] by (simp add: collapse_Cons)
  qed simp
qed simp

lemma collapse_set: "set (collapse s) \<subseteq> set s"
  by (induction s rule: collapse.induct) auto

lemma collapse_letters: "filter (\<lambda>c. \<not> js_space c) (collapse s) = filter (\<lambda>c. \<not> js_space c) s"
  by (induction s rule: collapse.induct) (auto simp: js_space_def)

lemma js_trim_ends: "s \<noteq> [] \<Longrightarrow> \<not> js_space (hd s) \<Longrightarrow> \<not> js_space (last s) \<Longrightarrow> js_trim s = s"
proof -
  assume A: "s \<noteq> []" "\<not> js_space (hd s)" "\<not> js_space (last s)"
  have "dropWhile js_space s = s" using A by (simp add: dropWhile_eq_self_iff)
  moreover have "dropWhile js_space (rev s) = rev s" using A by (simp add: dropWhile_eq_self_iff hd_rev)
  ultimately show ?thesis by (simp add: js_trim_def)
qed

lemma js_trim_result: "js_trim s = [] \<or> \<not> js_space (hd (js_trim s)) \<and> \<not> js_space (last (js_trim s))"
proof (cases "js_trim s = []")
  case False
  let ?d = "dropWhile js_space s"
  have l: "\<not> js_space (last (js_trim s))"
    using False hd_dropWhile[of js_space "rev ?d"] by (simp add: js_trim_def last_rev)
  have pre: "\<exists>r. ?d = js_trim s @ r"
    unfolding js_trim_def by (metis rev_append rev_rev_ident takeWhile_dropWhile_id)
  then have A: "hd ?d = hd (js_trim s)" "?d \<noteq> []" using False by (auto simp del: dropWhile_eq_Nil_conv)
  then show ?thesis using l hd_dropWhile[OF A(2)] A(1) by metis
qed simp

lemma trim_collapse: "js_trim (collapse (js_trim l)) = collapse (js_trim l)"
proof (cases "js_trim l = []")
  case False
  then show ?thesis
    using js_trim_result[of l] collapse_hd[OF False] collapse_last[OF False] by (intro js_trim_ends) auto
next
  case True
  have "js_trim [] = []" by (simp add: js_trim_def)
  then show ?thesis using True by simp
qed

lemma js_trim_subset: "set (js_trim s) \<subseteq> set s"
  by (auto simp: js_trim_def dest!: set_dropWhileD)

lemma split_western: "split_lines (formatWesternTypography t) = map (\<lambda>l. collapse (js_trim l)) (split_lines t)"
  unfolding formatWesternTypography_def
proof (rule split_join)
  show "\<forall>l \<in> set (map (\<lambda>l. collapse (js_trim l)) (split_lines t)). newline \<notin> set l"
    using collapse_set js_trim_subset split_lines_newline by fastforce
qed simp

lemma western_idem: "formatWesternTypography (formatWesternTypography t) = formatWesternTypography t"
proof -
  have "map (\<lambda>l. collapse (js_trim l)) (map (\<lambda>l. collapse (js_trim l)) (split_lines t)) =
        map (\<lambda>l. collapse (js_trim l)) (split_lines t)"
    by (simp add: trim_collapse collapse_idem)
  then have "formatWesternTypography (formatWesternTypography t) =
      join_lines (map (\<lambda>l. collapse (js_trim l)) (split_lines t))"
    by (simp only: formatWesternTypography_def[of "formatWesternTypography t"] split_western)
  then show ?thesis by (simp only: formatWesternTypography_def[of t])
qed

section \<open>Formatting changes whitespace only\<close>

abbreviation letters :: "jstring \<Rightarrow> jstring" where
  "letters \<equiv> filter (\<lambda>c. \<not> js_space c)"

lemma letters_dropWhile [simp]: "letters (dropWhile js_space s) = letters s"
  by (induction s) auto

lemma letters_rev: "letters (rev s) = rev (letters s)"
  by (simp add: rev_filter)

lemma letters_trim [simp]: "letters (js_trim s) = letters s"
  by (simp add: js_trim_def letters_rev)

lemma letters_join: "letters (join_lines ls) = concat (map letters ls)"
  by (induction ls rule: join_lines.induct) (simp_all add: js_space_def)

lemma letters_split: "concat (map letters (split_lines t)) = letters t"
  using letters_join[of "split_lines t"] by simp

lemma letters_format_line:
  assumes "\<forall>c \<in> set i. js_space c"
  shows "letters (fst (format_line i b l)) = letters l"
proof -
  have "letters i = []" using assms by (simp add: filter_empty_conv)
  then show ?thesis
    by (simp add: format_line_def Let_def dropWhile_trim_start) (simp add: trim_start_def)
qed

lemma letters_format_lines:
  assumes "\<forall>c \<in> set i. js_space c"
  shows "concat (map letters (format_lines i b ls)) = concat (map letters ls)"
proof (induction ls arbitrary: b)
  case (Cons l ls)
  obtain l' b' where f: "format_line i b l = (l', b')" by fastforce
  then show ?case using Cons.IH letters_format_line[OF assms, of b l] by simp
qed simp

text \<open>
  C37: with an indentation made of spaces other than the newline (the default, or any replacement of it),
  formatting changes whitespace only, and formatting a formatted text changes nothing.
\<close>

lemma formatting_idempotent:
  assumes "\<forall>i. ty_indentString opts = Some i \<longrightarrow> (\<forall>c \<in> set i. js_space c \<and> c \<noteq> newline)"
  shows "formatTypography (formatTypography t opts mode) opts mode = formatTypography t opts mode \<and>
    filter (\<lambda>c. \<not> js_space c) (formatTypography t opts mode) = filter (\<lambda>c. \<not> js_space c) t"
proof -
  define i where "i = (case ty_indentString opts of Some i \<Rightarrow> i | None \<Rightarrow> default_indent)"
  have sp: "\<forall>c \<in> set i. js_space c" and nl: "newline \<notin> set i"
    using assms by (auto simp: i_def default_indent_def js_space_def split: option.split)
  have ch: "formatChineseTypography (formatChineseTypography t opts) opts = formatChineseTypography t opts"
    by (simp add: formatChineseTypography_def flip: i_def)
      (simp add: split_formatted[OF nl] format_lines_twice[OF sp])
  have lt: "letters (formatChineseTypography t opts) = letters t"
    by (simp add: formatChineseTypography_def flip: i_def)
      (simp add: letters_join letters_format_lines[OF sp] letters_split)
  have we: "letters (formatWesternTypography t) = letters t"
    by (simp add: formatWesternTypography_def letters_join comp_def collapse_letters letters_split)
  show ?thesis using ch lt we western_idem by (simp add: formatTypography_def)
qed

lemma formatting_idempotent_witness:
  "formatTypography (formatTypography [97, 10, 98] DEFAULT_CHINESE_TYPOGRAPHY (Some Chinese))
     DEFAULT_CHINESE_TYPOGRAPHY (Some Chinese) = [0x3000, 0x3000, 97, 10, 0x3000, 0x3000, 98]"
proof -
  have "formatTypography [97, 10, 98] DEFAULT_CHINESE_TYPOGRAPHY (Some Chinese) =
      [0x3000, 0x3000, 97, 10, 0x3000, 0x3000, 98]"
    by (simp add: formatTypography_def formatChineseTypography_def DEFAULT_CHINESE_TYPOGRAPHY_def
        default_indent_def format_line_def trim_start_def js_space_def starts_with_def fence_def
        unindented_def heading_mark_def bullet_mark_def number_mark_def scene_mark_def chapter_mark_def
        space_next_def upper_ascii_def is_digit_unit_def)
  then show ?thesis
    using formatting_idempotent[of DEFAULT_CHINESE_TYPOGRAPHY "[97, 10, 98]" "Some Chinese"]
    by (simp add: DEFAULT_CHINESE_TYPOGRAPHY_def default_indent_def js_space_def)
qed

end
