(* ===== verification/RpcLimits.thy ===== *)
theory RpcLimits
  imports JsText
begin

text \<open>
  \<open>packages/protocol/src/rpc-limits.ts\<close> and \<open>rpc-buffered-send.ts\<close>: the limits of the RPC transports, the
  line buffer that reassembles frames from chunks, the window of bytes in flight, and the sender
  that resolves each send once the socket has drained. A \<open>release\<close> closure is the number of its
  reservation, and the flag it closes over is in the window. The amount the host reports
  (\<open>None\<close> when it is not finite), the outcome of \<open>sendMessage\<close> and the clock are arguments; the calls of
  the \<open>fail\<close> callback and the settled promises are logged.
\<close>

section \<open>Limits\<close>

record rpc_limits =
  rl_maxFrameBytes :: int
  rl_maxQueuedBytes :: int
  rl_maxPendingRequests :: int
  rl_requestTimeoutMs :: int

text \<open>A given option: \<open>None\<close> when the property is absent, \<open>Some None\<close> when it is not a number.\<close>

record partial_limits =
  pl_maxFrameBytes :: "jsnum option option"
  pl_maxQueuedBytes :: "jsnum option option"
  pl_maxPendingRequests :: "jsnum option option"
  pl_requestTimeoutMs :: "jsnum option option"

definition DEFAULT_RPC_LIMITS :: rpc_limits where
  "DEFAULT_RPC_LIMITS =
     \<lparr>rl_maxFrameBytes = 8 * 1024 * 1024, rl_maxQueuedBytes = 16 * 1024 * 1024,
      rl_maxPendingRequests = 256, rl_requestTimeoutMs = 30000\<rparr>"

datatype rpc_error = InvalidLimits | FrameTooLarge | QueueFull | SendFailed | SendTimedOut | Closed

definition given :: "int \<Rightarrow> jsnum option option \<Rightarrow> jsnum option" where
  "given d v = (case v of None \<Rightarrow> Some (NInt d) | Some x \<Rightarrow> x)"

fun limit_value :: "jsnum option \<Rightarrow> int option" where
  "limit_value (Some (NInt i)) = (if is_safe_integer i \<and> 1 \<le> i then Some i else None)"
| "limit_value _ = None"

definition resolveRpcLimits :: "partial_limits \<Rightarrow> (rpc_error, rpc_limits) res" where
  "resolveRpcLimits input =
     (case (limit_value (given (rl_maxFrameBytes DEFAULT_RPC_LIMITS) (pl_maxFrameBytes input)),
            limit_value (given (rl_maxQueuedBytes DEFAULT_RPC_LIMITS) (pl_maxQueuedBytes input)),
            limit_value (given (rl_maxPendingRequests DEFAULT_RPC_LIMITS) (pl_maxPendingRequests input)),
            limit_value (given (rl_requestTimeoutMs DEFAULT_RPC_LIMITS) (pl_requestTimeoutMs input))) of
        (Some frame, Some queued, Some pending, Some timeout) \<Rightarrow>
          if timeout > 2147483647 \<or> queued < frame then Throw InvalidLimits
          else Ok \<lparr>rl_maxFrameBytes = frame, rl_maxQueuedBytes = queued,
                   rl_maxPendingRequests = pending, rl_requestTimeoutMs = timeout\<rparr>
      | _ \<Rightarrow> Throw InvalidLimits)"

definition byte_len :: "jstring \<Rightarrow> nat" where
  "byte_len s = length (text_encode s)"

definition rpcFrameBytes :: "rpc_limits \<Rightarrow> jstring \<Rightarrow> (rpc_error, nat) res" where
  "rpcFrameBytes limits message =
     (let size = byte_len message
      in if int size > rl_maxFrameBytes limits then Throw FrameTooLarge else Ok size)"

section \<open>The line buffer\<close>

record line_buffer =
  lb_fragments :: "jstring list"
  lb_tail :: jstring
  lb_bytes :: nat

definition lb_clear :: line_buffer where
  "lb_clear = \<lparr>lb_fragments = [], lb_tail = [], lb_bytes = 0\<rparr>"

text \<open>A fragment of a line within the limit is stored: long ones as they are, short ones gathered in the tail.\<close>

definition store_fragment :: "jstring \<Rightarrow> line_buffer \<Rightarrow> line_buffer" where
  "store_fragment fragment lb =
     (if 1024 \<le> length fragment then
        lb\<lparr>lb_fragments := (if lb_tail lb \<noteq> [] then lb_fragments lb @ [lb_tail lb] else lb_fragments lb) @ [fragment],
           lb_tail := []\<rparr>
      else let t = lb_tail lb @ fragment
           in if 1024 \<le> length t then lb\<lparr>lb_fragments := lb_fragments lb @ [t], lb_tail := []\<rparr>
              else lb\<lparr>lb_tail := t\<rparr>)"

definition lb_text :: "line_buffer \<Rightarrow> jstring" where
  "lb_text lb = concat (lb_fragments lb) @ lb_tail lb"

lemma shorter_after: "chunk \<noteq> [] \<Longrightarrow> length (tl (dropWhile P chunk)) < length chunk"
  by (metis (no_types, lifting) diff_less length_dropWhile_le length_greater_0_conv length_tl
      less_le_trans less_numeral_extra(1) list.sel(2) not_le order.strict_trans2 zero_less_diff)

function line_loop :: "rpc_limits \<Rightarrow> jstring \<Rightarrow> jstring list \<Rightarrow> line_buffer \<Rightarrow> (rpc_error, jstring list) res \<times> line_buffer" where
  "line_loop limits chunk messages lb =
     (if chunk = [] then (Ok messages, lb)
      else let fragment = takeWhile (\<lambda>c. c \<noteq> newline) chunk;
               after = dropWhile (\<lambda>c. c \<noteq> newline) chunk;
               lb1 = lb\<lparr>lb_bytes := lb_bytes lb + byte_len fragment\<rparr>
           in if int (lb_bytes lb1) > rl_maxFrameBytes limits then (Throw FrameTooLarge, lb_clear)
              else let lb2 = store_fragment fragment lb1
                   in if after = [] then (Ok messages, lb2)
                      else let message = js_trim (lb_text lb2)
                           in line_loop limits (tl after) (if message \<noteq> [] then messages @ [message] else messages) lb_clear)"
  by pat_completeness auto
termination
  by (relation "measure (\<lambda>(limits, chunk, messages, lb). length chunk)")
    (auto simp: shorter_after simp del: length_tl)

declare line_loop.simps [simp del]

definition line_push :: "rpc_limits \<Rightarrow> jstring \<Rightarrow> line_buffer \<Rightarrow> (rpc_error, jstring list) res \<times> line_buffer" where
  "line_push limits chunk lb = line_loop limits chunk [] lb"

section \<open>The send window\<close>

text \<open>One entry per reservation: its bytes and whether it has been released.\<close>

record send_window =
  sw_queuedBytes :: int
  sw_reservations :: "(nat \<times> bool) list"

definition newWindow :: send_window where
  "newWindow = \<lparr>sw_queuedBytes = 0, sw_reservations = []\<rparr>"

definition reserve_bytes :: "rpc_limits \<Rightarrow> jstring \<Rightarrow> int option \<Rightarrow> send_window \<Rightarrow> (rpc_error, nat) res \<times> send_window" where
  "reserve_bytes limits message nativeQueuedBytes w =
     (case rpcFrameBytes limits message of
        Inl e \<Rightarrow> (Throw e, w)
      | Inr bytes \<Rightarrow>
          let nativeBytes = (case nativeQueuedBytes of Some n \<Rightarrow> max 0 n | None \<Rightarrow> 0)
          in if max (sw_queuedBytes w) nativeBytes + int bytes > rl_maxQueuedBytes limits then (Throw QueueFull, w)
             else (Ok (length (sw_reservations w)),
                   w\<lparr>sw_queuedBytes := sw_queuedBytes w + int bytes,
                     sw_reservations := sw_reservations w @ [(bytes, False)]\<rparr>))"

definition release_bytes :: "nat \<Rightarrow> send_window \<Rightarrow> send_window" where
  "release_bytes r w =
     (if r < length (sw_reservations w) \<and> \<not> snd (sw_reservations w ! r) then
        let bytes = fst (sw_reservations w ! r)
        in w\<lparr>sw_queuedBytes := sw_queuedBytes w - int bytes,
             sw_reservations := (sw_reservations w)[r := (bytes, True)]\<rparr>
      else w)"

section \<open>The buffered sender\<close>

datatype settled = Resolved | Rejected rpc_error

record sender =
  bs_window :: send_window
  bs_pending :: "(nat \<times> nat) list"
  bs_timer :: bool
  bs_deadline :: "int option"
  bs_closedError :: "rpc_error option"
  bs_next :: nat
  bs_settled :: "(nat \<times> settled) list"
  bs_failures :: "rpc_error list"

definition newSender :: sender where
  "newSender = \<lparr>bs_window = newWindow, bs_pending = [], bs_timer = False, bs_deadline = None,
     bs_closedError = None, bs_next = 0, bs_settled = [], bs_failures = []\<rparr>"

definition settle_send :: "nat \<Rightarrow> settled \<Rightarrow> sender \<Rightarrow> sender" where
  "settle_send p v s = s\<lparr>bs_settled := bs_settled s @ [(p, v)]\<rparr>"

text \<open>
  \<open>before\<close> and \<open>behind\<close> are the two readings of the buffered amount, \<open>thrown\<close> what \<open>sendMessage\<close> threw.
\<close>

definition send :: "rpc_limits \<Rightarrow> int \<Rightarrow> int option \<Rightarrow> rpc_error option \<Rightarrow> int option \<Rightarrow> jstring \<Rightarrow> sender \<Rightarrow> nat \<times> sender" where
  "send limits now before thrown behind message s0 =
     (let p = bs_next s0; s = s0\<lparr>bs_next := p + 1\<rparr>
      in case bs_closedError s of
           Some e \<Rightarrow> (p, settle_send p (Rejected e) s)
         | None \<Rightarrow>
             (case reserve_bytes limits message before (bs_window s) of
                (Inl failure, _) \<Rightarrow> (p, settle_send p (Rejected failure) (s\<lparr>bs_failures := bs_failures s @ [failure]\<rparr>))
              | (Inr r, w) \<Rightarrow>
                  (case thrown of
                     Some e \<Rightarrow> (p, settle_send p (Rejected e) (s\<lparr>bs_window := release_bytes r w\<rparr>))
                   | None \<Rightarrow>
                       if behind = Some 0 then (p, settle_send p Resolved (s\<lparr>bs_window := release_bytes r w\<rparr>))
                       else (p, s\<lparr>bs_window := w, bs_pending := bs_pending s @ [(r, p)],
                                  bs_deadline := (case bs_deadline s of
                                      Some d \<Rightarrow> Some d | None \<Rightarrow> Some (now + rl_requestTimeoutMs limits)),
                                  bs_timer := True\<rparr>))))"

definition settle_all :: "settled \<Rightarrow> sender \<Rightarrow> sender" where
  "settle_all v s = s\<lparr>bs_window := fold (\<lambda>(r, p). release_bytes r) (bs_pending s) (bs_window s),
     bs_settled := bs_settled s @ map (\<lambda>(r, p). (p, v)) (bs_pending s), bs_pending := []\<rparr>"

definition close :: "rpc_error \<Rightarrow> sender \<Rightarrow> sender" where
  "close e s =
     (let s1 = s\<lparr>bs_closedError := (case bs_closedError s of Some e0 \<Rightarrow> Some e0 | None \<Rightarrow> Some e),
                 bs_timer := False, bs_deadline := None\<rparr>
      in settle_all (Rejected e) s1)"

definition poll :: "int \<Rightarrow> int option \<Rightarrow> sender \<Rightarrow> sender" where
  "poll now buffered s0 =
     (let s = s0\<lparr>bs_timer := False\<rparr>
      in if bs_closedError s \<noteq> None then s
         else if buffered = Some 0 then (settle_all Resolved s)\<lparr>bs_deadline := None\<rparr>
         else if (case bs_deadline s of Some d \<Rightarrow> d | None \<Rightarrow> 0) \<le> now then
           s\<lparr>bs_failures := bs_failures s @ [SendTimedOut]\<rparr>
         else s\<lparr>bs_timer := True\<rparr>)"

text \<open>The timer callback runs only while its timer is set.\<close>

inductive sender_reach :: "rpc_limits \<Rightarrow> sender \<Rightarrow> bool" for limits where
  new: "sender_reach limits newSender"
| send: "sender_reach limits s \<Longrightarrow> sender_reach limits (snd (send limits now before thrown behind m s))"
| close: "sender_reach limits s \<Longrightarrow> sender_reach limits (close e s)"
| poll: "sender_reach limits s \<Longrightarrow> bs_timer s \<Longrightarrow> sender_reach limits (poll now buffered s)"

section \<open>Limits are sound\<close>

text \<open>
  \<open>resolveRpcLimits\<close> returns limits exactly for options whose merge with the defaults is made of
  positive safe integers with a timer that fits 31 bits and a queue that holds at least one frame; it
  returns that merge, and throws otherwise.
\<close>

lemma limits_sound:
  "(resolveRpcLimits input = Ok l \<longleftrightarrow>
      given (rl_maxFrameBytes DEFAULT_RPC_LIMITS) (pl_maxFrameBytes input) = Some (NInt (rl_maxFrameBytes l)) \<and>
      given (rl_maxQueuedBytes DEFAULT_RPC_LIMITS) (pl_maxQueuedBytes input) = Some (NInt (rl_maxQueuedBytes l)) \<and>
      given (rl_maxPendingRequests DEFAULT_RPC_LIMITS) (pl_maxPendingRequests input) = Some (NInt (rl_maxPendingRequests l)) \<and>
      given (rl_requestTimeoutMs DEFAULT_RPC_LIMITS) (pl_requestTimeoutMs input) = Some (NInt (rl_requestTimeoutMs l)) \<and>
      1 \<le> rl_maxFrameBytes l \<and> rl_maxFrameBytes l \<le> rl_maxQueuedBytes l \<and> rl_maxQueuedBytes l \<le> MAX_SAFE_INTEGER \<and>
      1 \<le> rl_maxPendingRequests l \<and> rl_maxPendingRequests l \<le> MAX_SAFE_INTEGER \<and>
      1 \<le> rl_requestTimeoutMs l \<and> rl_requestTimeoutMs l \<le> 2 ^ 31 - 1) \<and>
   (resolveRpcLimits input = Throw InvalidLimits \<longleftrightarrow> (\<nexists>l. resolveRpcLimits input = Ok l))"
proof -
  have v: "limit_value x = Some i \<longleftrightarrow> x = Some (NInt i) \<and> 1 \<le> i \<and> i \<le> MAX_SAFE_INTEGER" for x i
    by (cases x rule: limit_value.cases) (auto simp: is_safe_integer_def MAX_SAFE_INTEGER_def)
  have "resolveRpcLimits input = Ok l \<longleftrightarrow>
      limit_value (given (rl_maxFrameBytes DEFAULT_RPC_LIMITS) (pl_maxFrameBytes input)) = Some (rl_maxFrameBytes l) \<and>
      limit_value (given (rl_maxQueuedBytes DEFAULT_RPC_LIMITS) (pl_maxQueuedBytes input)) = Some (rl_maxQueuedBytes l) \<and>
      limit_value (given (rl_maxPendingRequests DEFAULT_RPC_LIMITS) (pl_maxPendingRequests input)) = Some (rl_maxPendingRequests l) \<and>
      limit_value (given (rl_requestTimeoutMs DEFAULT_RPC_LIMITS) (pl_requestTimeoutMs input)) = Some (rl_requestTimeoutMs l) \<and>
      rl_requestTimeoutMs l \<le> 2147483647 \<and> rl_maxFrameBytes l \<le> rl_maxQueuedBytes l"
    by (cases l) (auto simp: resolveRpcLimits_def split: option.splits)
  moreover have "resolveRpcLimits input = Throw InvalidLimits \<longleftrightarrow> (\<nexists>l. resolveRpcLimits input = Ok l)"
    by (auto simp: resolveRpcLimits_def split: option.splits)
  ultimately show ?thesis unfolding v by (auto simp: MAX_SAFE_INTEGER_def)
qed

section \<open>The line buffer splits the stream\<close>

lemma byte_len_Nil [simp]: "byte_len [] = 0"
  by (simp add: byte_len_def text_encode_def)

lemma code_points_low: "is_low v \<Longrightarrow> code_points (v # us) = 0xFFFD # code_points us"
  by (cases us) (auto simp: is_low_def is_high_def)

lemma utf8_cp_length: "1 \<le> length (utf8_cp c) \<and> length (utf8_cp c) \<le> 4"
  by (simp add: utf8_cp_def)

lemma utf8_fffd: "length (utf8_cp 0xFFFD) = 3"
  by (simp add: utf8_cp_def)

lemma byte_len_append: "byte_len (a @ b) \<le> byte_len a + byte_len b"
proof (induction a rule: code_points.induct)
  case (2 u)
  show ?case
  proof (cases b)
    case (Cons v us)
    have "length (utf8_cp (0x10000 + (u - 0xD800) * 1024 + (v - 0xDC00))) \<le> 4" using utf8_cp_length by blast
    then show ?thesis
      using Cons by (simp add: byte_len_def text_encode_def code_points_low utf8_fffd)
  qed simp
next
  case (3 u v us)
  then show ?case by (auto simp: byte_len_def text_encode_def)
qed simp

definition partial_line :: "jstring \<Rightarrow> jstring" where
  "partial_line s = last (split_lines s)"

definition message_lines :: "jstring \<Rightarrow> jstring list" where
  "message_lines s = filter (\<lambda>m. m \<noteq> []) (map js_trim (butlast (split_lines s)))"

lemma split_lines_append: "split_lines (a @ b) = butlast (split_lines a) @ split_lines (partial_line a @ b)"
proof (induction a)
  case (Cons c a)
  obtain l ls where s: "split_lines a = l # ls" by (cases "split_lines a") auto
  show ?case
  proof (cases ls)
    case Nil
    then show ?thesis using Cons s by (simp add: partial_line_def split: list.split)
  next
    case (Cons m ms)
    then show ?thesis using Cons.IH s by (simp add: partial_line_def split: list.split)
  qed
qed (simp add: partial_line_def)

lemma partial_append: "partial_line (a @ b) = partial_line (partial_line a @ b)"
  using split_lines_append[of a b] by (simp add: partial_line_def)

lemma message_append: "message_lines (a @ b) = message_lines a @ message_lines (partial_line a @ b)"
  using split_lines_append[of a b] by (simp add: message_lines_def butlast_append)

lemma partial_no_newline: "newline \<notin> set (partial_line s)"
  using split_lines_newline[of "partial_line s" s] by (simp add: partial_line_def)

lemma lb_clear_text [simp]: "lb_text lb_clear = []" "lb_bytes lb_clear = 0"
  by (simp_all add: lb_text_def lb_clear_def)

lemma store_text [simp]:
  "lb_text (store_fragment f lb) = lb_text lb @ f" "lb_bytes (store_fragment f lb) = lb_bytes lb"
  by (auto simp: store_fragment_def lb_text_def Let_def)

lemma store_tail: "length (lb_tail lb) < 1024 \<Longrightarrow> length (lb_tail (store_fragment f lb)) < 1024"
  by (auto simp: store_fragment_def Let_def)

lemma lb_text_bytes [simp]: "lb_text (lb\<lparr>lb_bytes := n\<rparr>) = lb_text lb"
  by (simp add: lb_text_def)

lemma chunk_end:
  "dropWhile (\<lambda>c. c \<noteq> newline) s = [] \<Longrightarrow> takeWhile (\<lambda>c. c \<noteq> newline) s = s \<and> newline \<notin> set s"
  by (induction s) (auto split: if_splits)

lemma chunk_more:
  "dropWhile (\<lambda>c. c \<noteq> newline) s \<noteq> [] \<Longrightarrow>
     s = takeWhile (\<lambda>c. c \<noteq> newline) s @ newline # tl (dropWhile (\<lambda>c. c \<noteq> newline) s)"
  by (induction s) (auto split: if_splits)

lemma no_newline_takeWhile: "newline \<notin> set (takeWhile (\<lambda>c. c \<noteq> newline) s)"
  by (auto dest: set_takeWhileD)

lemma line_loop_ok:
  "line_loop limits chunk ms lb = (Inr out, lb') \<Longrightarrow> newline \<notin> set (lb_text lb) \<Longrightarrow>
     out = ms @ message_lines (lb_text lb @ chunk) \<and> lb_text lb' = partial_line (lb_text lb @ chunk)"
proof (induction limits chunk ms lb rule: line_loop.induct)
  case (1 limits chunk ms lb)
  let ?f = "takeWhile (\<lambda>c. c \<noteq> newline) chunk" and ?a = "dropWhile (\<lambda>c. c \<noteq> newline) chunk"
  let ?lb1 = "lb\<lparr>lb_bytes := lb_bytes lb + byte_len ?f\<rparr>"
  show ?case
  proof (cases "chunk = [] \<or> ?a = []")
    case True
    then have n: "newline \<notin> set (lb_text lb @ chunk)" using "1.prems"(2) chunk_end[of chunk] by auto
    have "out = ms \<and> lb_text lb' = lb_text lb @ chunk"
      using True "1.prems"(1) chunk_end[of chunk]
      by (auto simp: line_loop.simps[of limits chunk] Let_def split: if_splits)
    then show ?thesis using split_one[OF n] by (simp add: message_lines_def partial_line_def)
  next
    case False
    then have c: "chunk \<noteq> []" "?a \<noteq> []" by auto
    let ?m = "js_trim (lb_text (store_fragment ?f ?lb1))"
    have fit: "\<not> int (lb_bytes ?lb1) > rl_maxFrameBytes limits"
      using c "1.prems"(1) by (auto simp: line_loop.simps[of limits chunk] Let_def split: if_splits)
    have r: "line_loop limits (tl ?a) (if ?m \<noteq> [] then ms @ [?m] else ms) lb_clear = (Inr out, lb')"
      using c fit "1.prems"(1)
      by (simp add: line_loop.simps[of limits chunk] Let_def del: dropWhile_eq_Nil_conv store_text)
    have ih: "out = (if ?m \<noteq> [] then ms @ [?m] else ms) @ message_lines (tl ?a) \<and> lb_text lb' = partial_line (tl ?a)"
      using "1.IH"[OF c(1) refl refl refl fit refl c(2) refl r] by simp
    have "newline \<notin> set (lb_text lb @ ?f)" using "1.prems"(2) no_newline_takeWhile by auto
    then have s: "split_lines (lb_text lb @ chunk) = (lb_text lb @ ?f) # split_lines (tl ?a)"
      using chunk_more[OF c(2)] split_append[of "lb_text lb @ ?f" "tl ?a"] by simp
    show ?thesis using ih by (simp add: message_lines_def partial_line_def s)
  qed
qed

definition lb_ok :: "rpc_limits \<Rightarrow> line_buffer \<Rightarrow> bool" where
  "lb_ok limits lb \<longleftrightarrow> byte_len (lb_text lb) \<le> lb_bytes lb \<and> int (lb_bytes lb) \<le> rl_maxFrameBytes limits \<and>
     length (lb_tail lb) < 1024"

lemma lb_ok_clear: "0 \<le> rl_maxFrameBytes limits \<Longrightarrow> lb_ok limits lb_clear"
  by (simp add: lb_ok_def) (simp add: lb_clear_def)

lemma line_loop_bounded:
  "lb_ok limits lb \<Longrightarrow> 0 \<le> rl_maxFrameBytes limits \<Longrightarrow> lb_ok limits (snd (line_loop limits chunk ms lb))"
proof (induction limits chunk ms lb rule: line_loop.induct)
  case (1 limits chunk ms lb)
  let ?f = "takeWhile (\<lambda>c. c \<noteq> newline) chunk" and ?a = "dropWhile (\<lambda>c. c \<noteq> newline) chunk"
  let ?lb1 = "lb\<lparr>lb_bytes := lb_bytes lb + byte_len ?f\<rparr>"
  consider "chunk = []" | "chunk \<noteq> []" "int (lb_bytes ?lb1) > rl_maxFrameBytes limits"
    | "chunk \<noteq> []" "\<not> int (lb_bytes ?lb1) > rl_maxFrameBytes limits" by blast
  then show ?case
  proof cases
    case 3
    have st: "lb_ok limits (store_fragment ?f ?lb1)"
      using 3(2) "1.prems"(1) byte_len_append[of "lb_text lb" ?f] store_tail[of ?lb1 ?f] by (simp add: lb_ok_def)
    have ih: "?a \<noteq> [] \<Longrightarrow> lb_ok limits (snd (line_loop limits (tl ?a)
        (if js_trim (lb_text (store_fragment ?f ?lb1)) \<noteq> [] then ms @ [js_trim (lb_text (store_fragment ?f ?lb1))] else ms) lb_clear))"
      using "1.IH"[OF 3(1) refl refl refl 3(2) refl _ refl lb_ok_clear[OF "1.prems"(2)] "1.prems"(2)] by blast
    show ?thesis
      unfolding line_loop.simps[of limits chunk] Let_def using 3 st ih by (simp del: dropWhile_eq_Nil_conv store_text)
  qed (use "1.prems" lb_ok_clear in \<open>simp_all add: line_loop.simps[of limits chunk] line_loop.simps[of limits "[]"] Let_def\<close>)
qed

lemma line_loop_accepts:
  "is_ok (fst (line_loop limits chunk ms lb)) \<longleftrightarrow>
     (chunk \<noteq> [] \<longrightarrow> int (lb_bytes lb + byte_len (hd (split_lines chunk))) \<le> rl_maxFrameBytes limits) \<and>
     (\<forall>l \<in> set (tl (split_lines chunk)). int (byte_len l) \<le> rl_maxFrameBytes limits)"
  if "0 \<le> rl_maxFrameBytes limits"
  using that
proof (induction limits chunk ms lb rule: line_loop.induct)
  case (1 limits chunk ms lb)
  let ?f = "takeWhile (\<lambda>c. c \<noteq> newline) chunk" and ?a = "dropWhile (\<lambda>c. c \<noteq> newline) chunk"
  let ?lb1 = "lb\<lparr>lb_bytes := lb_bytes lb + byte_len ?f\<rparr>"
  consider "chunk = []" | "chunk \<noteq> []" "?a = []" | "chunk \<noteq> []" "?a \<noteq> []" by blast
  then show ?case
  proof cases
    case 2
    then show ?thesis
      using chunk_end[OF 2(2)] split_one[of chunk]
      by (simp add: line_loop.simps[of limits chunk] Let_def not_less del: dropWhile_eq_Nil_conv takeWhile_eq_all_conv)
  next
    case 3
    have s: "split_lines chunk = ?f # split_lines (tl ?a)"
      using chunk_more[OF 3(2)] split_append[OF no_newline_takeWhile, of chunk "tl ?a"] by simp
    show ?thesis
    proof (cases "int (lb_bytes ?lb1) > rl_maxFrameBytes limits")
      case True
      then show ?thesis using 3 s by (simp add: line_loop.simps[of limits chunk] Let_def)
    next
      case False
      let ?m = "js_trim (lb_text (store_fragment ?f ?lb1))"
      have "is_ok (fst (line_loop limits chunk ms lb)) =
          is_ok (fst (line_loop limits (tl ?a) (if ?m \<noteq> [] then ms @ [?m] else ms) lb_clear))"
        using 3 False by (simp add: line_loop.simps[of limits chunk] Let_def del: dropWhile_eq_Nil_conv)
      also have "\<dots> = ((tl ?a \<noteq> [] \<longrightarrow> int (lb_bytes lb_clear + byte_len (hd (split_lines (tl ?a)))) \<le> rl_maxFrameBytes limits) \<and>
          (\<forall>l \<in> set (tl (split_lines (tl ?a))). int (byte_len l) \<le> rl_maxFrameBytes limits))"
        by (rule "1.IH"[OF 3(1) refl refl refl False refl 3(2) refl "1.prems"])
      also have "\<dots> = (\<forall>l \<in> set (split_lines (tl ?a)). int (byte_len l) \<le> rl_maxFrameBytes limits)"
        using "1.prems" by (cases "tl ?a = []"; cases "split_lines (tl ?a)") auto
      finally show ?thesis using 3 False by (simp add: s)
    qed
  qed (simp add: line_loop.simps[of limits "[]"])
qed

fun line_push_all :: "rpc_limits \<Rightarrow> jstring list \<Rightarrow> line_buffer \<Rightarrow> (rpc_error, jstring list) res \<times> line_buffer" where
  "line_push_all limits [] lb = (Ok [], lb)"
| "line_push_all limits (c # cs) lb =
     (case line_push limits c lb of
        (Inl e, lb') \<Rightarrow> (Throw e, lb')
      | (Inr ms, lb') \<Rightarrow> (case line_push_all limits cs lb' of
                          (Inl e, lb'') \<Rightarrow> (Throw e, lb'') | (Inr ns, lb'') \<Rightarrow> (Ok (ms @ ns), lb'')))"

lemma line_push_all_ok:
  "line_push_all limits cs lb = (Inr out, lb') \<Longrightarrow> newline \<notin> set (lb_text lb) \<Longrightarrow>
     out = message_lines (lb_text lb @ concat cs) \<and> lb_text lb' = partial_line (lb_text lb @ concat cs)"
proof (induction cs arbitrary: lb out)
  case Nil
  then show ?case using split_one[of "lb_text lb"] by (simp add: message_lines_def partial_line_def)
next
  case (Cons c cs)
  obtain ms lb1 ns where p: "line_push limits c lb = (Inr ms, lb1)" "line_push_all limits cs lb1 = (Inr ns, lb')" "out = ms @ ns"
    using Cons.prems(1) by (auto split: prod.splits sum.splits)
  have A: "ms = message_lines (lb_text lb @ c)" "lb_text lb1 = partial_line (lb_text lb @ c)"
    using line_loop_ok[of limits c "[]" lb ms lb1] p(1) Cons.prems(2) by (simp_all add: line_push_def)
  then have "newline \<notin> set (lb_text lb1)" using partial_no_newline by simp
  note B = Cons.IH[OF p(2) this]
  show ?case
    using A B p(3) message_append[of "lb_text lb @ c" "concat cs"] partial_append[of "lb_text lb @ c" "concat cs"]
    by simp
qed

lemma line_push_all_bounded:
  "lb_ok limits lb \<Longrightarrow> 0 \<le> rl_maxFrameBytes limits \<Longrightarrow> lb_ok limits (snd (line_push_all limits cs lb))"
proof (induction cs arbitrary: lb)
  case (Cons c cs)
  obtain r lb1 where p: "line_push limits c lb = (r, lb1)" by fastforce
  obtain r2 lb2 where q: "line_push_all limits cs lb1 = (r2, lb2)" by fastforce
  have "lb_ok limits lb1" using line_loop_bounded[OF Cons.prems, of c "[]"] p by (simp add: line_push_def)
  then have "lb_ok limits lb2" using Cons.IH[of lb1] Cons.prems(2) q by simp
  then show ?case using p q \<open>lb_ok limits lb1\<close> by (cases r; cases r2) simp_all
qed simp

section \<open>What each line costs\<close>

text \<open>
  The bytes counted for each line of the stream, the unfinished one last, when \<open>n\<close> were counted for the
  line that is open: every chunk adds those of its piece of the line.
\<close>

fun line_costs :: "nat \<Rightarrow> jstring list \<Rightarrow> nat list" where
  "line_costs n [] = [n]"
| "line_costs n (c # cs) =
     (case map byte_len (split_lines c) of
        [] \<Rightarrow> line_costs n cs
      | [l] \<Rightarrow> line_costs (n + l) cs
      | l # m # ls \<Rightarrow> (n + l) # butlast (m # ls) @ line_costs (last (m # ls)) cs)"

lemma split_lines_single: "split_lines s = [l] \<Longrightarrow> l = s"
  using join_split[of s] by simp

lemma split_prefix: "newline \<notin> set p \<Longrightarrow> split_lines c = l # ls \<Longrightarrow> split_lines (p @ c) = (p @ l) # ls"
  by (induction p) auto

lemma line_costs_open: "\<exists>m \<in> set (line_costs n cs). n \<le> m"
proof (induction cs arbitrary: n)
  case (Cons c cs)
  obtain l ls where s: "split_lines c = l # ls" by (cases "split_lines c") auto
  show ?case
  proof (cases ls)
    case Nil
    then show ?thesis using s Cons.IH[of "n + byte_len l"] by (auto intro: order_trans[OF le_add1])
  qed (simp add: s)
qed simp

lemma line_loop_bytes:
  "line_loop limits chunk ms lb = (Inr out, lb') \<Longrightarrow>
     lb_bytes lb' = (if tl (split_lines chunk) = [] then lb_bytes lb + byte_len chunk else byte_len (last (split_lines chunk)))"
proof (induction limits chunk ms lb rule: line_loop.induct)
  case (1 limits chunk ms lb)
  let ?f = "takeWhile (\<lambda>c. c \<noteq> newline) chunk" and ?a = "dropWhile (\<lambda>c. c \<noteq> newline) chunk"
  let ?lb1 = "lb\<lparr>lb_bytes := lb_bytes lb + byte_len ?f\<rparr>"
  show ?case
  proof (cases "chunk = [] \<or> ?a = []")
    case True
    then have n: "split_lines chunk = [chunk]" using chunk_end[of chunk] split_one[of chunk] by auto
    have f: "?f = chunk" using True chunk_end[of chunk] by auto
    have "lb_bytes lb' = lb_bytes lb + byte_len chunk"
      using True "1.prems"
      by (simp add: line_loop.simps[of limits chunk] Let_def f del: dropWhile_eq_Nil_conv takeWhile_eq_all_conv split: if_splits)
        (auto simp: f)
    then show ?thesis by (simp add: n)
  next
    case False
    then have c: "chunk \<noteq> []" "?a \<noteq> []" by auto
    let ?m = "js_trim (lb_text (store_fragment ?f ?lb1))"
    have fit: "\<not> int (lb_bytes ?lb1) > rl_maxFrameBytes limits"
      using c "1.prems" by (auto simp: line_loop.simps[of limits chunk] Let_def split: if_splits)
    have r: "line_loop limits (tl ?a) (if ?m \<noteq> [] then ms @ [?m] else ms) lb_clear = (Inr out, lb')"
      using c fit "1.prems" by (simp add: line_loop.simps[of limits chunk] Let_def del: dropWhile_eq_Nil_conv store_text)
    have ih: "lb_bytes lb' = (if tl (split_lines (tl ?a)) = [] then byte_len (tl ?a) else byte_len (last (split_lines (tl ?a))))"
      using "1.IH"[OF c(1) refl refl refl fit refl c(2) refl r] by simp
    have s: "split_lines chunk = ?f # split_lines (tl ?a)"
      using chunk_more[OF c(2)] split_append[OF no_newline_takeWhile, of chunk "tl ?a"] by simp
    have "byte_len (last (split_lines (tl ?a))) = byte_len (tl ?a)" if one: "tl (split_lines (tl ?a)) = []"
    proof -
      obtain l where l: "split_lines (tl ?a) = [l]" using one by (metis list.collapse split_lines_not_Nil)
      then show ?thesis using split_lines_single[OF l] by simp
    qed
    then show ?thesis using ih s by auto
  qed
qed

lemma push_all_accepts:
  assumes "0 \<le> rl_maxFrameBytes limits" and "int (lb_bytes lb) \<le> rl_maxFrameBytes limits"
  shows "is_ok (fst (line_push_all limits cs lb)) \<longleftrightarrow> (\<forall>n \<in> set (line_costs (lb_bytes lb) cs). int n \<le> rl_maxFrameBytes limits)"
  using assms(2)
proof (induction cs arbitrary: lb)
  case (Cons c cs)
  obtain l ls where s: "split_lines c = l # ls" by (cases "split_lines c") auto
  obtain r lb1 where p: "line_push limits c lb = (r, lb1)" by fastforce
  have acc: "is_ok r \<longleftrightarrow> int (lb_bytes lb + byte_len l) \<le> rl_maxFrameBytes limits \<and>
      (\<forall>x \<in> set ls. int (byte_len x) \<le> rl_maxFrameBytes limits)"
    using line_loop_accepts[OF assms(1), of c "[]" lb] p s Cons.prems by (cases "c = []") (auto simp: line_push_def)
  have costs: "line_costs (lb_bytes lb) (c # cs) = (if ls = [] then line_costs (lb_bytes lb + byte_len l) cs
      else (lb_bytes lb + byte_len l) # map byte_len (butlast ls) @ line_costs (byte_len (last ls)) cs)"
    by (cases ls) (auto simp: s map_butlast last_map)
  show ?case
  proof (cases r)
    case (Inl e)
    then have bad: "\<not> (int (lb_bytes lb + byte_len l) \<le> rl_maxFrameBytes limits \<and>
        (\<forall>x \<in> set ls. int (byte_len x) \<le> rl_maxFrameBytes limits))" using acc by simp
    have over: "\<exists>n \<in> set (line_costs k cs). \<not> int n \<le> rl_maxFrameBytes limits" if "\<not> int k \<le> rl_maxFrameBytes limits" for k
    proof -
      obtain m where "m \<in> set (line_costs k cs)" "k \<le> m" using line_costs_open by blast
      moreover have "\<not> int m \<le> rl_maxFrameBytes limits" using that \<open>k \<le> m\<close> by linarith
      ultimately show ?thesis by blast
    qed
    have "\<exists>n \<in> set (line_costs (lb_bytes lb) (c # cs)). \<not> int n \<le> rl_maxFrameBytes limits"
    proof (cases "ls = []")
      case True
      then show ?thesis using bad over[of "lb_bytes lb + byte_len l"] unfolding costs by simp
    next
      case False
      have "set (butlast ls @ [last ls]) = insert (last ls) (set (butlast ls))" by simp
      then have ls: "set ls = insert (last ls) (set (butlast ls))" by (simp only: append_butlast_last_id[OF False])
      show ?thesis
      proof (cases "\<not> int (byte_len (last ls)) \<le> rl_maxFrameBytes limits")
        case True
        then show ?thesis using over[of "byte_len (last ls)"] False unfolding costs by auto
      next
        case last: False
        then have "\<not> int (lb_bytes lb + byte_len l) \<le> rl_maxFrameBytes limits \<or>
            (\<exists>x \<in> set (butlast ls). \<not> int (byte_len x) \<le> rl_maxFrameBytes limits)" using bad last by (auto simp: ls)
        then show ?thesis using False unfolding costs by auto
      qed
    qed
    moreover have "fst (line_push_all limits (c # cs) lb) = Inl e" using Inl p by simp
    ultimately show ?thesis by simp
  next
    case (Inr ms)
    then have ok: "int (lb_bytes lb + byte_len l) \<le> rl_maxFrameBytes limits" "\<forall>x \<in> set ls. int (byte_len x) \<le> rl_maxFrameBytes limits"
      using acc by simp_all
    have "line_loop limits c [] lb = (Inr ms, lb1)" using p Inr by (simp add: line_push_def)
    note b = line_loop_bytes[OF this]
    have lb1: "lb_bytes lb1 = (if ls = [] then lb_bytes lb + byte_len l else byte_len (last ls))"
      using split_lines_single[of c l] unfolding b s by simp
    then have "int (lb_bytes lb1) \<le> rl_maxFrameBytes limits" using ok by auto
    note IH = Cons.IH[OF this]
    have "is_ok (fst (line_push_all limits (c # cs) lb)) = is_ok (fst (line_push_all limits cs lb1))"
      using p Inr by (cases "line_push_all limits cs lb1"; cases "fst (line_push_all limits cs lb1)") simp_all
    moreover have fit: "\<forall>x \<in> set (butlast ls). int (byte_len x) \<le> rl_maxFrameBytes limits" using ok(2) in_set_butlastD by fast
    moreover have "(\<forall>n \<in> set (line_costs (lb_bytes lb) (c # cs)). int n \<le> rl_maxFrameBytes limits) \<longleftrightarrow>
        (\<forall>n \<in> set (line_costs (lb_bytes lb1) cs). int n \<le> rl_maxFrameBytes limits)"
      unfolding costs lb1 using ok(1) fit by (cases "ls = []") (simp_all add: ball_Un)
    ultimately show ?thesis using IH by blast
  qed
qed simp

text \<open>When no chunk ends inside a surrogate pair, these are the lengths of the lines of the stream.\<close>

lemma code_points_wf_append: "wf_utf16 a \<Longrightarrow> code_points (a @ b) = code_points a @ code_points b"
proof (induction a rule: code_points.induct)
  case (2 u)
  then show ?case by (cases b) auto
qed auto

lemma byte_len_wf_append: "wf_utf16 a \<Longrightarrow> byte_len (a @ b) = byte_len a + byte_len b"
  by (simp add: byte_len_def text_encode_def code_points_wf_append)

lemma wf_utf16_append: "wf_utf16 a \<Longrightarrow> wf_utf16 b \<Longrightarrow> wf_utf16 (a @ b)"
proof (induction a rule: wf_utf16.induct)
  case (2 u)
  then show ?case by (cases b) auto
qed (auto split: if_splits)

lemma wf_lines: "wf_utf16 s \<Longrightarrow> l \<in> set (split_lines s) \<Longrightarrow> wf_utf16 l"
proof (induction s arbitrary: l rule: wf_utf16.induct)
  case (3 u v us)
  show ?case
  proof (cases "is_high u")
    case True
    then have "u \<noteq> newline" "v \<noteq> newline" "is_low v" "wf_utf16 us" using "3.prems"(1) by (auto simp: is_high_def is_low_def)
    moreover obtain m ms where "split_lines us = m # ms" by (cases "split_lines us") auto
    ultimately show ?thesis using "3.IH"(1)[OF True] "3.prems"(2) True by auto
  next
    case False
    then have w: "\<not> is_low u" "u < 0x10000" "wf_utf16 (v # us)" using "3.prems"(1) by auto
    obtain m ms where m: "split_lines (v # us) = m # ms" by (metis list.exhaust split_lines_not_Nil)
    have "wf_utf16 m" "\<And>x. x \<in> set ms \<Longrightarrow> wf_utf16 x" using "3.IH"(2)[OF False w(3)] m by auto
    moreover have "wf_utf16 (u # m)" using \<open>wf_utf16 m\<close> False w by (cases m) auto
    moreover have "split_lines (u # v # us) = (if u = newline then [] # m # ms else (u # m) # ms)"
      using m by (simp only: split_lines.simps(2)[of u]) simp
    moreover have "wf_utf16 []" by simp
    ultimately show ?thesis using "3.prems"(2) by (metis set_ConsD)
  qed
qed (auto split: if_splits)

lemma line_costs_wf:
  "\<forall>c \<in> set cs. wf_utf16 c \<Longrightarrow> wf_utf16 p \<Longrightarrow> newline \<notin> set p \<Longrightarrow>
     line_costs (byte_len p) cs = map byte_len (split_lines (p @ concat cs))"
proof (induction cs arbitrary: p)
  case Nil
  then show ?case using split_one[of p] by simp
next
  case (Cons c cs)
  obtain l ls where s: "split_lines c = l # ls" by (cases "split_lines c") auto
  have w: "wf_utf16 x" if "x \<in> set (split_lines c)" for x by (rule wf_lines[OF _ that]) (use Cons.prems(1) in simp)
  have nl: "newline \<notin> set x" if "x \<in> set (split_lines c)" for x using split_lines_newline[OF that] .
  have sp: "split_lines (p @ c) = (p @ l) # ls" by (rule split_prefix[OF Cons.prems(3) s])
  show ?case
  proof (cases "ls = []")
    case True
    have "c = l" using split_lines_single[of c l] s True by simp
    then show ?thesis
      using Cons.IH[of "p @ l"] Cons.prems w nl s True byte_len_wf_append[OF Cons.prems(2), of l] by (simp add: wf_utf16_append)
  next
    case False
    have "split_lines ((p @ c) @ concat cs) = (p @ l) # butlast ls @ split_lines (last ls @ concat cs)"
      using split_lines_append[of "p @ c" "concat cs"] sp False by (simp add: partial_line_def)
    moreover have "line_costs (byte_len (last ls)) cs = map byte_len (split_lines (last ls @ concat cs))"
      using Cons.IH[of "last ls"] Cons.prems(1) w nl s False by simp
    moreover have "line_costs (byte_len p) (c # cs) = (byte_len p + byte_len l) # map byte_len (butlast ls) @ line_costs (byte_len (last ls)) cs"
      using False by (cases ls) (auto simp: s map_butlast last_map)
    ultimately show ?thesis using byte_len_wf_append[OF Cons.prems(2), of l] by simp
  qed
qed

text \<open>
  C14: the line buffer refines splitting the whole stream at its newlines: for chunks that do not overflow
  it, whatever their boundaries, the messages are the trimmed non-empty lines in order and the buffer
  holds the unfinished line, never more than \<open>maxFrameBytes\<close> bytes of it. A sequence of chunks is accepted
  exactly when the bytes counted over all its chunks for each line are within the limit; when no chunk ends inside a
  surrogate pair, exactly when every line of the stream is.
\<close>

lemma line_buffer_refines:
  assumes "0 \<le> rl_maxFrameBytes limits"
  shows "(line_push_all limits chunks lb_clear = (Ok ms, lb) \<longrightarrow>
      ms = filter (\<lambda>m. m \<noteq> []) (map js_trim (butlast (split_lines (concat chunks)))) \<and>
      lb_text lb = last (split_lines (concat chunks))) \<and>
    int (byte_len (lb_text (snd (line_push_all limits chunks lb_clear)))) \<le> rl_maxFrameBytes limits \<and>
    (is_ok (fst (line_push_all limits chunks lb_clear)) \<longleftrightarrow>
       (\<forall>n \<in> set (line_costs 0 chunks). int n \<le> rl_maxFrameBytes limits)) \<and>
    ((\<forall>c \<in> set chunks. wf_utf16 c) \<longrightarrow>
       (is_ok (fst (line_push_all limits chunks lb_clear)) \<longleftrightarrow>
          (\<forall>l \<in> set (split_lines (concat chunks)). int (byte_len l) \<le> rl_maxFrameBytes limits)))"
proof -
  have "line_push_all limits chunks lb_clear = (Ok ms, lb) \<Longrightarrow>
      ms = message_lines (concat chunks) \<and> lb_text lb = partial_line (concat chunks)"
    using line_push_all_ok[of limits chunks lb_clear ms lb] by simp
  moreover have "int (byte_len (lb_text (snd (line_push_all limits chunks lb_clear)))) \<le> rl_maxFrameBytes limits"
    using line_push_all_bounded[OF lb_ok_clear[OF assms] assms, of chunks] by (auto simp: lb_ok_def)
  moreover have "is_ok (fst (line_push_all limits chunks lb_clear)) \<longleftrightarrow>
      (\<forall>n \<in> set (line_costs 0 chunks). int n \<le> rl_maxFrameBytes limits)"
    using push_all_accepts[OF assms, of lb_clear chunks] assms by simp
  moreover have "\<forall>c \<in> set chunks. wf_utf16 c \<Longrightarrow> line_costs 0 chunks = map byte_len (split_lines (concat chunks))"
    using line_costs_wf[of chunks "[]"] by simp
  ultimately show ?thesis by (auto simp: message_lines_def partial_line_def)
qed

lemma line_buffer_refines_witness:
  "line_push_all DEFAULT_RPC_LIMITS [[97], [98, 10, 32, 10, 99]] lb_clear =
     (Ok [[97, 98]], \<lparr>lb_fragments = [], lb_tail = [99], lb_bytes = 1\<rparr>) \<and>
   filter (\<lambda>m. m \<noteq> []) (map js_trim (butlast (split_lines [97, 98, 10, 32, 10, 99 :: nat]))) = [[97, 98]] \<and>
   \<not> is_ok (fst (line_push_all (DEFAULT_RPC_LIMITS\<lparr>rl_maxFrameBytes := 1\<rparr>) [[97], [98, 10]] lb_clear))"
proof -
  have u: "byte_len [97] = 1" "byte_len [98] = 1" "byte_len [32] = 1" "byte_len [99] = 1" "byte_len [97, 98] = 2"
    by (simp_all add: byte_len_def text_encode_def is_high_def is_low_def utf8_cp_def)
  have r: "line_push_all DEFAULT_RPC_LIMITS [[97], [98, 10, 32, 10, 99]] lb_clear =
      (Ok [[97, 98]], \<lparr>lb_fragments = [], lb_tail = [99], lb_bytes = 1\<rparr>)"
    by (simp add: line_push_def line_loop.simps DEFAULT_RPC_LIMITS_def lb_clear_def store_fragment_def u
        js_trim_def js_space_def lb_text_def)
  have "\<not> is_ok (fst (line_push_all (DEFAULT_RPC_LIMITS\<lparr>rl_maxFrameBytes := 1\<rparr>) [[97], [98, 10]] lb_clear))"
    using line_buffer_refines[of "DEFAULT_RPC_LIMITS\<lparr>rl_maxFrameBytes := 1\<rparr>" "[[97], [98, 10]]"] u
    by (simp add: is_high_def is_low_def)
  then show ?thesis
    using line_buffer_refines[of DEFAULT_RPC_LIMITS "[[97], [98, 10, 32, 10, 99]]" "[[97, 98]]"] r
    by (simp add: DEFAULT_RPC_LIMITS_def)
qed

text \<open>
  The bytes of a line are summed per chunk, and a chunk that ends between the halves of a surrogate pair
  counts six bytes for four: whether a frame at the limit is accepted depends on the chunk boundaries.
\<close>

lemma split_pair_counts_more:
  "is_ok (fst (line_push (DEFAULT_RPC_LIMITS\<lparr>rl_maxFrameBytes := 4\<rparr>) [0xD83D, 0xDE00, 10] lb_clear)) \<and>
   \<not> is_ok (fst (line_push_all (DEFAULT_RPC_LIMITS\<lparr>rl_maxFrameBytes := 4\<rparr>) [[0xD83D], [0xDE00, 10]] lb_clear))"
proof -
  have u: "byte_len [0xD83D, 0xDE00] = 4" "byte_len [0xD83D] = 3" "byte_len [0xDE00] = 3"
    by (simp_all add: byte_len_def text_encode_def is_high_def is_low_def utf8_cp_def)
  show ?thesis
    by (simp add: line_push_def line_loop.simps u DEFAULT_RPC_LIMITS_def lb_clear_def store_fragment_def Let_def)
qed

section \<open>The window and the sender\<close>

definition queued_sum :: "(nat \<times> bool) list \<Rightarrow> int" where
  "queued_sum rs = (\<Sum>(b, done) \<leftarrow> rs. if done then 0 else int b)"

definition unreleased :: "send_window \<Rightarrow> nat set" where
  "unreleased w = {r. r < length (sw_reservations w) \<and> \<not> snd (sw_reservations w ! r)}"

definition window_ok :: "rpc_limits \<Rightarrow> send_window \<Rightarrow> bool" where
  "window_ok limits w \<longleftrightarrow> sw_queuedBytes w = queued_sum (sw_reservations w) \<and> sw_queuedBytes w \<le> rl_maxQueuedBytes limits"

lemma queued_sum_nonneg: "0 \<le> queued_sum rs"
  by (induction rs) (auto simp: queued_sum_def)

lemma queued_sum_append: "queued_sum (rs @ [(b, False)]) = queued_sum rs + int b"
  by (simp add: queued_sum_def)

lemma queued_sum_release:
  "r < length rs \<Longrightarrow> rs ! r = (b, False) \<Longrightarrow> queued_sum (rs[r := (b, True)]) = queued_sum rs - int b"
  by (induction rs arbitrary: r) (auto simp: queued_sum_def nth_Cons split: nat.splits)

lemma queued_sum_0: "\<forall>r < length rs. snd (rs ! r) \<Longrightarrow> queued_sum rs = 0"
proof (induction rs)
  case (Cons x rs)
  have "snd x" "\<forall>r < length rs. snd (rs ! r)" using Cons.prems by fastforce+
  then show ?case using Cons.IH by (cases x) (simp add: queued_sum_def)
qed (simp add: queued_sum_def)

lemma release_unreleased: "unreleased (release_bytes r w) = unreleased w - {r}"
  by (auto simp: unreleased_def release_bytes_def Let_def nth_list_update split: if_splits)

lemma release_ok: "window_ok limits w \<Longrightarrow> window_ok limits (release_bytes r w)"
proof (cases "r < length (sw_reservations w) \<and> \<not> snd (sw_reservations w ! r)")
  case True
  then have "sw_reservations w ! r = (fst (sw_reservations w ! r), False)" by (metis (full_types) prod.collapse)
  moreover assume "window_ok limits w"
  ultimately show ?thesis using True queued_sum_release[of r "sw_reservations w"]
    by (auto simp: window_ok_def release_bytes_def Let_def)
qed (auto simp: release_bytes_def)

lemma release_all:
  "window_ok limits w \<Longrightarrow> window_ok limits (fold (\<lambda>(r, p). release_bytes r) ps w) \<and>
     unreleased (fold (\<lambda>(r, p). release_bytes r) ps w) = unreleased w - fst ` set ps"
proof (induction ps arbitrary: w)
  case (Cons a ps)
  obtain r p where a: "a = (r, p)" by (cases a)
  have "unreleased w - {r} - fst ` set ps = unreleased w - fst ` set (a # ps)" unfolding a by auto
  then show ?case using Cons.IH[OF release_ok[OF Cons.prems, of r]] unfolding release_unreleased
    by (simp only: a fold_simps o_apply prod.case)
qed simp

lemma reserve_ok:
  assumes "reserve_bytes limits m native w = (Inr r, w')" and "window_ok limits w"
  shows "window_ok limits w' \<and> unreleased w' = insert r (unreleased w) \<and> r \<notin> unreleased w"
  using assms
  by (auto simp: reserve_bytes_def Let_def window_ok_def queued_sum_append unreleased_def nth_append
      split: sum.splits if_splits)

definition sender_inv :: "rpc_limits \<Rightarrow> sender \<Rightarrow> bool" where
  "sender_inv limits s \<longleftrightarrow> window_ok limits (bs_window s) \<and> unreleased (bs_window s) = fst ` set (bs_pending s) \<and>
     distinct (map fst (bs_settled s) @ map snd (bs_pending s)) \<and>
     set (map fst (bs_settled s) @ map snd (bs_pending s)) = {..<bs_next s} \<and>
     (bs_pending s \<noteq> [] \<longrightarrow> bs_closedError s = None \<and> bs_deadline s \<noteq> None \<and>
        (bs_timer s \<or> SendTimedOut \<in> set (bs_failures s)))"

lemma inv_settle_new:
  assumes "sender_inv limits s" and "window_ok limits w" and "unreleased w = unreleased (bs_window s)"
    and "set (bs_failures s) \<subseteq> set fs"
  shows "sender_inv limits (settle_send (bs_next s) v (s\<lparr>bs_next := bs_next s + 1, bs_window := w, bs_failures := fs\<rparr>))"
proof -
  have A: "set (map fst (bs_settled s)) \<union> set (map snd (bs_pending s)) = {..<bs_next s}"
    using assms(1) by (simp add: sender_inv_def)
  then have "bs_next s \<notin> set (map fst (bs_settled s))" "bs_next s \<notin> set (map snd (bs_pending s))" by blast+
  moreover have "insert (bs_next s) (set (map fst (bs_settled s)) \<union> set (map snd (bs_pending s))) = {..<bs_next s + 1}"
    unfolding A by auto
  ultimately show ?thesis
    using assms by (auto simp: sender_inv_def settle_send_def)
qed

lemma inv_settle_all:
  assumes "sender_inv limits s"
  shows "sender_inv limits ((settle_all v s)\<lparr>bs_deadline := d\<rparr>)"
proof -
  have m: "map fst (map (\<lambda>(r, p). (p, v)) ps) = map snd ps" for ps :: "(nat \<times> nat) list"
    by (induction ps) auto
  have "set (map fst (bs_settled s)) \<union> set (map snd (bs_pending s)) = {..<bs_next s}"
    using assms by (simp add: sender_inv_def)
  then show ?thesis
    using assms release_all[of limits "bs_window s" "bs_pending s"]
    unfolding sender_inv_def settle_all_def by (simp add: m del: map_map)
qed

lemma settle_all_pending [simp]: "bs_pending (settle_all v s) = []"
  by (simp add: settle_all_def)

lemma inv_send:
  assumes I: "sender_inv limits s"
  shows "sender_inv limits (snd (send limits now before thrown behind m s))"
proof -
  let ?p = "bs_next s"
  have W: "window_ok limits (bs_window s)" using I by (simp add: sender_inv_def)
  note N = inv_settle_new[OF I _ _ subset_refl]
  show ?thesis
  proof (cases "bs_closedError s")
    case (Some e)
    have "s\<lparr>bs_next := ?p + 1, bs_window := bs_window s, bs_failures := bs_failures s\<rparr> = s\<lparr>bs_next := ?p + 1\<rparr>" by simp
    then show ?thesis using Some N[OF W refl, of "Rejected e"] by (simp add: send_def Let_def)
  next
    case None
    show ?thesis
    proof (cases "reserve_bytes limits m before (bs_window s)")
      case (Pair r w)
      show ?thesis
      proof (cases r)
        case (Inl failure)
        have "s\<lparr>bs_next := ?p + 1, bs_window := bs_window s, bs_failures := bs_failures s @ [failure]\<rparr> =
            s\<lparr>bs_next := ?p + 1, bs_failures := bs_failures s @ [failure]\<rparr>" by simp
        then show ?thesis
          using None Pair Inl inv_settle_new[OF I W refl, of "bs_failures s @ [failure]" "Rejected failure"]
          by (simp add: send_def Let_def subset_insertI)
      next
        case (Inr i)
        have R: "window_ok limits w" "unreleased w = insert i (unreleased (bs_window s))" "i \<notin> unreleased (bs_window s)"
          using reserve_ok[of limits m before "bs_window s" i w] Pair Inr W by auto
        have S: "window_ok limits (release_bytes i w)" "unreleased (release_bytes i w) = unreleased (bs_window s)"
          using R release_ok release_unreleased by auto
        have E: "s\<lparr>bs_next := ?p + 1, bs_window := x, bs_failures := bs_failures s\<rparr> = s\<lparr>bs_next := ?p + 1, bs_window := x\<rparr>"
          for x by simp
        have settled_now: "sender_inv limits (settle_send ?p v (s\<lparr>bs_next := ?p + 1, bs_window := release_bytes i w\<rparr>))" for v
          using N[OF S, of v] by (simp add: E)
        have A: "set (map fst (bs_settled s)) \<union> set (map snd (bs_pending s)) = {..<?p}"
          using I by (simp add: sender_inv_def)
        then have new: "?p \<notin> set (map fst (bs_settled s))" "?p \<notin> set (map snd (bs_pending s))" by blast+
        have "insert ?p (set (map fst (bs_settled s)) \<union> set (map snd (bs_pending s))) = {..<?p + 1}"
          unfolding A by auto
        then have waiting: "sender_inv limits (s\<lparr>bs_next := ?p + 1, bs_window := w, bs_pending := bs_pending s @ [(i, ?p)],
            bs_deadline := (case bs_deadline s of Some d \<Rightarrow> Some d | None \<Rightarrow> Some (now + rl_requestTimeoutMs limits)),
            bs_timer := True\<rparr>)"
          using I R new None by (auto simp: sender_inv_def split: option.split)
        show ?thesis
          using None Pair Inr settled_now waiting by (cases thrown) (simp_all add: send_def Let_def)
      qed
    qed
  qed
qed

lemma inv_close: "sender_inv limits s \<Longrightarrow> sender_inv limits (close e s)"
proof -
  assume I: "sender_inv limits s"
  let ?f = "\<lambda>t. t\<lparr>bs_closedError := (case bs_closedError s of Some e0 \<Rightarrow> Some e0 | None \<Rightarrow> Some e), bs_timer := False,
    bs_deadline := None\<rparr>"
  have "close e s = ?f (settle_all (Rejected e) s)"
    by (cases s) (simp add: close_def settle_all_def Let_def)
  moreover have "sender_inv limits (settle_all (Rejected e) s)"
    using inv_settle_all[OF I, where v = "Rejected e" and d = "bs_deadline (settle_all (Rejected e) s)"] by simp
  ultimately show ?thesis by (simp add: sender_inv_def)
qed

lemma inv_poll: "sender_inv limits s \<Longrightarrow> sender_inv limits (poll now buffered s)"
proof -
  assume I: "sender_inv limits s"
  have T: "(settle_all Resolved (s\<lparr>bs_timer := False\<rparr>))\<lparr>bs_deadline := None\<rparr> =
      ((settle_all Resolved s)\<lparr>bs_deadline := None\<rparr>)\<lparr>bs_timer := False\<rparr>"
    by (simp add: settle_all_def)
  have "sender_inv limits ((settle_all Resolved (s\<lparr>bs_timer := False\<rparr>))\<lparr>bs_deadline := None\<rparr>)"
    unfolding T using inv_settle_all[OF I, where v = Resolved and d = None] by (simp add: sender_inv_def)
  then show ?thesis using I by (auto simp: poll_def Let_def sender_inv_def)
qed

lemma sender_reach_inv:
  assumes "sender_reach limits s" and "0 \<le> rl_maxQueuedBytes limits"
  shows "sender_inv limits s"
  using assms(1)
proof induction
  case new
  then show ?case
    using assms(2) by (simp add: sender_inv_def newSender_def window_ok_def newWindow_def queued_sum_def unreleased_def)
qed (simp_all add: inv_send inv_close inv_poll)

lemma pending_closed: "sender_reach limits s \<Longrightarrow> 0 \<le> rl_maxQueuedBytes limits \<Longrightarrow>
    bs_closedError s \<noteq> None \<Longrightarrow> bs_pending s = []"
  using sender_reach_inv by (fastforce simp: sender_inv_def)

text \<open>
  C26: in every reachable sender the queued bytes are the bytes of the reservations not yet released,
  those are the pending sends, and they never exceed \<open>maxQueuedBytes\<close>; nothing is queued once no send is
  pending.
\<close>

lemma window_bounded:
  assumes "sender_reach limits s" and "0 \<le> rl_maxQueuedBytes limits"
  shows "sw_queuedBytes (bs_window s) = (\<Sum>(b, done) \<leftarrow> sw_reservations (bs_window s). if done then 0 else int b) \<and>
    0 \<le> sw_queuedBytes (bs_window s) \<and> sw_queuedBytes (bs_window s) \<le> rl_maxQueuedBytes limits \<and>
    {r. r < length (sw_reservations (bs_window s)) \<and> \<not> snd (sw_reservations (bs_window s) ! r)} = fst ` set (bs_pending s) \<and>
    (bs_pending s = [] \<longrightarrow> sw_queuedBytes (bs_window s) = 0)"
proof -
  have I: "sw_queuedBytes (bs_window s) = queued_sum (sw_reservations (bs_window s))"
      "sw_queuedBytes (bs_window s) \<le> rl_maxQueuedBytes limits" "unreleased (bs_window s) = fst ` set (bs_pending s)"
    using sender_reach_inv[OF assms] by (simp_all add: sender_inv_def window_ok_def)
  have "bs_pending s = [] \<Longrightarrow> queued_sum (sw_reservations (bs_window s)) = 0"
    using I(3) by (intro queued_sum_0) (auto simp: unreleased_def)
  then show ?thesis using I queued_sum_nonneg by (simp add: queued_sum_def unreleased_def)
qed

lemma window_bounded_witness:
  "sw_queuedBytes (bs_window (snd (send DEFAULT_RPC_LIMITS 0 (Some 0) None (Some 7) [97] newSender))) = 1"
proof -
  let ?s = "snd (send DEFAULT_RPC_LIMITS 0 (Some 0) None (Some 7) [97] newSender)"
  have u: "byte_len [97] = 1" by (simp add: byte_len_def text_encode_def is_high_def is_low_def utf8_cp_def)
  have "sw_reservations (bs_window ?s) = [(1, False)]"
    by (simp add: send_def newSender_def reserve_bytes_def newWindow_def rpcFrameBytes_def u DEFAULT_RPC_LIMITS_def Let_def)
  then show ?thesis
    using window_bounded[OF sender_reach.send[OF sender_reach.new, of DEFAULT_RPC_LIMITS 0 "Some 0" None "Some 7" "[97]"]]
    by (simp add: DEFAULT_RPC_LIMITS_def)
qed

text \<open>
  C28: every promise \<open>send\<close> returned is settled exactly once or still pending; a closed sender has none
  pending; a pending one has its deadline set and its timer running unless a timeout has been reported;
  and a poll that finds the socket drained resolves every pending send.
\<close>

lemma sends_settled_once:
  assumes "sender_reach limits s" and "0 \<le> rl_maxQueuedBytes limits" and "p < bs_next s"
  shows "length (filter (\<lambda>(q, v). q = p) (bs_settled s)) = (if p \<in> snd ` set (bs_pending s) then 0 else 1) \<and>
    (bs_closedError s \<noteq> None \<longrightarrow> bs_pending s = []) \<and>
    (bs_pending s \<noteq> [] \<longrightarrow> bs_deadline s \<noteq> None \<and> (bs_timer s \<or> SendTimedOut \<in> set (bs_failures s))) \<and>
    (p \<in> snd ` set (bs_pending s) \<longrightarrow>
       bs_pending (poll now (Some 0) s) = [] \<and> (p, Resolved) \<in> set (bs_settled (poll now (Some 0) s)))"
proof -
  have I: "distinct (map fst (bs_settled s))" "set (map fst (bs_settled s)) \<inter> set (map snd (bs_pending s)) = {}"
      "set (map fst (bs_settled s)) \<union> set (map snd (bs_pending s)) = {..<bs_next s}"
      "bs_pending s \<noteq> [] \<longrightarrow> bs_closedError s = None \<and> bs_deadline s \<noteq> None \<and> (bs_timer s \<or> SendTimedOut \<in> set (bs_failures s))"
    using sender_reach_inv[OF assms(1,2)] by (simp_all add: sender_inv_def)
  have count: "distinct (map fst xs) \<Longrightarrow>
      length (filter (\<lambda>(q, v). q = p) xs) = (if p \<in> fst ` set xs then 1 else 0)" for xs :: "(nat \<times> settled) list"
    by (induction xs) (auto simp: filter_empty_conv)
  have "p \<in> snd ` set (bs_pending s) \<longleftrightarrow> p \<notin> fst ` set (bs_settled s)" using I(2,3) assms(3) by auto
  moreover have "p \<in> snd ` set (bs_pending s) \<Longrightarrow>
      bs_pending (poll now (Some 0) s) = [] \<and> (p, Resolved) \<in> set (bs_settled (poll now (Some 0) s))"
    using I(4) by (auto simp: poll_def Let_def settle_all_def image_iff)
  ultimately show ?thesis using count[OF I(1)] I(4) by auto
qed

lemma sends_settled_once_witness:
  "(0, Resolved) \<in> set (bs_settled (poll 5 (Some 0) (snd (send DEFAULT_RPC_LIMITS 0 (Some 0) None (Some 7) [97] newSender))))"
proof -
  let ?s = "snd (send DEFAULT_RPC_LIMITS 0 (Some 0) None (Some 7) [97] newSender)"
  have u: "byte_len [97] = 1" by (simp add: byte_len_def text_encode_def is_high_def is_low_def utf8_cp_def)
  have "bs_pending ?s = [(0, 0)]" "bs_next ?s = 1"
    by (simp_all add: send_def newSender_def reserve_bytes_def newWindow_def rpcFrameBytes_def u DEFAULT_RPC_LIMITS_def Let_def)
  then show ?thesis
    using sends_settled_once[OF sender_reach.send[OF sender_reach.new, of DEFAULT_RPC_LIMITS 0 "Some 0" None "Some 7" "[97]"], of 0 5]
    by (simp add: DEFAULT_RPC_LIMITS_def)
qed

end
