(* ===== verification/Clipboard.thy ===== *)
theory Clipboard
  imports JsText "HOL-Library.Sublist" "HOL-Library.Multiset"
begin

text \<open>
  Three containers of \<open>packages/agent-core/src\<close>: the kill ring (\<open>clipboard/kill-ring.ts\<close>), the message queue
  between turns (\<open>queues.ts\<close>) and the fuzzy search over a list of items (\<open>clipboard/fuzzy.ts\<close>). The case
  mapping of \<open>toLowerCase\<close>, a table of the Unicode standard, is an argument of the search.
\<close>

section \<open>The kill ring\<close>

record kill_ring =
  kr_ring :: "jstring list"
  kr_maxEntries :: int
  kr_pointer :: nat

definition newRing :: "int \<Rightarrow> kill_ring" where
  "newRing maxEntries = \<lparr>kr_ring = [], kr_maxEntries = maxEntries, kr_pointer = 0\<rparr>"

definition ring_push :: "jstring \<Rightarrow> kill_ring \<Rightarrow> kill_ring" where
  "ring_push s k =
     (if s = [] then k
      else let ring = s # kr_ring k
           in k\<lparr>kr_ring := (if int (length ring) > kr_maxEntries k then butlast ring else ring), kr_pointer := 0\<rparr>)"

definition ring_peek :: "kill_ring \<Rightarrow> jstring option" where
  "ring_peek k = (if kr_ring k = [] then None else Some (kr_ring k ! kr_pointer k))"

definition ring_rotate :: "kill_ring \<Rightarrow> jstring option \<times> kill_ring" where
  "ring_rotate k =
     (if kr_ring k = [] then (None, k)
      else let p = (kr_pointer k + 1) mod length (kr_ring k)
           in (Some (kr_ring k ! p), k\<lparr>kr_pointer := p\<rparr>))"

definition ring_clear :: "kill_ring \<Rightarrow> kill_ring" where
  "ring_clear k = k\<lparr>kr_ring := [], kr_pointer := 0\<rparr>"

inductive ring_reach :: "int \<Rightarrow> kill_ring \<Rightarrow> bool" for m where
  "ring_reach m (newRing m)"
| "ring_reach m k \<Longrightarrow> ring_reach m (ring_push s k)"
| "ring_reach m k \<Longrightarrow> ring_reach m (snd (ring_rotate k))"
| "ring_reach m k \<Longrightarrow> ring_reach m (ring_clear k)"

lemma ring_bounded:
  "ring_reach m k \<Longrightarrow> 0 \<le> m \<Longrightarrow>
     kr_maxEntries k = m \<and> int (length (kr_ring k)) \<le> m \<and> [] \<notin> set (kr_ring k) \<and>
     (kr_pointer k < length (kr_ring k) \<or> kr_ring k = [] \<and> kr_pointer k = 0)"
proof (induction rule: ring_reach.induct)
  case (2 k s)
  then show ?case
    by (auto simp: ring_push_def Let_def dest: in_set_butlastD)
qed (auto simp: newRing_def ring_rotate_def ring_clear_def Let_def)

lemma ring_push_peek: "s \<noteq> [] \<Longrightarrow> 1 \<le> kr_maxEntries k \<Longrightarrow> ring_peek (ring_push s k) = Some s"
  by (auto simp: ring_push_def ring_peek_def Let_def nth_append nth_butlast)

lemma ring_rotations:
  "kr_ring k \<noteq> [] \<Longrightarrow> kr_pointer k < length (kr_ring k) \<Longrightarrow>
     ((snd \<circ> ring_rotate) ^^ n) k = k\<lparr>kr_pointer := (kr_pointer k + n) mod length (kr_ring k)\<rparr>"
  by (induction n) (auto simp: ring_rotate_def Let_def mod_Suc_eq)

lemma ring_full_turn:
  "kr_ring k \<noteq> [] \<Longrightarrow> kr_pointer k < length (kr_ring k) \<Longrightarrow>
     ((snd \<circ> ring_rotate) ^^ length (kr_ring k)) k = k"
  by (simp add: ring_rotations)

section \<open>The message queue\<close>

datatype queue_mode = DrainAll | OneAtATime

definition queue_put :: "'m list \<Rightarrow> 'm list \<Rightarrow> 'm list" where
  "queue_put messages q = q @ messages"

definition drain :: "queue_mode \<Rightarrow> 'm list \<Rightarrow> 'm list \<times> 'm list" where
  "drain mode q =
     (case q of
        [] \<Rightarrow> ([], [])
      | m # ms \<Rightarrow> (case mode of OneAtATime \<Rightarrow> ([m], ms) | DrainAll \<Rightarrow> (q, [])))"

definition queue_peek :: "'m list \<Rightarrow> 'm option" where
  "queue_peek q = (case q of [] \<Rightarrow> None | m # _ \<Rightarrow> Some m)"

text \<open>A run of the queue: \<open>Inl\<close> enqueues, \<open>Inr\<close> drains; the drained messages and what is left.\<close>

fun queue_run :: "('m list + queue_mode) list \<Rightarrow> 'm list \<Rightarrow> 'm list \<times> 'm list" where
  "queue_run [] q = ([], q)"
| "queue_run (Inl ms # evs) q = queue_run evs (queue_put ms q)"
| "queue_run (Inr mode # evs) q =
     (let (out, q') = drain mode q; (rest, q'') = queue_run evs q' in (out @ rest, q''))"

lemma drain_split: "drain mode q = (out, q') \<Longrightarrow> out @ q' = q \<and> (q \<noteq> [] \<longrightarrow> out \<noteq> [] \<and> queue_peek q = Some (hd out))"
  by (auto simp: drain_def queue_peek_def split: list.splits queue_mode.splits)

lemma queue_fifo:
  "queue_run evs q = (out, q') \<Longrightarrow> out @ q' = q @ concat (map (\<lambda>e. case e of Inl ms \<Rightarrow> ms | Inr _ \<Rightarrow> []) evs)"
proof (induction evs arbitrary: q out q')
  case (Cons e evs)
  show ?case
  proof (cases e)
    case (Inl ms)
    then show ?thesis using Cons by (simp add: queue_put_def)
  next
    case (Inr mode)
    obtain o1 q1 o2 q2 where r: "drain mode q = (o1, q1)" "queue_run evs q1 = (o2, q2)" by (metis surj_pair)
    then show ?thesis using Cons.prems Cons.IH[OF r(2)] drain_split[OF r(1)] Inr by auto
  qed
qed simp

section \<open>Fuzzy search\<close>

record 'a fuzzy_result =
  fr_item :: 'a
  fr_score :: int
  fr_indices :: "nat list"

text \<open>
  One pass over the target: \<open>t\<close> is the index of its first remaining unit and \<open>prev\<close> the unit before it,
  \<open>k\<close> the length of the current run of matches.
\<close>

fun fuzzy_scan :: "nat \<Rightarrow> nat option \<Rightarrow> jstring \<Rightarrow> jstring \<Rightarrow> int \<Rightarrow> int \<Rightarrow> nat list \<Rightarrow> jstring \<times> int \<times> nat list" where
  "fuzzy_scan t prev [] q score k idx = (q, score, idx)"
| "fuzzy_scan t prev (c # cs) [] score k idx = ([], score, idx)"
| "fuzzy_scan t prev (c # cs) (d # q) score k idx =
     (if c = d then
        fuzzy_scan (t + 1) (Some c) cs q
          (score + (10 + k * 5) + (if t = 0 \<or> prev = Some 32 \<or> prev = Some 95 then 15 else 0)) (k + 1) (idx @ [t])
      else fuzzy_scan (t + 1) (Some c) cs (d # q) score 0 idx)"

definition fuzzy_one :: "(jstring \<Rightarrow> jstring) \<Rightarrow> jstring \<Rightarrow> ('a \<Rightarrow> jstring) \<Rightarrow> 'a \<Rightarrow> 'a fuzzy_result option" where
  "fuzzy_one lower q txt item =
     (let (left, score, idx) = fuzzy_scan 0 None (lower (txt item)) q 0 0 []
      in if left = [] then
           Some \<lparr>fr_item = item, fr_score = score + max 0 (50 - (int (length (txt item)) - int (length q))), fr_indices = idx\<rparr>
         else None)"

definition fuzzySearch :: "(jstring \<Rightarrow> jstring) \<Rightarrow> jstring \<Rightarrow> 'a list \<Rightarrow> ('a \<Rightarrow> jstring) \<Rightarrow> int \<Rightarrow> 'a fuzzy_result list" where
  "fuzzySearch lower query items txt limit =
     (let q = lower (js_trim query)
      in if q = [] then
           map (\<lambda>i. \<lparr>fr_item = i, fr_score = 0, fr_indices = []\<rparr>) (take (slice_index (length items) limit) items)
         else let results = sort_key (\<lambda>r. - fr_score r) (List.map_filter (fuzzy_one lower q txt) items)
              in take (slice_index (length results) limit) results)"

lemma fuzzy_scan_sound:
  "fuzzy_scan t prev cs q score k idx = (left, s, out) \<Longrightarrow>
     (left = [] \<longleftrightarrow> subseq q cs) \<and>
     (\<exists>js. out = idx @ js \<and> sorted_wrt (<) js \<and> (\<forall>j \<in> set js. t \<le> j \<and> j < t + length cs) \<and>
        map (\<lambda>j. cs ! (j - t)) js @ left = q)"
proof (induction t prev cs q score k idx arbitrary: left s out rule: fuzzy_scan.induct)
  case (3 t prev c cs d q score k idx)
  show ?case
  proof (cases "c = d")
    case True
    then obtain js where A: "left = [] \<longleftrightarrow> subseq q cs" "out = (idx @ [t]) @ js" "sorted_wrt (<) js"
        "\<forall>j \<in> set js. t + 1 \<le> j \<and> j < t + 1 + length cs" "map (\<lambda>j. cs ! (j - (t + 1))) js @ left = q"
      using "3.IH"(1)[OF True] "3.prems" by (auto simp del: map_append)
    have m: "map (\<lambda>j. (c # cs) ! (j - t)) js = map (\<lambda>j. cs ! (j - (t + 1))) js"
      using A(4) by (auto simp: nth_Cons' )
    have "out = idx @ (t # js)" "sorted_wrt (<) (t # js)" "\<forall>j \<in> set (t # js). t \<le> j \<and> j < t + length (c # cs)"
        "map (\<lambda>j. (c # cs) ! (j - t)) (t # js) @ left = d # q"
      using A True m by auto
    then show ?thesis using A(1) True by (intro conjI exI[of _ "t # js"]) auto
  next
    case False
    then obtain js where A: "left = [] \<longleftrightarrow> subseq (d # q) cs" "out = idx @ js" "sorted_wrt (<) js"
        "\<forall>j \<in> set js. t + 1 \<le> j \<and> j < t + 1 + length cs" "map (\<lambda>j. cs ! (j - (t + 1))) js @ left = d # q"
      using "3.IH"(2)[OF False] "3.prems" by (auto simp del: map_append)
    have m: "map (\<lambda>j. (c # cs) ! (j - t)) js = map (\<lambda>j. cs ! (j - (t + 1))) js"
      using A(4) by (auto simp: nth_Cons')
    have "map (\<lambda>j. (c # cs) ! (j - t)) js @ left = d # q" unfolding m by (rule A(5))
    then show ?thesis using A(1-4) False by (intro conjI exI[of _ js]) auto
  qed
qed auto

text \<open>
  What a match is, without the scan: \<open>run_length js n\<close> matches stand directly before the \<open>n\<close>-th one, and a
  match is greedy when every character of the query is found at the first place after the one before.
\<close>

fun run_length :: "nat list \<Rightarrow> nat \<Rightarrow> nat" where
  "run_length js 0 = 0"
| "run_length js (Suc n) = (if js ! Suc n = js ! n + 1 then run_length js n + 1 else 0)"

definition word_start :: "jstring \<Rightarrow> nat \<Rightarrow> bool" where
  "word_start target j \<longleftrightarrow> j = 0 \<or> target ! (j - 1) = 32 \<or> target ! (j - 1) = 95"

definition match_score :: "jstring \<Rightarrow> nat list \<Rightarrow> int" where
  "match_score target js =
     (\<Sum>n < length js. 10 + 5 * int (run_length js n) + (if word_start target (js ! n) then 15 else 0))"

definition greedy_match :: "jstring \<Rightarrow> jstring \<Rightarrow> nat list \<Rightarrow> bool" where
  "greedy_match target q js \<longleftrightarrow> length js = length q \<and> sorted_wrt (<) js \<and>
     (\<forall>n < length q. js ! n < length target \<and> target ! (js ! n) = q ! n \<and>
        (\<forall>j < js ! n. (n = 0 \<or> js ! (n - 1) < j) \<longrightarrow> target ! j \<noteq> q ! n))"

definition is_match :: "(jstring \<Rightarrow> jstring) \<Rightarrow> jstring \<Rightarrow> ('a \<Rightarrow> jstring) \<Rightarrow> 'a \<Rightarrow> 'a fuzzy_result \<Rightarrow> bool" where
  "is_match lower q txt x r \<longleftrightarrow> fr_item r = x \<and> greedy_match (lower (txt x)) q (fr_indices r) \<and>
     fr_score r = match_score (lower (txt x)) (fr_indices r) + max 0 (50 - (int (length (txt x)) - int (length q)))"

lemma run_length_append: "n < length js \<Longrightarrow> run_length (js @ [t]) n = run_length js n"
  by (induction n) (simp_all add: nth_append)

lemma run_length_last: "run_length (js @ [t]) (length js) =
    (if js \<noteq> [] \<and> t = last js + 1 then run_length js (length js - 1) + 1 else 0)"
proof (cases js rule: rev_cases)
  case (snoc ys y)
  have "run_length (js @ [t]) (length ys) = run_length js (length ys)" using snoc by (intro run_length_append) simp
  then show ?thesis using snoc by (cases "t = y + 1") (simp_all add: nth_append)
qed simp

lemma match_score_append: "match_score target (js @ [t]) =
    match_score target js + 10 + 5 * int (run_length (js @ [t]) (length js)) + (if word_start target t then 15 else 0)"
  by (simp add: match_score_def run_length_append nth_append)

lemma greedy_append:
  assumes "greedy_match target p js" and "t < length target" and "\<forall>j \<in> set js. j < t" and "target ! t = d"
    and "\<forall>j < t. (js = [] \<or> last js < j) \<longrightarrow> target ! j \<noteq> d"
  shows "greedy_match target (p @ [d]) (js @ [t])"
proof -
  have l: "length js = length p" using assms(1) by (simp add: greedy_match_def)
  have "js ! (n - 1) = (js @ [t]) ! (n - 1)" if "n \<le> length p" "n \<noteq> 0" for n using that l by (auto simp: nth_append)
  moreover have "js ! (length p - 1) = last js" if "p \<noteq> []" using that l by (metis last_conv_nth length_0_conv)
  ultimately show ?thesis
    using assms l unfolding greedy_match_def
    by (auto simp: sorted_wrt_append nth_append less_Suc_eq split: if_splits)
qed

definition at_scan :: "jstring \<Rightarrow> jstring \<Rightarrow> jstring \<Rightarrow> nat \<Rightarrow> nat option \<Rightarrow> jstring \<Rightarrow> jstring \<Rightarrow> int \<Rightarrow> int \<Rightarrow> nat list \<Rightarrow> bool" where
  "at_scan target query done t prev cs q score k idx \<longleftrightarrow>
     t \<le> length target \<and> cs = drop t target \<and> query = done @ q \<and> prev = (if t = 0 then None else Some (target ! (t - 1))) \<and>
     greedy_match target done idx \<and> (\<forall>j \<in> set idx. j < t) \<and> score = match_score target idx \<and>
     k = (if idx \<noteq> [] \<and> last idx + 1 = t then int (run_length idx (length idx - 1)) + 1 else 0) \<and>
     (q \<noteq> [] \<longrightarrow> (\<forall>j < t. (idx = [] \<or> last idx < j) \<longrightarrow> target ! j \<noteq> hd q))"

lemma at_scan_hit:
  assumes "at_scan target query done t prev (c # cs) (d # q) score k idx" and "c = d"
  shows "at_scan target query (done @ [d]) (t + 1) (Some c) cs q
    (score + (10 + k * 5) + (if t = 0 \<or> prev = Some 32 \<or> prev = Some 95 then 15 else 0)) (k + 1) (idx @ [t])"
proof -
  have t: "t < length target" "target ! t = c" "cs = drop (t + 1) target"
    using assms(1) by (auto simp: at_scan_def) (metis drop_eq_Nil list.distinct(1) not_le nth_via_drop drop_Suc tl_drop list.sel(3))+
  have g: "greedy_match target (done @ [d]) (idx @ [t])"
    using assms t by (intro greedy_append) (auto simp: at_scan_def)
  have k: "int (run_length (idx @ [t]) (length idx)) = k"
    using assms(1) unfolding run_length_last by (auto simp: at_scan_def)
  have w: "word_start target t \<longleftrightarrow> t = 0 \<or> prev = Some 32 \<or> prev = Some 95"
    using assms(1) by (auto simp: at_scan_def word_start_def)
  have m: "match_score target (idx @ [t]) = score + (10 + k * 5) + (if t = 0 \<or> prev = Some 32 \<or> prev = Some 95 then 15 else 0)"
    using assms(1) unfolding match_score_append k w by (simp add: at_scan_def)
  show ?thesis using assms t g k m by (auto simp: at_scan_def)
qed

lemma at_scan_miss:
  assumes "at_scan target query done t prev (c # cs) (d # q) score k idx" and "c \<noteq> d"
  shows "at_scan target query done (t + 1) (Some c) cs (d # q) score 0 idx"
proof -
  have t: "t < length target" "target ! t = c" "cs = drop (t + 1) target"
    using assms(1) by (auto simp: at_scan_def) (metis drop_eq_Nil list.distinct(1) not_le nth_via_drop drop_Suc tl_drop list.sel(3))+
  have "last idx < t" if "idx \<noteq> []" using assms(1) that by (auto simp: at_scan_def)
  then show ?thesis using assms t by (auto simp: at_scan_def less_Suc_eq)
qed

lemma fuzzy_scan_exact:
  "at_scan target query done t prev cs q score k idx \<Longrightarrow> fuzzy_scan t prev cs q score k idx = ([], s, out) \<Longrightarrow>
     greedy_match target query out \<and> s = match_score target out"
proof (induction t prev cs q score k idx arbitrary: "done" rule: fuzzy_scan.induct)
  case (3 t prev c cs d q score k idx)
  show ?case
  proof (cases "c = d")
    case True
    then show ?thesis using "3.IH"(1)[OF True at_scan_hit[OF "3.prems"(1) True]] "3.prems"(2) by simp
  next
    case False
    then show ?thesis using "3.IH"(2)[OF False at_scan_miss[OF "3.prems"(1) False]] "3.prems"(2) by simp
  qed
next
  case (2 t prev c cs score k idx)
  then have "score = s" "idx = out" by simp_all
  then show ?case using "2.prems"(1) by (simp add: at_scan_def)
qed (simp add: at_scan_def)

lemma fuzzy_one_match: "fuzzy_one lower q txt x = Some r \<Longrightarrow> is_match lower q txt x r"
proof -
  assume f: "fuzzy_one lower q txt x = Some r"
  obtain left s out where sc: "fuzzy_scan 0 None (lower (txt x)) q 0 0 [] = (left, s, out)" by (metis prod_cases3)
  have "at_scan (lower (txt x)) q [] 0 None (lower (txt x)) q 0 0 []"
    by (simp add: at_scan_def greedy_match_def match_score_def)
  then show ?thesis using f sc fuzzy_scan_exact[of "lower (txt x)" q "[]" 0 None "lower (txt x)" q 0 0 "[]" s out]
    by (auto simp: fuzzy_one_def is_match_def split: if_splits)
qed

lemma fuzzy_one_complete: "fuzzy_one lower q txt x \<noteq> None \<longleftrightarrow> subseq q (lower (txt x))"
proof -
  obtain left s out where sc: "fuzzy_scan 0 None (lower (txt x)) q 0 0 [] = (left, s, out)" by (metis prod_cases3)
  then show ?thesis using fuzzy_scan_sound[OF sc] by (simp add: fuzzy_one_def)
qed

lemma sort_key_desc: "sorted_wrt (\<lambda>a b. fr_score b \<le> fr_score a) (sort_key (\<lambda>r. - fr_score r) rs)"
proof -
  have "sorted_wrt (\<le>) (map (\<lambda>r. - fr_score r) (sort_key (\<lambda>r. - fr_score r) rs))" by simp
  then show ?thesis by (simp add: sorted_wrt_map)
qed

lemma slice_index_nat: "0 \<le> i \<Longrightarrow> slice_index n i = min (nat i) n"
  by (simp add: slice_index_def)

lemma matches_in_order:
  "list_all2 (is_match lower q txt) (filter (\<lambda>x. subseq q (lower (txt x))) items) (List.map_filter (fuzzy_one lower q txt) items)"
proof (induction items)
  case (Cons x xs)
  then show ?case
    using fuzzy_one_complete[of lower q "txt" x] fuzzy_one_match[of lower q "txt" x]
    by (cases "fuzzy_one lower q txt x") (auto simp: List.map_filter_def)
qed (simp add: List.map_filter_def)

text \<open>
  C39: a fuzzy search scores every item whose lowered text has the trimmed and lowered query as a
  subsequence, once, at its greedy match and with the score of that match (ten a character, five for each match directly before it,
  fifteen at a word start, up to fifty for a short text); it ranks them by descending score, equal
  scores in the order of the items, and returns the first \<open>limit\<close> of the ranking. An empty query returns the
  first \<open>limit\<close> items.
\<close>

lemma fuzzy_search_sound:
  assumes "0 \<le> limit"
  shows "(lower (js_trim query) = [] \<longrightarrow>
      fuzzySearch lower query items txt limit = map (\<lambda>x. \<lparr>fr_item = x, fr_score = 0, fr_indices = []\<rparr>) (take (nat limit) items)) \<and>
    (lower (js_trim query) \<noteq> [] \<longrightarrow> (\<exists>found ranked.
      list_all2 (is_match lower (lower (js_trim query)) txt)
        (filter (\<lambda>x. subseq (lower (js_trim query)) (lower (txt x))) items) found \<and>
      mset ranked = mset found \<and> sorted_wrt (\<lambda>a b. fr_score b \<le> fr_score a) ranked \<and>
      (\<forall>v. filter (\<lambda>r. fr_score r = v) ranked = filter (\<lambda>r. fr_score r = v) found) \<and>
      fuzzySearch lower query items txt limit = take (nat limit) ranked))"
proof -
  let ?q = "lower (js_trim query)"
  let ?found = "List.map_filter (fuzzy_one lower ?q txt) items"
  let ?ranked = "sort_key (\<lambda>r. - fr_score r) ?found"
  have cut: "take (slice_index (length xs) limit) xs = take (nat limit) xs" for xs :: "'b list"
    using assms by (simp add: slice_index_nat min_def)
  have "filter (\<lambda>r. fr_score r = v) ?ranked = filter (\<lambda>r. fr_score r = v) ?found" for v
    using sort_key_stable[of "\<lambda>r. - fr_score r" "- v" ?found] by simp
  then have "\<exists>found ranked. list_all2 (is_match lower ?q txt) (filter (\<lambda>x. subseq ?q (lower (txt x))) items) found \<and>
      mset ranked = mset found \<and> sorted_wrt (\<lambda>a b. fr_score b \<le> fr_score a) ranked \<and>
      (\<forall>v. filter (\<lambda>r. fr_score r = v) ranked = filter (\<lambda>r. fr_score r = v) found) \<and>
      fuzzySearch lower query items txt limit = take (nat limit) ranked" if "?q \<noteq> []"
    using that matches_in_order[of lower ?q "txt" items] sort_key_desc[of ?found]
    by (intro exI[of _ ?found] exI[of _ ?ranked]) (simp add: fuzzySearch_def Let_def cut)
  moreover have "fuzzySearch lower query items txt limit =
      map (\<lambda>x. \<lparr>fr_item = x, fr_score = 0, fr_indices = []\<rparr>) (take (nat limit) items)" if "?q = []"
    using that by (simp add: fuzzySearch_def cut)
  ultimately show ?thesis by blast
qed

lemma fuzzy_search_sound_witness:
  "map fr_item (fuzzySearch (map (\<lambda>u. if 65 \<le> u \<and> u \<le> 90 then u + 32 else u)) [65, 67] [[97, 98, 99], [98], [97, 99]] id 1) =
     [[97, 99]] \<and>
   (\<exists>found. list_all2 (is_match (map (\<lambda>u. if 65 \<le> u \<and> u \<le> 90 then u + 32 else u)) [97, 99] id) [[97, 98, 99], [97, 99]] found)"
proof -
  let ?l = "map (\<lambda>u. if 65 \<le> u \<and> u \<le> 90 then u + 32 else u :: nat)"
  have e: "fuzzySearch ?l [65, 67] [[97, 98, 99], [98], [97, 99]] id 1 =
      [\<lparr>fr_item = [97, 99], fr_score = 90, fr_indices = [0, 1]\<rparr>]"
    by (simp add: fuzzySearch_def js_trim_def js_space_def fuzzy_one_def List.map_filter_def slice_index_def)
  have "\<exists>found. list_all2 (is_match ?l [97, 99] id) [[97, 98, 99], [97, 99]] found"
    using fuzzy_search_sound[of 1 ?l "[65, 67]" "[[97, 98, 99], [98], [97, 99]]" id] by (simp add: js_trim_def js_space_def) blast
  then show ?thesis by (simp add: e)
qed

end
