(* ===== verification/Widgets.thy ===== *)
theory Widgets
  imports JsText
begin

text \<open>
  The state of two terminal widgets of \<open>packages/tui/src/components/molecules\<close>: the filtered selection list
  (\<open>select-list.ts\<close>) and the scrolling view (\<open>scroll-view.ts\<close>). Calls of the \<open>onSelect\<close> and \<open>onCancel\<close>
  handlers are logged. The case mapping of \<open>toLowerCase\<close> is an argument. Rendering is not modelled: it
  draws the state and does not change it.
\<close>

section \<open>The selection list\<close>

text \<open>An absent \<open>disabled\<close> is false.\<close>

record 'v list_item =
  it_id :: jstring
  it_label :: jstring
  it_description :: "jstring option"
  it_value :: "'v option"
  it_disabled :: bool

record 'v select_list =
  sl_title :: jstring
  sl_items :: "'v list_item list"
  sl_selectedIndex :: int
  sl_filterQuery :: jstring
  sl_onSelect :: bool
  sl_onCancel :: bool
  sl_selected :: "'v list_item list"
  sl_cancelled :: nat

record key_event =
  ke_name :: jstring
  ke_ctrl :: bool
  ke_meta :: bool

datatype mouse_type = Move | Press | Click | Wheel

record mouse_event =
  me_type :: mouse_type
  me_x :: int
  me_y :: int
  me_wheelDelta :: "int option"

definition default_title :: jstring where
  "default_title = [0x8BF7, 0x9009, 0x62E9]"

definition newSelectList ::
  "jstring option \<Rightarrow> 'v list_item list option \<Rightarrow> int option \<Rightarrow> bool \<Rightarrow> bool \<Rightarrow> 'v select_list" where
  "newSelectList title items index hasSelect hasCancel =
     \<lparr>sl_title = (case title of Some t \<Rightarrow> if t \<noteq> [] then t else default_title | None \<Rightarrow> default_title),
      sl_items = (case items of Some l \<Rightarrow> l | None \<Rightarrow> []),
      sl_selectedIndex = (case index of Some i \<Rightarrow> i | None \<Rightarrow> 0),
      sl_filterQuery = [], sl_onSelect = hasSelect, sl_onCancel = hasCancel, sl_selected = [], sl_cancelled = 0\<rparr>"

fun js_includes :: "jstring \<Rightarrow> jstring \<Rightarrow> bool" where
  "js_includes q [] = (q = [])"
| "js_includes q (c # cs) = (take (length q) (c # cs) = q \<or> js_includes q cs)"

definition getFilteredItems :: "(jstring \<Rightarrow> jstring) \<Rightarrow> 'v select_list \<Rightarrow> 'v list_item list" where
  "getFilteredItems lower l =
     (if js_trim (sl_filterQuery l) = [] then sl_items l
      else let q = lower (sl_filterQuery l)
           in filter (\<lambda>it. js_includes q (lower (it_label it)) \<or>
                (case it_description it of None \<Rightarrow> False | Some d \<Rightarrow> js_includes q (lower d))) (sl_items l))"

definition item_at :: "'v list_item list \<Rightarrow> int \<Rightarrow> 'v list_item option" where
  "item_at xs i = (if 0 \<le> i \<and> i < int (length xs) then Some (xs ! nat i) else None)"

definition handleKey :: "(jstring \<Rightarrow> jstring) \<Rightarrow> key_event \<Rightarrow> 'v select_list \<Rightarrow> bool \<times> 'v select_list" where
  "handleKey lower key l =
     (let filtered = getFilteredItems lower l; i = sl_selectedIndex l; n = int (length filtered); name = ke_name key
      in if name = ascii ''up'' \<or> ke_ctrl key \<and> name = ascii ''p'' then
           (True, l\<lparr>sl_selectedIndex := (if 0 < i then i - 1 else max 0 (n - 1))\<rparr>)
         else if name = ascii ''down'' \<or> ke_ctrl key \<and> name = ascii ''n'' then
           (True, l\<lparr>sl_selectedIndex := (if i < n - 1 then i + 1 else 0)\<rparr>)
         else if name = ascii ''enter'' then
           (True, case item_at filtered i of
                    Some it \<Rightarrow> if \<not> it_disabled it \<and> sl_onSelect l then l\<lparr>sl_selected := sl_selected l @ [it]\<rparr> else l
                  | None \<Rightarrow> l)
         else if name = ascii ''escape'' then
           (True, if sl_onCancel l then l\<lparr>sl_cancelled := sl_cancelled l + 1\<rparr> else l)
         else if name = ascii ''backspace'' then
           (True, if sl_filterQuery l \<noteq> [] then l\<lparr>sl_filterQuery := js_slice 0 (- 1) (sl_filterQuery l), sl_selectedIndex := 0\<rparr>
                  else l)
         else if length name = 1 \<and> \<not> ke_ctrl key \<and> \<not> ke_meta key then
           (True, l\<lparr>sl_filterQuery := sl_filterQuery l @ name, sl_selectedIndex := 0\<rparr>)
         else (False, l))"

definition handleMouse :: "(jstring \<Rightarrow> jstring) \<Rightarrow> mouse_event \<Rightarrow> int \<Rightarrow> 'v select_list \<Rightarrow> bool \<times> 'v select_list" where
  "handleMouse lower event viewHeight l =
     (let filtered = getFilteredItems lower l; n = int (length filtered)
      in if me_type event = Wheel then
           (let delta = (case me_wheelDelta event of Some d \<Rightarrow> d | None \<Rightarrow> 1)
            in (True, l\<lparr>sl_selectedIndex := max 0 (min (n - 1) (sl_selectedIndex l + delta))\<rparr>))
         else if me_type event \<noteq> Press \<and> me_type event \<noteq> Click then (False, l)
         else
           let listHeight = max 1 (viewHeight - 2);
               scrollOffset = max 0 (min (sl_selectedIndex l - listHeight div 2) (max 0 (n - listHeight)));
               clickedIndex = scrollOffset + me_y event - 1
           in if 0 \<le> clickedIndex \<and> clickedIndex < n then
                (case item_at filtered clickedIndex of
                   Some it \<Rightarrow>
                     if \<not> it_disabled it then
                       (True, let l' = l\<lparr>sl_selectedIndex := clickedIndex\<rparr>
                              in if me_type event = Click \<and> sl_onSelect l then l'\<lparr>sl_selected := sl_selected l' @ [it]\<rparr> else l')
                     else (False, l)
                 | None \<Rightarrow> (False, l))
              else (False, l))"

text \<open>
  The constructor takes any \<open>selectedIndex\<close>; one out of range stays so until the list is used, and selects
  nothing meanwhile.
\<close>

inductive list_reach :: "(jstring \<Rightarrow> jstring) \<Rightarrow> 'v list_item list \<Rightarrow> int option \<Rightarrow> 'v select_list \<Rightarrow> bool"
  for lower items index where
  "list_reach lower items index (newSelectList t (Some items) index hs hc)"
| "list_reach lower items index l \<Longrightarrow> list_reach lower items index (snd (handleKey lower key l))"
| "list_reach lower items index l \<Longrightarrow> list_reach lower items index (snd (handleMouse lower event h l))"

definition index_ok :: "'v list_item list \<Rightarrow> int option \<Rightarrow> bool" where
  "index_ok items index \<longleftrightarrow> (case index of None \<Rightarrow> True | Some i \<Rightarrow> i = 0 \<or> 0 < i \<and> i < int (length items))"

definition list_inv :: "bool \<Rightarrow> (jstring \<Rightarrow> jstring) \<Rightarrow> 'v list_item list \<Rightarrow> 'v select_list \<Rightarrow> bool" where
  "list_inv ok lower items l \<longleftrightarrow> sl_items l = items \<and>
     (ok \<longrightarrow> 0 \<le> sl_selectedIndex l \<and>
        (sl_selectedIndex l = 0 \<or> sl_selectedIndex l < int (length (getFilteredItems lower l)))) \<and>
     (\<forall>it \<in> set (sl_selected l). it \<in> set items \<and> \<not> it_disabled it)"

lemma filtered_core [simp]:
  "getFilteredItems lower (l\<lparr>sl_selectedIndex := i\<rparr>) = getFilteredItems lower l"
  "getFilteredItems lower (l\<lparr>sl_selected := s\<rparr>) = getFilteredItems lower l"
  "getFilteredItems lower (l\<lparr>sl_cancelled := c\<rparr>) = getFilteredItems lower l"
  by (simp_all add: getFilteredItems_def)

lemma filtered_subset: "set (getFilteredItems lower l) \<subseteq> set (sl_items l)"
  by (auto simp: getFilteredItems_def Let_def)

lemma item_at_set: "item_at (getFilteredItems lower l) i = Some it \<Longrightarrow> it \<in> set (sl_items l)"
  using filtered_subset[of lower l] by (auto simp: item_at_def split: if_splits)

lemma inv_move:
  "list_inv ok lower items l \<Longrightarrow> (ok \<Longrightarrow> 0 \<le> i \<and> (i = 0 \<or> i < int (length (getFilteredItems lower l)))) \<Longrightarrow>
     list_inv ok lower items (l\<lparr>sl_selectedIndex := i\<rparr>)"
  by (simp add: list_inv_def)

lemma inv_select:
  "list_inv ok lower items l \<Longrightarrow> item_at (getFilteredItems lower l) i = Some it \<Longrightarrow> \<not> it_disabled it \<Longrightarrow>
     list_inv ok lower items (l\<lparr>sl_selected := sl_selected l @ [it]\<rparr>)"
  using item_at_set[of lower l i it] by (auto simp: list_inv_def)

lemma inv_query:
  "list_inv ok lower items l \<Longrightarrow> list_inv ok lower items (l\<lparr>sl_filterQuery := q, sl_selectedIndex := 0\<rparr>)"
  by (simp add: list_inv_def)

lemma snd_if: "(b \<Longrightarrow> P (snd x)) \<Longrightarrow> (\<not> b \<Longrightarrow> P (snd y)) \<Longrightarrow> P (snd (if b then x else y))"
  by simp

lemma inv_enter:
  "list_inv ok lower items l \<Longrightarrow> list_inv ok lower items
     (case item_at (getFilteredItems lower l) i of
        Some it \<Rightarrow> if \<not> it_disabled it \<and> sl_onSelect l then l\<lparr>sl_selected := sl_selected l @ [it]\<rparr> else l
      | None \<Rightarrow> l)"
  using inv_select[of ok lower items l i] by (cases "item_at (getFilteredItems lower l) i") simp_all

lemma inv_key:
  assumes I: "list_inv ok lower items l"
  shows "list_inv ok lower items (snd (handleKey lower key l))"
proof -
  let ?i = "sl_selectedIndex l" and ?n = "int (length (getFilteredItems lower l))"
  have B: "ok \<Longrightarrow> 0 \<le> ?i \<and> (?i = 0 \<or> ?i < ?n)" using I by (simp_all add: list_inv_def)
  have up: "list_inv ok lower items (l\<lparr>sl_selectedIndex := (if 0 < ?i then ?i - 1 else max 0 (?n - 1))\<rparr>)"
    by (rule inv_move[OF I]) (use B in auto)
  have down: "list_inv ok lower items (l\<lparr>sl_selectedIndex := (if ?i < ?n - 1 then ?i + 1 else 0)\<rparr>)"
    by (rule inv_move[OF I]) (use B in auto)
  have cancel: "list_inv ok lower items (if sl_onCancel l then l\<lparr>sl_cancelled := sl_cancelled l + 1\<rparr> else l)"
    using I by (simp add: list_inv_def)
  have back_space: "list_inv ok lower items (if sl_filterQuery l \<noteq> []
      then l\<lparr>sl_filterQuery := js_slice 0 (- 1) (sl_filterQuery l), sl_selectedIndex := 0\<rparr> else l)"
    using I inv_query[OF I] by simp
  show ?thesis
    unfolding handleKey_def Let_def
    by (intro snd_if[where P = "list_inv ok lower items"])
      (simp_all only: snd_conv up down inv_enter[OF I] cancel back_space inv_query[OF I] I)
qed

lemma inv_click:
  assumes I: "list_inv ok lower items l" and r: "0 \<le> c \<and> c < int (length (getFilteredItems lower l))"
    and it: "item_at (getFilteredItems lower l) c = Some it" "\<not> it_disabled it"
  shows "list_inv ok lower items (l\<lparr>sl_selectedIndex := c\<rparr>)"
    and "list_inv ok lower items (l\<lparr>sl_selectedIndex := c, sl_selected := sl_selected l @ [it]\<rparr>)"
proof -
  show M: "list_inv ok lower items (l\<lparr>sl_selectedIndex := c\<rparr>)" by (rule inv_move[OF I]) (use r in auto)
  show "list_inv ok lower items (l\<lparr>sl_selectedIndex := c, sl_selected := sl_selected l @ [it]\<rparr>)"
    using inv_select[OF M, of c it] it by simp
qed

lemma inv_mouse:
  assumes I: "list_inv ok lower items l"
  shows "list_inv ok lower items (snd (handleMouse lower event h l))"
proof -
  let ?n = "int (length (getFilteredItems lower l))"
  have wheel: "list_inv ok lower items (l\<lparr>sl_selectedIndex := max 0 (min (?n - 1) d)\<rparr>)" for d
    by (rule inv_move[OF I]) auto
  have click: "0 \<le> c \<and> c < ?n \<Longrightarrow> list_inv ok lower items (snd
        (case item_at (getFilteredItems lower l) c of
           Some it \<Rightarrow>
             if \<not> it_disabled it then
               (True, if e \<and> sl_onSelect l
                      then l\<lparr>sl_selectedIndex := c, sl_selected := sl_selected (l\<lparr>sl_selectedIndex := c\<rparr>) @ [it]\<rparr>
                      else l\<lparr>sl_selectedIndex := c\<rparr>)
             else (False, l)
         | None \<Rightarrow> (False, l)))" for c e
    using I inv_click[OF I, of c] by (cases "item_at (getFilteredItems lower l) c") auto
  have w: "list_inv ok lower items (snd (True, l\<lparr>sl_selectedIndex := max 0 (min (?n - 1) (sl_selectedIndex l + d))\<rparr>))" for d
    using wheel by simp
  show ?thesis
    unfolding handleMouse_def Let_def
    by (intro snd_if[where P = "list_inv ok lower items"] w click) (simp_all only: snd_conv I)
qed

lemma list_reach_inv: "list_reach lower items index l \<Longrightarrow> list_inv (index_ok items index) lower items l"
proof (induction rule: list_reach.induct)
  case (1 t hs hc)
  then show ?case
    by (auto simp: list_inv_def newSelectList_def index_ok_def getFilteredItems_def js_trim_def split: option.splits)
qed (auto intro: inv_key inv_mouse)

text \<open>
  A selection list only ever selects enabled items of its own, whatever index it starts with; when it
  starts with an index of an item (or zero), its index is always that of a filtered item (or zero).
\<close>

lemma selection_in_range:
  assumes "list_reach lower items index l"
  shows "\<forall>it \<in> set (sl_selected l). it \<in> set items \<and> \<not> it_disabled it"
    and "index_ok items index \<Longrightarrow> sl_selectedIndex l = 0 \<or>
           0 < sl_selectedIndex l \<and> sl_selectedIndex l < int (length (getFilteredItems lower l))"
  using list_reach_inv[OF assms] by (auto simp: list_inv_def)

section \<open>The scrolling view\<close>

record scroll_view =
  sv_content :: "jstring list"
  sv_scrollOffset :: int
  sv_showScrollbar :: bool

definition newScrollView :: "jstring list option \<Rightarrow> int option \<Rightarrow> bool option \<Rightarrow> scroll_view" where
  "newScrollView content offset bar =
     \<lparr>sv_content = (case content of Some c \<Rightarrow> c | None \<Rightarrow> []),
      sv_scrollOffset = (case offset of Some i \<Rightarrow> i | None \<Rightarrow> 0),
      sv_showScrollbar = (case bar of Some b \<Rightarrow> b | None \<Rightarrow> True)\<rparr>"

definition maxOffset :: "int \<Rightarrow> scroll_view \<Rightarrow> int" where
  "maxOffset viewHeight v = max 0 (int (length (sv_content v)) - viewHeight)"

definition clampScroll :: "int \<Rightarrow> scroll_view \<Rightarrow> scroll_view" where
  "clampScroll viewHeight v = v\<lparr>sv_scrollOffset := max 0 (min (sv_scrollOffset v) (maxOffset viewHeight v))\<rparr>"

definition scroll_setContent :: "jstring list \<Rightarrow> scroll_view \<Rightarrow> scroll_view" where
  "scroll_setContent lines v = clampScroll 10 (v\<lparr>sv_content := lines\<rparr>)"

definition scrollBy :: "int \<Rightarrow> int option \<Rightarrow> bool \<Rightarrow> scroll_view \<Rightarrow> scroll_view" where
  "scrollBy delta viewHeight isAltSpeed v =
     (let multiplier = (if isAltSpeed then 5 else 1);
          v1 = v\<lparr>sv_scrollOffset := sv_scrollOffset v + delta * multiplier\<rparr>
      in case viewHeight of
           Some h \<Rightarrow> clampScroll h v1
         | None \<Rightarrow> if sv_scrollOffset v1 < 0 then v1\<lparr>sv_scrollOffset := 0\<rparr> else v1)"

definition scrollTo :: "int \<Rightarrow> scroll_view \<Rightarrow> scroll_view" where
  "scrollTo offset v = v\<lparr>sv_scrollOffset := max 0 offset\<rparr>"

definition scrollToEnd :: "int \<Rightarrow> scroll_view \<Rightarrow> scroll_view" where
  "scrollToEnd viewHeight v = v\<lparr>sv_scrollOffset := maxOffset viewHeight v\<rparr>"

definition isAtEnd :: "int \<Rightarrow> scroll_view \<Rightarrow> bool" where
  "isAtEnd viewHeight v \<longleftrightarrow> maxOffset viewHeight v \<le> sv_scrollOffset v"

text \<open>Only the calls that know the view height keep the offset below the last page.\<close>

lemma scroll_bounds:
  "0 \<le> sv_scrollOffset (clampScroll h v)" "sv_scrollOffset (clampScroll h v) \<le> maxOffset h v"
  "0 \<le> sv_scrollOffset (scrollBy d (Some h) a v)" "sv_scrollOffset (scrollBy d (Some h) a v) \<le> maxOffset h v"
  "0 \<le> sv_scrollOffset (scrollBy d None a v)" "0 \<le> sv_scrollOffset (scrollTo i v)"
  "isAtEnd h (scrollToEnd h v)" "sv_scrollOffset (scrollToEnd h v) \<le> maxOffset h v"
  by (auto simp: clampScroll_def scrollBy_def scrollTo_def scrollToEnd_def isAtEnd_def maxOffset_def Let_def)

end
