(* ===== verification/Stages.thy ===== *)
theory Stages
  imports Utf8
begin

text \<open>
  \<open>packages/agent-core/src/pipeline/stage-registry.ts\<close>: the list of workflow stages, one per identifier, the
  merge of overrides into it and the resolution of a stage's role. The callbacks and gate rules of a stage
  are an opaque part of its record; the role registry is its lookup function.
\<close>

record agent_role =
  ar_role :: jstring
  ar_name :: jstring
  ar_systemPrompt :: jstring

datatype stage_role = NoRole | RoleId jstring | RoleConfig agent_role

record 'x stage =
  sg_id :: jstring
  sg_name :: jstring
  sg_role :: stage_role
  sg_systemPrompt :: "jstring option"
  sg_rest :: 'x

text \<open>\<open>findIndex\<close> of the identifier, then the replacement in place or the push at the end.\<close>

fun register_stage :: "'x stage \<Rightarrow> 'x stage list \<Rightarrow> 'x stage list" where
  "register_stage config [] = [config]"
| "register_stage config (s # ss) =
     (if sg_id s = sg_id config then config # ss else s # register_stage config ss)"

fun mergeStageLists :: "'x stage list \<Rightarrow> 'x stage list \<Rightarrow> 'x stage list" where
  "mergeStageLists merged [] = merged"
| "mergeStageLists merged (stage # overrides) = mergeStageLists (register_stage stage merged) overrides"

definition resolveStageRole :: "(jstring \<Rightarrow> agent_role option) \<Rightarrow> 'x stage \<Rightarrow> agent_role" where
  "resolveStageRole registry stage =
     (case sg_role stage of
        RoleConfig r \<Rightarrow> r
      | other \<Rightarrow>
          let roleId = (case other of RoleId i \<Rightarrow> i | _ \<Rightarrow> sg_id stage)
          in case registry roleId of
               Some r \<Rightarrow> r
             | None \<Rightarrow> \<lparr>ar_role = roleId, ar_name = sg_name stage,
                        ar_systemPrompt = (case sg_systemPrompt stage of Some p \<Rightarrow> p | None \<Rightarrow> [])\<rparr>)"

definition resolveStageRoleId :: "'x stage \<Rightarrow> jstring" where
  "resolveStageRoleId stage =
     (case sg_role stage of
        RoleId i \<Rightarrow> i
      | RoleConfig r \<Rightarrow> if ar_role r \<noteq> [] then ar_role r else sg_id stage
      | NoRole \<Rightarrow> sg_id stage)"

definition stage_at :: "jstring \<Rightarrow> 'x stage list \<Rightarrow> 'x stage option" where
  "stage_at i ss = find (\<lambda>s. sg_id s = i) ss"

lemma stage_at_register: "stage_at i (register_stage c ss) = (if i = sg_id c then Some c else stage_at i ss)"
  by (induction ss) (auto simp: stage_at_def)

lemma register_ids: "map sg_id (register_stage c ss) =
    (if sg_id c \<in> sg_id ` set ss then map sg_id ss else map sg_id ss @ [sg_id c])"
  by (induction ss) auto

lemma register_distinct: "distinct (map sg_id ss) \<Longrightarrow> distinct (map sg_id (register_stage c ss))"
  by (auto simp: register_ids)

text \<open>
  The merge keeps the stages of the base in their order with one stage per identifier, appends the new
  ones, and finds under each identifier the last override that has it, or the base's stage.
\<close>

lemma merge_ids: "\<exists>new. map sg_id (mergeStageLists base ovs) = map sg_id base @ new"
proof (induction ovs arbitrary: base)
  case (Cons c ovs)
  obtain new where "map sg_id (mergeStageLists (register_stage c base) ovs) = map sg_id (register_stage c base) @ new"
    using Cons.IH by blast
  then show ?case by (simp add: register_ids)
qed simp

lemma merge_distinct: "distinct (map sg_id base) \<Longrightarrow> distinct (map sg_id (mergeStageLists base ovs))"
  by (induction ovs arbitrary: base) (simp_all add: register_distinct)

lemma find_snoc: "find P (xs @ [x]) = (case find P xs of Some y \<Rightarrow> Some y | None \<Rightarrow> if P x then Some x else None)"
  by (induction xs) auto

lemma merge_lookup:
  "stage_at i (mergeStageLists base ovs) =
     (case stage_at i (rev ovs) of Some s \<Rightarrow> Some s | None \<Rightarrow> stage_at i base)"
proof (induction ovs arbitrary: base)
  case (Cons c ovs)
  have "stage_at i (rev ovs @ [c]) =
      (case stage_at i (rev ovs) of Some s \<Rightarrow> Some s | None \<Rightarrow> if sg_id c = i then Some c else None)"
    by (simp add: stage_at_def find_snoc)
  then show ?case using Cons.IH by (auto simp: stage_at_register split: option.split)
qed (simp add: stage_at_def)

lemma role_ids_agree:
  "registry (resolveStageRoleId s) = None \<Longrightarrow> (\<forall>r. sg_role s = RoleConfig r \<longrightarrow> ar_role r \<noteq> []) \<Longrightarrow>
     ar_role (resolveStageRole registry s) = resolveStageRoleId s"
  by (auto simp: resolveStageRole_def resolveStageRoleId_def Let_def split: stage_role.splits)

end
