(* ===== verification/ResponseCache.thy ===== *)
theory ResponseCache
  imports Utf8 Complex_Main
begin

text \<open>
  The provider response cache (\<open>packages/server/src/provider-response-cache.ts\<close>), a bounded cache with
  expiry that evicts its least recently used entry, and the coordinator that spreads invalidations to
  the cache layers (\<open>packages/agent-core/src/context/cache-contract.ts\<close>). The \<open>Map\<close> of entries is an
  association list in insertion order. Numbers are rationals, \<open>None\<close> when not finite. The scrubbing
  of private data from a message is an argument, of which only the shape is used.
\<close>

section \<open>Invalidation events and counters\<close>

datatype cache_layer = ProviderLayer | ContextLayer | RetrievalLayer

definition RUNTIME_CACHE_LAYERS :: "cache_layer list" where
  "RUNTIME_CACHE_LAYERS = [ProviderLayer, ContextLayer, RetrievalLayer]"

datatype metric = Hit | Miss | Eviction | Invalidation

record layer_stats =
  ls_hits :: int
  ls_misses :: int
  ls_evictions :: int
  ls_invalidations :: int

definition emptyStats :: layer_stats where
  "emptyStats = \<lparr>ls_hits = 0, ls_misses = 0, ls_evictions = 0, ls_invalidations = 0\<rparr>"

fun count_metric :: "metric \<Rightarrow> layer_stats \<Rightarrow> layer_stats" where
  "count_metric Hit s = s\<lparr>ls_hits := ls_hits s + 1\<rparr>"
| "count_metric Miss s = s\<lparr>ls_misses := ls_misses s + 1\<rparr>"
| "count_metric Eviction s = s\<lparr>ls_evictions := ls_evictions s + 1\<rparr>"
| "count_metric Invalidation s = s\<lparr>ls_invalidations := ls_invalidations s + 1\<rparr>"

datatype reason = Revision | Registration | Manual

record invalidation =
  iv_reason :: reason
  iv_projectRevision :: "rat option"
  iv_layers :: "cache_layer list option"

definition shouldInvalidateCacheEntry :: "rat option \<Rightarrow> invalidation \<Rightarrow> bool" where
  "shouldInvalidateCacheEntry entryRevision event =
     (if iv_reason event \<noteq> Revision then True
      else case iv_projectRevision event of
             None \<Rightarrow> True
           | Some r \<Rightarrow> (case entryRevision of None \<Rightarrow> True | Some e \<Rightarrow> e < r))"

text \<open>A snapshot's counter: \<open>None\<close> when it is no number.\<close>

record raw_stats =
  rs_hits :: "jsnum option"
  rs_misses :: "jsnum option"
  rs_evictions :: "jsnum option"
  rs_invalidations :: "jsnum option"

fun valid_count :: "jsnum option \<Rightarrow> int option" where
  "valid_count (Some (NInt i)) = (if is_safe_integer i \<and> 0 \<le> i then Some i else None)"
| "valid_count _ = None"

definition validateRuntimeCacheLayerStats :: "raw_stats \<Rightarrow> layer_stats option" where
  "validateRuntimeCacheLayerStats v =
     (case (valid_count (rs_hits v), valid_count (rs_misses v), valid_count (rs_evictions v), valid_count (rs_invalidations v)) of
        (Some h, Some m, Some e, Some i) \<Rightarrow>
          Some \<lparr>ls_hits = h, ls_misses = m, ls_evictions = e, ls_invalidations = i\<rparr>
      | _ \<Rightarrow> None)"

section \<open>The coordinator\<close>

record coordinator =
  co_listeners :: "cache_layer \<Rightarrow> nat list"
  co_counters :: "cache_layer \<Rightarrow> layer_stats"

definition newCoordinator :: coordinator where
  "newCoordinator = \<lparr>co_listeners = (\<lambda>_. []), co_counters = (\<lambda>_. emptyStats)\<rparr>"

text \<open>Listeners are numbers; \<open>Set.add\<close> keeps the position of one that is there.\<close>

definition onInvalidate :: "cache_layer \<Rightarrow> nat \<Rightarrow> coordinator \<Rightarrow> coordinator" where
  "onInvalidate layer i c =
     c\<lparr>co_listeners := (co_listeners c)(layer := (if i \<in> set (co_listeners c layer) then co_listeners c layer
        else co_listeners c layer @ [i]))\<rparr>"

definition unsubscribe :: "cache_layer \<Rightarrow> nat \<Rightarrow> coordinator \<Rightarrow> coordinator" where
  "unsubscribe layer i c = c\<lparr>co_listeners := (co_listeners c)(layer := removeAll i (co_listeners c layer))\<rparr>"

definition co_record :: "cache_layer \<Rightarrow> metric \<Rightarrow> coordinator \<Rightarrow> coordinator" where
  "co_record layer event c = c\<lparr>co_counters := (co_counters c)(layer := count_metric event (co_counters c layer))\<rparr>"

text \<open>The layers of an event, each once, in order of first mention.\<close>

definition event_layers :: "invalidation \<Rightarrow> cache_layer list" where
  "event_layers event =
     (case iv_layers event of
        Some (l # ls) \<Rightarrow> rev (remdups (rev (l # ls)))
      | _ \<Rightarrow> RUNTIME_CACHE_LAYERS)"

text \<open>The listeners called, in order, and the coordinator after it.\<close>

fun invalidate_each :: "cache_layer list \<Rightarrow> coordinator \<Rightarrow> (cache_layer \<times> nat) list \<times> coordinator" where
  "invalidate_each [] c = ([], c)"
| "invalidate_each (l # ls) c =
     (let c1 = co_record l Invalidation c;
          calls = map (\<lambda>i. (l, i)) (co_listeners c1 l);
          (rest, c2) = invalidate_each ls c1
      in (calls @ rest, c2))"

definition invalidate :: "invalidation \<Rightarrow> coordinator \<Rightarrow> (cache_layer \<times> nat) list \<times> coordinator" where
  "invalidate event c = invalidate_each (event_layers event) c"

definition co_restore :: "int \<Rightarrow> (cache_layer \<Rightarrow> raw_stats) \<Rightarrow> coordinator \<Rightarrow> coordinator option" where
  "co_restore version stats c =
     (if version \<noteq> 1 then None
      else if \<forall>l \<in> set RUNTIME_CACHE_LAYERS. validateRuntimeCacheLayerStats (stats l) \<noteq> None
      then Some (c\<lparr>co_counters := (\<lambda>l. the (validateRuntimeCacheLayerStats (stats l)))\<rparr>)
      else None)"

text \<open>An invalidation calls every listener of the layers it names, or of all layers, once.\<close>

lemma co_record_listeners [simp]: "co_listeners (co_record l ev c) = co_listeners c"
  by (simp add: co_record_def)

lemma invalidate_each_calls:
  "fst (invalidate_each ls c) = concat (map (\<lambda>l. map (\<lambda>i. (l, i)) (co_listeners c l)) ls)"
  by (induction ls arbitrary: c) (simp_all add: Let_def case_prod_beta)

lemma event_layers_set:
  "distinct (event_layers ev)"
  "set (event_layers ev) = (case iv_layers ev of Some (l # ls) \<Rightarrow> set (l # ls) | _ \<Rightarrow> UNIV)"
proof -
  have all: "set RUNTIME_CACHE_LAYERS = UNIV" using cache_layer.exhaust by (auto simp: RUNTIME_CACHE_LAYERS_def)
  show "set (event_layers ev) = (case iv_layers ev of Some (l # ls) \<Rightarrow> set (l # ls) | _ \<Rightarrow> UNIV)"
    by (auto simp: event_layers_def all split: option.split list.split)
  show "distinct (event_layers ev)"
    by (simp add: event_layers_def RUNTIME_CACHE_LAYERS_def split: option.split list.split)
qed

lemma invalidate_calls:
  "(l, i) \<in> set (fst (invalidate ev c)) \<longleftrightarrow> l \<in> set (event_layers ev) \<and> i \<in> set (co_listeners c l)"
  by (auto simp: invalidate_def invalidate_each_calls)

section \<open>Messages\<close>

datatype content_type = ThinkingItem | TextItem | ToolCallItem | OtherItem

record 'x content =
  ct_type :: content_type
  ct_body :: 'x

record ('x, 'y) message =
  ms_content :: "'x content list"
  ms_rest :: 'y

record ('x, 'y) scrubber =
  sb_message :: "('x, 'y) message \<Rightarrow> ('x, 'y) message"
  sb_arguments :: "'x \<Rightarrow> 'x"
  sb_text :: "'x \<Rightarrow> 'x"

definition cloneAssistantMessage :: "('x, 'y) scrubber \<Rightarrow> ('x, 'y) message \<Rightarrow> ('x, 'y) message" where
  "cloneAssistantMessage z m =
     (let sanitized = sb_message z m;
          content = map (\<lambda>it. case ct_type it of
                ToolCallItem \<Rightarrow> it\<lparr>ct_body := sb_arguments z (ct_body it)\<rparr>
              | TextItem \<Rightarrow> it\<lparr>ct_body := sb_text z (ct_body it)\<rparr>
              | _ \<Rightarrow> it) (filter (\<lambda>it. ct_type it \<noteq> ThinkingItem) (ms_content sanitized))
      in sanitized\<lparr>ms_content := content\<rparr>)"

definition no_thinking :: "('x, 'y) message \<Rightarrow> bool" where
  "no_thinking m \<longleftrightarrow> (\<forall>it \<in> set (ms_content m). ct_type it \<noteq> ThinkingItem)"

lemma clone_no_thinking: "no_thinking (cloneAssistantMessage z m)"
  by (auto simp: no_thinking_def cloneAssistantMessage_def Let_def split: content_type.splits)

section \<open>The cache\<close>

record ('x, 'y) cache_entry =
  ce_response :: "('x, 'y) message"
  ce_projectRevision :: "rat option"
  ce_expiresAt :: rat

record ('x, 'y) cache =
  pc_entries :: "(jstring \<times> ('x, 'y) cache_entry) list"
  pc_enabled :: bool
  pc_maxEntries :: nat
  pc_ttlMs :: rat
  pc_counters :: layer_stats
  pc_recorded :: "metric list"

datatype cache_error =
    EmptyCacheKey | SnapshotUnsupported | InvalidStats | InvalidCacheKey | InvalidResponse | InvalidExpiry
  | InvalidRevision | RepeatedKey

text \<open>An option is \<open>None\<close> when it is absent and \<open>Some None\<close> when it is not finite.\<close>

definition newCache :: "bool option \<Rightarrow> rat option option \<Rightarrow> rat option option \<Rightarrow> ('x, 'y) cache" where
  "newCache enabled maxEntries ttlMs =
     \<lparr>pc_entries = [], pc_enabled = (case enabled of Some b \<Rightarrow> b | None \<Rightarrow> True),
      pc_maxEntries = (case maxEntries of Some (Some n) \<Rightarrow> nat (max 0 \<lfloor>n\<rfloor>) | _ \<Rightarrow> 128),
      pc_ttlMs = (case ttlMs of Some (Some t) \<Rightarrow> max 0 t | _ \<Rightarrow> 5 * 60 * 1000),
      pc_counters = emptyStats, pc_recorded = []\<rparr>"

definition pc_record :: "metric \<Rightarrow> ('x, 'y) cache \<Rightarrow> ('x, 'y) cache" where
  "pc_record event c = c\<lparr>pc_counters := count_metric event (pc_counters c), pc_recorded := pc_recorded c @ [event]\<rparr>"

definition cache_off :: "('x, 'y) cache \<Rightarrow> bool" where
  "cache_off c \<longleftrightarrow> \<not> pc_enabled c \<or> pc_maxEntries c = 0"

definition cache_get :: "('x, 'y) scrubber \<Rightarrow> rat \<Rightarrow> jstring \<Rightarrow> ('x, 'y) cache \<Rightarrow> ('x, 'y) message option \<times> ('x, 'y) cache" where
  "cache_get z now key c =
     (if cache_off c then (None, c)
      else case map_of (pc_entries c) key of
             None \<Rightarrow> (None, pc_record Miss c)
           | Some entry \<Rightarrow>
               if ce_expiresAt entry \<le> now then
                 (None, pc_record Miss (pc_record Eviction (c\<lparr>pc_entries := AList.delete key (pc_entries c)\<rparr>)))
               else (Some (cloneAssistantMessage z (ce_response entry)),
                     pc_record Hit (c\<lparr>pc_entries := AList.delete key (pc_entries c) @ [(key, entry)]\<rparr>)))"

text \<open>Drops the oldest entries until the size is within the bound.\<close>

function evict :: "('x, 'y) cache \<Rightarrow> ('x, 'y) cache" where
  "evict c =
     (if length (pc_entries c) > pc_maxEntries c then
        evict (pc_record Eviction (c\<lparr>pc_entries := AList.delete (fst (hd (pc_entries c))) (pc_entries c)\<rparr>))
      else c)"
  by pat_completeness auto
termination
proof (relation "measure (\<lambda>c. length (pc_entries c))")
  fix c :: "('a, 'b) cache"
  assume "length (pc_entries c) > pc_maxEntries c"
  then obtain k e es where "pc_entries c = (k, e) # es" by (cases "pc_entries c") auto
  then show "(pc_record Eviction (c\<lparr>pc_entries := AList.delete (fst (hd (pc_entries c))) (pc_entries c)\<rparr>), c)
      \<in> measure (\<lambda>c. length (pc_entries c))"
    using length_filter_le[of "\<lambda>(k', _). k \<noteq> k'" es] by (simp add: pc_record_def AList.delete_eq less_Suc_eq_le)
qed simp

declare evict.simps [simp del]

definition cache_set ::
  "('x, 'y) scrubber \<Rightarrow> rat \<Rightarrow> jstring \<Rightarrow> ('x, 'y) message \<Rightarrow> rat option \<Rightarrow> ('x, 'y) cache \<Rightarrow>
     (cache_error, unit) res \<times> ('x, 'y) cache" where
  "cache_set z now key response projectRevision c =
     (if cache_off c then (Ok (), c)
      else if js_trim key = [] then (Throw EmptyCacheKey, c)
      else let entry = \<lparr>ce_response = cloneAssistantMessage z response, ce_projectRevision = projectRevision,
                        ce_expiresAt = now + pc_ttlMs c\<rparr>
           in (Ok (), evict (c\<lparr>pc_entries := AList.delete key (pc_entries c) @ [(key, entry)]\<rparr>)))"

definition cache_clear :: "invalidation option \<Rightarrow> ('x, 'y) cache \<Rightarrow> ('x, 'y) cache" where
  "cache_clear event c =
     (let gone = (case event of
                    None \<Rightarrow> pc_entries c
                  | Some ev \<Rightarrow> filter (\<lambda>(k, e). shouldInvalidateCacheEntry (ce_projectRevision e) ev) (pc_entries c));
          kept = (case event of
                    None \<Rightarrow> []
                  | Some ev \<Rightarrow> filter (\<lambda>(k, e). \<not> shouldInvalidateCacheEntry (ce_projectRevision e) ev) (pc_entries c))
      in c\<lparr>pc_entries := kept,
           pc_counters := (pc_counters c)\<lparr>ls_invalidations := ls_invalidations (pc_counters c) + int (length gone)\<rparr>\<rparr>)"

definition cache_dispose :: "('x, 'y) cache \<Rightarrow> ('x, 'y) cache" where
  "cache_dispose c = c\<lparr>pc_entries := []\<rparr>"

definition cache_snapshot :: "('x, 'y) scrubber \<Rightarrow> ('x, 'y) cache \<Rightarrow> (jstring \<times> ('x, 'y) cache_entry) list \<times> layer_stats" where
  "cache_snapshot z c =
     (map (\<lambda>(k, e). (k, e\<lparr>ce_response := cloneAssistantMessage z (ce_response e)\<rparr>)) (pc_entries c), pc_counters c)"

text \<open>
  An entry of an untrusted snapshot: no key when it is not a string, no response when it is not an
  assistant message with a content array; a revision is \<open>Some None\<close> when it is given and not finite.
\<close>

record ('x, 'y) raw_entry =
  re_key :: "jstring option"
  re_response :: "('x, 'y) message option"
  re_projectRevision :: "rat option option"
  re_expiresAt :: "rat option"

definition validateProviderCacheEntry :: "('x, 'y) raw_entry \<Rightarrow> (cache_error, jstring \<times> ('x, 'y) cache_entry) res" where
  "validateProviderCacheEntry raw =
     (case re_key raw of
        None \<Rightarrow> Throw InvalidCacheKey
      | Some k \<Rightarrow>
          if k = [] then Throw InvalidCacheKey
          else (case re_response raw of
                  None \<Rightarrow> Throw InvalidResponse
                | Some m \<Rightarrow>
                    (case re_expiresAt raw of
                       None \<Rightarrow> Throw InvalidExpiry
                     | Some x \<Rightarrow>
                         (case re_projectRevision raw of
                            Some None \<Rightarrow> Throw InvalidRevision
                          | Some (Some r) \<Rightarrow> Ok (k, \<lparr>ce_response = m, ce_projectRevision = Some r, ce_expiresAt = x\<rparr>)
                          | None \<Rightarrow> Ok (k, \<lparr>ce_response = m, ce_projectRevision = None, ce_expiresAt = x\<rparr>)))))"

fun validate_all :: "('x, 'y) raw_entry list \<Rightarrow> (cache_error, (jstring \<times> ('x, 'y) cache_entry) list) res" where
  "validate_all [] = Ok []"
| "validate_all (r # rs) = rbind (validateProviderCacheEntry r) (\<lambda>e. rbind (validate_all rs) (\<lambda>es. Ok (e # es)))"

text \<open>A snapshot without an entries array has \<open>None\<close> for its entries.\<close>

definition cache_restore ::
  "('x, 'y) scrubber \<Rightarrow> int \<Rightarrow> ('x, 'y) raw_entry list option \<Rightarrow> raw_stats \<Rightarrow> ('x, 'y) cache \<Rightarrow>
     (cache_error, unit) res \<times> ('x, 'y) cache" where
  "cache_restore z version rawEntries rawStats c =
     (case rawEntries of
        None \<Rightarrow> (Throw SnapshotUnsupported, c)
      | Some raws \<Rightarrow>
          if version \<noteq> 1 then (Throw SnapshotUnsupported, c)
          else (case validateRuntimeCacheLayerStats rawStats of
                  None \<Rightarrow> (Throw InvalidStats, c)
                | Some stats \<Rightarrow>
                    (case validate_all raws of
                       Inl e \<Rightarrow> (Throw e, c)
                     | Inr entries \<Rightarrow>
                         if \<not> distinct (map fst entries) then (Throw RepeatedKey, c)
                         else let c1 = c\<lparr>pc_entries := [], pc_counters := stats\<rparr>
                              in (Ok (), if cache_off c1 then c1
                                   else c1\<lparr>pc_entries :=
                                     map (\<lambda>(k, e). (k, e\<lparr>ce_response := cloneAssistantMessage z (ce_response e)\<rparr>))
                                       (drop (length entries - pc_maxEntries c1) entries)\<rparr>))))"

inductive cache_reach :: "('x, 'y) scrubber \<Rightarrow> ('x, 'y) cache \<Rightarrow> bool" for z where
  "cache_reach z (newCache enabled maxEntries ttlMs)"
| "cache_reach z c \<Longrightarrow> cache_reach z (snd (cache_get z now key c))"
| "cache_reach z c \<Longrightarrow> cache_reach z (snd (cache_set z now key m rv c))"
| "cache_reach z c \<Longrightarrow> cache_reach z (cache_clear event c)"
| "cache_reach z c \<Longrightarrow> cache_reach z (cache_dispose c)"
| "cache_reach z c \<Longrightarrow> cache_reach z (snd (cache_restore z version raws stats c))"

section \<open>Bounds and privacy\<close>

definition cache_inv :: "('x, 'y) cache \<Rightarrow> bool" where
  "cache_inv c \<longleftrightarrow> distinct (map fst (pc_entries c)) \<and> length (pc_entries c) \<le> pc_maxEntries c \<and>
     (cache_off c \<longrightarrow> pc_entries c = []) \<and> (\<forall>(k, e) \<in> set (pc_entries c). no_thinking (ce_response e))"

lemma pc_record_fields [simp]:
  "pc_entries (pc_record ev c) = pc_entries c" "pc_enabled (pc_record ev c) = pc_enabled c"
  "pc_maxEntries (pc_record ev c) = pc_maxEntries c" "pc_ttlMs (pc_record ev c) = pc_ttlMs c"
  "cache_off (pc_record ev c) = cache_off c"
  by (simp_all add: pc_record_def cache_off_def)

lemma cache_off_entries [simp]: "cache_off (c\<lparr>pc_entries := es\<rparr>) = cache_off c"
  by (simp add: cache_off_def)

lemma delete_keys: "map fst (AList.delete k es) = removeAll k (map fst es)"
  by (induction es) (auto simp: AList.delete_eq)

lemma delete_notin [simp]: "k \<notin> fst ` set es \<Longrightarrow> AList.delete k es = es"
  by (rule AList.delete_id)

lemma delete_hd: "distinct (map fst ((k, e) # es)) \<Longrightarrow> AList.delete k ((k, e) # es) = es"
  by simp

lemma delete_subset: "set (AList.delete k es) \<subseteq> set es"
  by (auto simp: AList.delete_eq)

text \<open>Eviction keeps the newest entries.\<close>

lemma evict_entries:
  "distinct (map fst (pc_entries c)) \<Longrightarrow>
     pc_entries (evict c) = drop (length (pc_entries c) - pc_maxEntries c) (pc_entries c) \<and>
     pc_enabled (evict c) = pc_enabled c \<and> pc_maxEntries (evict c) = pc_maxEntries c \<and> pc_ttlMs (evict c) = pc_ttlMs c"
proof (induction c rule: evict.induct)
  case (1 c)
  show ?case
  proof (cases "length (pc_entries c) > pc_maxEntries c")
    case True
    then obtain k e es where es: "pc_entries c = (k, e) # es" by (cases "pc_entries c") auto
    have d: "AList.delete (fst (hd (pc_entries c))) (pc_entries c) = es"
      using "1.prems" delete_hd[of k e es] unfolding es by simp
    have s: "evict c = evict (pc_record Eviction (c\<lparr>pc_entries := es\<rparr>))"
      using True d by (subst evict.simps) simp
    have "distinct (map fst (pc_entries (pc_record Eviction (c\<lparr>pc_entries := es\<rparr>))))" using "1.prems" es by simp
    then have "pc_entries (evict c) = drop (length es - pc_maxEntries c) es \<and> pc_enabled (evict c) = pc_enabled c \<and>
        pc_maxEntries (evict c) = pc_maxEntries c \<and> pc_ttlMs (evict c) = pc_ttlMs c"
      using "1.IH"[OF True] unfolding d s by simp
    moreover have "length (pc_entries c) - pc_maxEntries c = Suc (length es - pc_maxEntries c)"
      using True es by simp
    ultimately show ?thesis using es by simp
  next
    case False
    then show ?thesis by (subst (1 2 3 4) evict.simps) simp
  qed
qed

lemma evict_inv:
  assumes "distinct (map fst (pc_entries c))" and "\<not> cache_off c"
    and "\<forall>(k, e) \<in> set (pc_entries c). no_thinking (ce_response e)"
  shows "cache_inv (evict c)"
proof -
  note E = evict_entries[OF assms(1)]
  have "cache_off (evict c) = cache_off c" using E by (simp add: cache_off_def)
  moreover have "set (pc_entries (evict c)) \<subseteq> set (pc_entries c)" using E set_drop_subset by metis
  ultimately show ?thesis using E assms by (auto simp: cache_inv_def drop_map[symmetric])
qed

lemma delete_gone: "k \<notin> fst ` set (AList.delete k es)"
  by (auto simp: AList.delete_eq)

lemma delete_other: "j \<noteq> k \<Longrightarrow> AList.delete j (pre @ (k, e) # post) = AList.delete j pre @ (k, e) # AList.delete j post"
  by (simp add: AList.delete_eq)

lemma get_inv:
  assumes I: "cache_inv c"
  shows "cache_inv (snd (cache_get z now key c))"
proof (cases "map_of (pc_entries c) key")
  case (Some e)
  have d: "distinct (map fst (AList.delete key (pc_entries c)))" using I by (simp add: cache_inv_def distinct_delete)
  have m: "(key, e) \<in> set (pc_entries c)" using Some by (rule map_of_SomeD)
  have "length (AList.delete key (pc_entries c)) < length (pc_entries c)"
    using m unfolding AList.delete_eq by (intro length_filter_less[of "(key, e)"]) auto
  then show ?thesis
    using I d m Some delete_subset[of key "pc_entries c"] delete_gone[of key "pc_entries c"]
    by (auto simp: cache_get_def cache_inv_def)
qed (use I in \<open>auto simp: cache_get_def cache_inv_def\<close>)

lemma set_inv:
  assumes I: "cache_inv c"
  shows "cache_inv (snd (cache_set z now key m rv c))"
proof (cases "cache_off c \<or> js_trim key = []")
  case False
  let ?e = "\<lparr>ce_response = cloneAssistantMessage z m, ce_projectRevision = rv, ce_expiresAt = now + pc_ttlMs c\<rparr>"
  let ?c = "c\<lparr>pc_entries := AList.delete key (pc_entries c) @ [(key, ?e)]\<rparr>"
  have "distinct (map fst (pc_entries ?c))"
    using I delete_gone[of key "pc_entries c"] by (simp add: cache_inv_def distinct_delete)
  moreover have "\<forall>(k, e) \<in> set (pc_entries ?c). no_thinking (ce_response e)"
    using I delete_subset[of key "pc_entries c"] by (auto simp: cache_inv_def clone_no_thinking)
  ultimately have "cache_inv (evict ?c)" using False by (intro evict_inv) auto
  then show ?thesis using False by (simp add: cache_set_def Let_def)
qed (use I in \<open>auto simp: cache_set_def\<close>)

lemma clear_inv:
  assumes I: "cache_inv c"
  shows "cache_inv (cache_clear event c)"
proof -
  have "distinct (map fst (filter P (pc_entries c)))" "length (filter P (pc_entries c)) \<le> pc_maxEntries c" for P
    using I by (auto simp: cache_inv_def distinct_map_filter intro: order_trans[OF length_filter_le])
  then show ?thesis using I by (auto simp: cache_clear_def cache_inv_def cache_off_def Let_def split: option.splits)
qed

lemma cache_restore_inv:
  assumes I: "cache_inv c"
  shows "cache_inv (snd (cache_restore z version raws stats c))"
proof -
  let ?f = "\<lambda>(k, e). (k, e\<lparr>ce_response := cloneAssistantMessage z (ce_response e)\<rparr>)"
  have k: "map fst (map ?f es) = map fst es" for es :: "(jstring \<times> ('a, 'b) cache_entry) list" by (induction es) auto
  have new: "cache_inv (c\<lparr>pc_counters := st, pc_entries := map ?f (drop (length es - pc_maxEntries c) es)\<rparr>)"
    if "distinct (map fst es)" "\<not> cache_off c" for es st
  proof -
    have "\<forall>(k, e) \<in> set (map ?f xs). no_thinking (ce_response e)" for xs :: "(jstring \<times> ('a, 'b) cache_entry) list"
      by (auto simp: clone_no_thinking)
    moreover have "distinct (map fst (map ?f (drop n es)))" for n
      using that(1) unfolding k by (simp add: drop_map[symmetric])
    ultimately show ?thesis using that(2) by (simp add: cache_inv_def cache_off_def del: map_map)
  qed
  have off: "cache_inv (c\<lparr>pc_entries := [], pc_counters := st\<rparr>)" for st by (simp add: cache_inv_def)
  have core: "cache_off (c\<lparr>pc_entries := es, pc_counters := st\<rparr>) = cache_off c" for es st by (simp add: cache_off_def)
  show ?thesis
    unfolding cache_restore_def Let_def
    using I new off by (auto simp: core split: option.split sum.split)
qed

lemma cache_reach_inv: "cache_reach z c \<Longrightarrow> cache_inv c"
proof (induction rule: cache_reach.induct)
  case (5 c)
  then show ?case by (simp add: cache_inv_def cache_dispose_def cache_off_def)
qed (simp_all add: get_inv set_inv clear_inv cache_restore_inv, simp add: cache_inv_def newCache_def)

definition demo_scrubber :: "(unit, unit) scrubber" where
  "demo_scrubber = \<lparr>sb_message = (\<lambda>m. m), sb_arguments = (\<lambda>x. x), sb_text = (\<lambda>x. x)\<rparr>"

definition demo_message :: "(unit, unit) message" where
  "demo_message = \<lparr>ms_content = [\<lparr>ct_type = ThinkingItem, ct_body = ()\<rparr>, \<lparr>ct_type = TextItem, ct_body = ()\<rparr>], ms_rest = ()\<rparr>"

definition demo_cache :: "(unit, unit) cache" where
  "demo_cache = newCache None (Some (Some 2)) (Some (Some 10))"

lemma demo_facts [simp]:
  "cache_reach demo_scrubber demo_cache" "\<not> cache_off demo_cache" "pc_maxEntries demo_cache = 2"
  "pc_ttlMs demo_cache = 10" "pc_entries demo_cache = []"
proof -
  show "cache_reach demo_scrubber demo_cache" unfolding demo_cache_def by (rule cache_reach.intros(1))
qed (simp_all add: demo_cache_def newCache_def cache_off_def)

lemma demo_clone: "cloneAssistantMessage demo_scrubber demo_message =
    \<lparr>ms_content = [\<lparr>ct_type = TextItem, ct_body = ()\<rparr>], ms_rest = ()\<rparr>"
  "cloneAssistantMessage demo_scrubber \<lparr>ms_content = [\<lparr>ct_type = TextItem, ct_body = ()\<rparr>], ms_rest = ()\<rparr> =
    \<lparr>ms_content = [\<lparr>ct_type = TextItem, ct_body = ()\<rparr>], ms_rest = ()\<rparr>"
  by (simp_all add: cloneAssistantMessage_def demo_scrubber_def demo_message_def)

text \<open>
  C22: in every reachable cache there are at most \<open>maxEntries\<close> entries under distinct keys, and none when it
  is off; a hit returns a copy of an unexpired entry without private reasoning; and after a revision
  event only entries of that revision or a later one are left.
\<close>

lemma cache_bounded_private:
  assumes "cache_reach z c" and "cache_get z now key c = (r, c')"
  shows "length (pc_entries c) \<le> pc_maxEntries c \<and> distinct (map fst (pc_entries c)) \<and>
    (cache_off c \<longrightarrow> pc_entries c = []) \<and>
    (\<forall>m. r = Some m \<longrightarrow> (\<exists>e. map_of (pc_entries c) key = Some e \<and> now < ce_expiresAt e \<and>
        m = cloneAssistantMessage z (ce_response e) \<and> (\<forall>it \<in> set (ms_content m). ct_type it \<noteq> ThinkingItem))) \<and>
    (\<forall>e. (key, e) \<in> set (pc_entries (cache_clear (Some \<lparr>iv_reason = Revision, iv_projectRevision = Some n, iv_layers = ls\<rparr>) c)) \<longrightarrow>
        (\<exists>n'. ce_projectRevision e = Some n' \<and> n \<le> n'))"
proof -
  have "cache_inv c" by (rule cache_reach_inv[OF assms(1)])
  moreover have "\<exists>e. map_of (pc_entries c) key = Some e \<and> now < ce_expiresAt e \<and>
      m = cloneAssistantMessage z (ce_response e) \<and> no_thinking m" if "r = Some m" for m
    using assms(2) that clone_no_thinking by (auto simp: cache_get_def split: if_splits option.splits)
  moreover have "\<exists>n'. ce_projectRevision e = Some n' \<and> n \<le> n'"
    if "(key, e) \<in> set (pc_entries (cache_clear (Some \<lparr>iv_reason = Revision, iv_projectRevision = Some n, iv_layers = ls\<rparr>) c))" for e
    using that by (auto simp: cache_clear_def shouldInvalidateCacheEntry_def Let_def split: option.splits)
  ultimately show ?thesis unfolding cache_inv_def no_thinking_def by blast
qed

lemma cache_bounded_private_witness:
  "length (pc_entries (snd (cache_set demo_scrubber 0 [97] demo_message None demo_cache))) \<le> 2 \<and>
   distinct (map fst (pc_entries (snd (cache_set demo_scrubber 0 [97] demo_message None demo_cache))))"
proof -
  let ?c = "snd (cache_set demo_scrubber 0 [97] demo_message None demo_cache)"
  have r: "cache_reach demo_scrubber ?c" by (intro cache_reach.intros(3)) simp
  have e: "pc_maxEntries ?c = 2" by (simp add: cache_set_def js_trim_def js_space_def Let_def evict_entries)
  obtain r' c' where g: "cache_get demo_scrubber 5 [97] ?c = (r', c')" by fastforce
  show ?thesis using cache_bounded_private[OF r g] e by auto
qed

section \<open>The least recently used entry goes first\<close>

datatype ('x, 'y) cache_op = OGet jstring | OSet jstring "('x, 'y) message" "rat option"

fun run_op :: "('x, 'y) scrubber \<Rightarrow> rat \<times> ('x, 'y) cache_op \<Rightarrow> ('x, 'y) cache \<Rightarrow> ('x, 'y) cache" where
  "run_op z (t, OGet k) c = snd (cache_get z t k c)"
| "run_op z (t, OSet k m rv) c = snd (cache_set z t k m rv c)"

fun op_key :: "('x, 'y) cache_op \<Rightarrow> jstring" where
  "op_key (OGet k) = k"
| "op_key (OSet k m rv) = k"

text \<open>The entry of \<open>k\<close> is there, and only keys of \<open>K\<close> were used after it.\<close>

definition kept_by :: "jstring set \<Rightarrow> jstring \<Rightarrow> ('x, 'y) cache_entry \<Rightarrow> ('x, 'y) cache \<Rightarrow> bool" where
  "kept_by K k e c \<longleftrightarrow> (\<exists>pre post. pc_entries c = pre @ (k, e) # post \<and> fst ` set post \<subseteq> K)"

lemma kept_map_of: "kept_by K k e c \<Longrightarrow> cache_inv c \<Longrightarrow> map_of (pc_entries c) k = Some e"
  by (auto simp: kept_by_def cache_inv_def map_of_eq_None_iff)

lemma kept_evict:
  assumes "pc_entries c = pre @ (k, e) # post" and "fst ` set post \<subseteq> K" and "finite K" and "card K < pc_maxEntries c"
    and d: "distinct (map fst (pc_entries c))"
  shows "kept_by K k e (evict c)"
proof -
  have "length post = card (fst ` set post)" using d assms(1) distinct_card[of "map fst post"] by simp
  also have "\<dots> \<le> card K" by (rule card_mono[OF assms(3,2)])
  finally have "length (pc_entries c) - pc_maxEntries c \<le> length pre" using assms(1,4) by simp
  then show ?thesis
    using evict_entries[OF d] assms(1,2) unfolding kept_by_def by auto
qed

lemma kept_step:
  assumes K: "kept_by K k e c" and I: "cache_inv c" and fin: "finite K" "card K < pc_maxEntries c"
    and on: "\<not> cache_off c" and t: "fst op < ce_expiresAt e"
    and key: "op_key (snd op) \<in> K \<or> (\<exists>t. op = (t, OGet k))" and k: "k \<notin> K"
  shows "kept_by K k e (run_op z op c)"
proof -
  obtain pre post where es: "pc_entries c = pre @ (k, e) # post" and sub: "fst ` set post \<subseteq> K"
    using K by (auto simp: kept_by_def)
  have del: "fst ` set (AList.delete j post) \<subseteq> K" for j using sub delete_subset[of j post] by auto
  show ?thesis
  proof (cases op)
    case (Pair t x)
    show ?thesis
    proof (cases x)
      case (OGet j)
      show ?thesis
      proof (cases "j = k")
        case True
        then have "pc_entries (run_op z op c) = AList.delete k (pc_entries c) @ [(k, e)]"
          using kept_map_of[OF K I] on t Pair OGet by (simp add: cache_get_def)
        then show ?thesis unfolding kept_by_def by (intro exI[of _ "AList.delete k (pc_entries c)"] exI[of _ "[]"]) simp
      next
        case False
        then have j: "j \<in> K" using key Pair OGet by simp
        have "pc_entries (run_op z op c) = pc_entries c \<or> pc_entries (run_op z op c) = AList.delete j (pc_entries c) \<or>
            (\<exists>y. pc_entries (run_op z op c) = AList.delete j (pc_entries c) @ [(j, y)])"
          using Pair OGet by (auto simp: cache_get_def split: option.splits)
        moreover have "AList.delete j (pc_entries c) = AList.delete j pre @ (k, e) # AList.delete j post"
          unfolding es using False by (rule delete_other)
        ultimately show ?thesis
        proof (elim disjE exE)
          fix y
          assume "pc_entries (run_op z op c) = AList.delete j (pc_entries c) @ [(j, y)]"
            and A: "AList.delete j (pc_entries c) = AList.delete j pre @ (k, e) # AList.delete j post"
          then have "pc_entries (run_op z op c) = AList.delete j pre @ (k, e) # (AList.delete j post @ [(j, y)])" by simp
          moreover have "fst ` set (AList.delete j post @ [(j, y)]) \<subseteq> K" using del[of j] j by simp
          ultimately show ?thesis unfolding kept_by_def by blast
        qed (use es sub del[of j] in \<open>auto simp: kept_by_def\<close>)
      qed
    next
      case (OSet j m rv)
      then have j: "j \<in> K" "j \<noteq> k" using key k Pair by auto
      show ?thesis
      proof (cases "js_trim j = []")
        case True
        then show ?thesis using K Pair OSet by (simp add: cache_set_def)
      next
        case False
        let ?y = "\<lparr>ce_response = cloneAssistantMessage z m, ce_projectRevision = rv, ce_expiresAt = t + pc_ttlMs c\<rparr>"
        let ?c = "c\<lparr>pc_entries := AList.delete j (pc_entries c) @ [(j, ?y)]\<rparr>"
        have e: "pc_entries ?c = AList.delete j pre @ (k, e) # (AList.delete j post @ [(j, ?y)])"
          using delete_other[OF j(2), of pre e post] by (simp add: es)
        have "distinct (map fst (pc_entries ?c))"
          using I delete_gone[of j "pc_entries c"] by (simp add: cache_inv_def distinct_delete)
        then have "kept_by K k e (evict ?c)"
          using kept_evict[OF e _ fin(1)] del[of j] j(1) fin(2) by simp
        then show ?thesis using False on Pair OSet by (simp add: cache_set_def Let_def)
      qed
    qed
  qed
qed

lemma run_op_keeps:
  "cache_inv c \<Longrightarrow> cache_inv (run_op z op c) \<and> pc_maxEntries (run_op z op c) = pc_maxEntries c \<and>
     pc_enabled (run_op z op c) = pc_enabled c"
proof (cases "(z, op, c)" rule: run_op.cases)
  case (2 z t k m rv c')
  assume I: "cache_inv c"
  let ?c = "c\<lparr>pc_entries := AList.delete k (pc_entries c) @ [(k, \<lparr>ce_response = cloneAssistantMessage z m, ce_projectRevision = rv,
    ce_expiresAt = t + pc_ttlMs c\<rparr>)]\<rparr>"
  have "distinct (map fst (pc_entries ?c))"
    using I delete_gone[of k "pc_entries c"] by (simp add: cache_inv_def distinct_delete)
  then show ?thesis using 2 set_inv[OF I] evict_entries[of ?c] by (auto simp: cache_set_def Let_def)
next
  case (1 z t k c')
  assume I: "cache_inv c"
  have "pc_maxEntries (snd (cache_get z t k c)) = pc_maxEntries c \<and> pc_enabled (snd (cache_get z t k c)) = pc_enabled c"
    by (simp add: cache_get_def split: option.split)
  then show ?thesis using 1 get_inv[OF I, of z t k] by simp
qed

lemma kept_run:
  assumes "kept_by K k e c" and "cache_inv c" and "finite K" and "card K < pc_maxEntries c" and "\<not> cache_off c" and "k \<notin> K"
    and "\<forall>op \<in> set ops. fst op < ce_expiresAt e \<and> (op_key (snd op) \<in> K \<or> (\<exists>t. op = (t, OGet k)))"
  shows "kept_by K k e (fold (run_op z) ops c) \<and> cache_inv (fold (run_op z) ops c) \<and> \<not> cache_off (fold (run_op z) ops c)"
  using assms
proof (induction ops arbitrary: c)
  case (Cons op ops)
  have "kept_by K k e (run_op z op c)" using Cons.prems by (intro kept_step) auto
  moreover have "cache_off (run_op z op c) = cache_off c" using run_op_keeps[OF Cons.prems(2)] by (simp add: cache_off_def)
  ultimately show ?case using Cons run_op_keeps[OF Cons.prems(2), of z op] by simp
qed simp

lemma kept_hit:
  assumes "cache_inv c" and "map_of (pc_entries c) k = Some e" and "now < ce_expiresAt e"
  shows "kept_by K k e (snd (cache_get z now k c)) \<and> cache_inv (snd (cache_get z now k c)) \<and>
    pc_maxEntries (snd (cache_get z now k c)) = pc_maxEntries c \<and> \<not> cache_off (snd (cache_get z now k c))"
proof -
  have on: "\<not> cache_off c" using assms(1,2) by (auto simp: cache_inv_def)
  then have "pc_entries (snd (cache_get z now k c)) = AList.delete k (pc_entries c) @ [(k, e)]"
    using assms by (simp add: cache_get_def)
  then have "kept_by K k e (snd (cache_get z now k c))"
    unfolding kept_by_def by (intro exI[of _ "AList.delete k (pc_entries c)"] exI[of _ "[]"]) simp
  moreover have "pc_maxEntries (snd (cache_get z now k c)) = pc_maxEntries c" "\<not> cache_off (snd (cache_get z now k c))"
    using on assms by (simp_all add: cache_get_def)
  ultimately show ?thesis using get_inv[OF assms(1)] by blast
qed

lemma kept_set:
  assumes "cache_inv c" and "\<not> cache_off c" and "js_trim k \<noteq> []" and "finite K" and "card K < pc_maxEntries c"
    and "e = \<lparr>ce_response = cloneAssistantMessage z m, ce_projectRevision = rv, ce_expiresAt = now + pc_ttlMs c\<rparr>"
  shows "kept_by K k e (snd (cache_set z now k m rv c)) \<and> cache_inv (snd (cache_set z now k m rv c)) \<and>
    pc_maxEntries (snd (cache_set z now k m rv c)) = pc_maxEntries c \<and> \<not> cache_off (snd (cache_set z now k m rv c))"
proof -
  let ?c = "c\<lparr>pc_entries := AList.delete k (pc_entries c) @ [(k, e)]\<rparr>"
  have s: "snd (cache_set z now k m rv c) = evict ?c" using assms(2,3,6) by (simp add: cache_set_def Let_def)
  have d: "distinct (map fst (pc_entries ?c))"
    using assms(1) delete_gone[of k "pc_entries c"] by (simp add: cache_inv_def distinct_delete)
  have "pc_entries ?c = AList.delete k (pc_entries c) @ (k, e) # []" by simp
  then have "kept_by K k e (evict ?c)" by (rule kept_evict[OF _ _ assms(4) _ d]) (use assms(5) in simp_all)
  moreover have "pc_maxEntries (evict ?c) = pc_maxEntries c" "\<not> cache_off (evict ?c)"
    using evict_entries[OF d] assms(2) by (simp_all add: cache_off_def)
  ultimately show ?thesis using set_inv[OF assms(1), of z now k m rv] unfolding s by blast
qed

text \<open>
  C23: the cache evicts least recently used entries only: a response that was just stored, or just returned by
  a lookup, is still returned, before it expires, after any sequence of lookups and insertions that uses
  fewer than \<open>maxEntries\<close> other keys and does not replace it.
\<close>

lemma recently_used_is_kept:
  assumes "cache_reach z c" and "finite K" and "card K < pc_maxEntries c" and "k \<notin> K"
    and "\<not> cache_off c \<and> js_trim k \<noteq> [] \<and> start = snd (cache_set z now k m rv c) \<and> deadline = now + pc_ttlMs c \<and>
        copy = cloneAssistantMessage z (cloneAssistantMessage z m) \<or>
      map_of (pc_entries c) k = Some e \<and> now < ce_expiresAt e \<and> start = snd (cache_get z now k c) \<and>
        deadline = ce_expiresAt e \<and> copy = cloneAssistantMessage z (ce_response e)"
    and "\<forall>op \<in> set ops. fst op < deadline \<and> (op_key (snd op) \<in> K \<or> (\<exists>t. op = (t, OGet k)))"
    and "later < deadline"
  shows "fst (cache_get z later k (fold (run_op z) ops start)) = Some copy"
proof -
  have I: "cache_inv c" by (rule cache_reach_inv[OF assms(1)])
  obtain x where x: "ce_expiresAt x = deadline" "copy = cloneAssistantMessage z (ce_response x)"
    and S: "kept_by K k x start \<and> cache_inv start \<and> pc_maxEntries start = pc_maxEntries c \<and> \<not> cache_off start"
    using assms(5)
  proof (elim disjE)
    assume "map_of (pc_entries c) k = Some e \<and> now < ce_expiresAt e \<and> start = snd (cache_get z now k c) \<and>
        deadline = ce_expiresAt e \<and> copy = cloneAssistantMessage z (ce_response e)"
    then show thesis using that[of e] kept_hit[OF I] by blast
  next
    let ?x = "\<lparr>ce_response = cloneAssistantMessage z m, ce_projectRevision = rv, ce_expiresAt = now + pc_ttlMs c\<rparr>"
    assume A: "\<not> cache_off c \<and> js_trim k \<noteq> [] \<and> start = snd (cache_set z now k m rv c) \<and> deadline = now + pc_ttlMs c \<and>
        copy = cloneAssistantMessage z (cloneAssistantMessage z m)"
    then show thesis using that[of ?x] kept_set[OF I _ _ assms(2,3) refl, of k z m rv now] by simp
  qed
  have "kept_by K k x (fold (run_op z) ops start) \<and> cache_inv (fold (run_op z) ops start) \<and>
      \<not> cache_off (fold (run_op z) ops start)"
    by (rule kept_run) (use S assms(2,3,4,6) x in auto)
  then show ?thesis using kept_map_of x assms(7) by (fastforce simp: cache_get_def)
qed

lemma recently_used_is_kept_witness:
  "fst (cache_get demo_scrubber 3 [97]
      (fold (run_op demo_scrubber) [(1, OSet [98] demo_message None), (2, OGet [97]), (2, OGet [98])]
        (snd (cache_set demo_scrubber 0 [97] demo_message None demo_cache)))) =
    Some \<lparr>ms_content = [\<lparr>ct_type = TextItem, ct_body = ()\<rparr>], ms_rest = ()\<rparr>"
  by (rule recently_used_is_kept[of demo_scrubber demo_cache "{[98]}" "[97]" _ 0 demo_message None 10])
    (simp_all add: js_trim_def js_space_def demo_clone)

end
