(* ===== verification/CacheKey.thy ===== *)
theory CacheKey
  imports ResponseCache "HOL-Library.List_Lexorder"
begin

text \<open>
  The cache keys of \<open>packages/agent-core/src/context/cache-contract.ts\<close>: \<open>stableSerialize\<close> and
  \<open>createRuntimeCacheKey\<close>. A value is the finite tree the serializer walks (it throws on a cyclic one); a
  number is one of the special values or a finite one, and the text \<open>JSON.stringify\<close> gives a finite
  number (the shortest decimal form) is an argument \<open>num\<close>. A date is its ISO text.
\<close>

section \<open>Strings of the serializer\<close>

definition hex_digit :: "nat \<Rightarrow> nat" where
  "hex_digit d = (if d < 10 then 48 + d else 87 + d)"

definition hex4 :: "nat \<Rightarrow> jstring" where
  "hex4 u = [hex_digit (u div 4096 mod 16), hex_digit (u div 256 mod 16), hex_digit (u div 16 mod 16), hex_digit (u mod 16)]"

definition escape_unit :: "nat \<Rightarrow> jstring" where
  "escape_unit u =
     (if u = 34 then [92, 34] else if u = 92 then [92, 92] else if u = 8 then [92, 98] else if u = 12 then [92, 102]
      else if u = 10 then [92, 110] else if u = 13 then [92, 114] else if u = 9 then [92, 116]
      else if u < 32 \<or> is_high u \<or> is_low u then 92 # 117 # hex4 u
      else [u])"

text \<open>\<open>JSON.stringify\<close> of a string: a surrogate outside a pair is escaped.\<close>

fun escape :: "jstring \<Rightarrow> jstring" where
  "escape [] = []"
| "escape [u] = escape_unit u"
| "escape (u # v # us) =
     (if is_high u \<and> is_low v then u # v # escape us else escape_unit u @ escape (v # us))"

definition quote :: "jstring \<Rightarrow> jstring" where
  "quote s = 34 # escape s @ [34]"

fun decimal :: "nat \<Rightarrow> jstring" where
  "decimal n = (if n < 10 then [48 + n] else decimal (n div 10) @ [48 + n mod 10])"

declare decimal.simps [simp del]

definition big_text :: "int \<Rightarrow> jstring" where
  "big_text i = (if i < 0 then 45 # decimal (nat (- i)) else decimal (nat i))"

fun commas :: "jstring list \<Rightarrow> jstring" where
  "commas [] = []"
| "commas [x] = x"
| "commas (x # y # xs) = x @ 44 # commas (y # xs)"

section \<open>Values and their serialization\<close>

datatype 'q snum = NotANumber | PosInfinity | NegInfinity | NegZero | Finite 'q

datatype 'q sval =
    SUndef
  | SNull
  | SStr jstring
  | SBool bool
  | SNum "'q snum"
  | SBig int
  | SFun
  | SSym jstring
  | SDate jstring
  | SArr "'q sval list"
  | SObj "(jstring \<times> 'q sval) list"

fun num_text :: "('q \<Rightarrow> jstring) \<Rightarrow> 'q snum \<Rightarrow> jstring" where
  "num_text num NotANumber = ascii ''number:NaN''"
| "num_text num PosInfinity = ascii ''number:Infinity''"
| "num_text num NegInfinity = ascii ''number:-Infinity''"
| "num_text num NegZero = ascii ''number:-0''"
| "num_text num (Finite q) = num q"

fun stableSerialize :: "('q \<Rightarrow> jstring) \<Rightarrow> 'q sval \<Rightarrow> jstring" where
  "stableSerialize num SUndef = ascii ''undefined''"
| "stableSerialize num SNull = ascii ''null''"
| "stableSerialize num (SStr s) = quote s"
| "stableSerialize num (SBool b) = (if b then ascii ''true'' else ascii ''false'')"
| "stableSerialize num (SNum n) = num_text num n"
| "stableSerialize num (SBig i) = ascii ''bigint:'' @ big_text i"
| "stableSerialize num SFun = ascii ''function''"
| "stableSerialize num (SSym s) = ascii ''symbol:Symbol('' @ s @ [41]"
| "stableSerialize num (SDate s) = ascii ''date:'' @ quote s"
| "stableSerialize num (SArr vs) = 91 # commas (map (stableSerialize num) vs) @ [93]"
| "stableSerialize num (SObj es) =
     123 # commas (map (\<lambda>(k, t). quote k @ 58 # t) (sort_key fst (map (\<lambda>(k, v). (k, stableSerialize num v)) es))) @ [125]"

text \<open>The value up to the order of the entries of its objects.\<close>

fun norm_value :: "'q sval \<Rightarrow> 'q sval" where
  "norm_value (SArr vs) = SArr (map norm_value vs)"
| "norm_value (SObj es) = SObj (sort_key fst (map (\<lambda>(k, v). (k, norm_value v)) es))"
| "norm_value v = v"

text \<open>
  The values whose serialization keeps their identity: no functions or symbols. The units of a string
  have sixteen bits and the keys of an object are distinct, as in every JavaScript value.
\<close>

definition units :: "jstring \<Rightarrow> bool" where
  "units s \<longleftrightarrow> (\<forall>u \<in> set s. u < 65536)"

fun plain :: "'q sval \<Rightarrow> bool" where
  "plain SFun = False"
| "plain (SSym s) = False"
| "plain (SStr s) = units s"
| "plain (SDate s) = units s"
| "plain (SArr vs) = (\<forall>v \<in> set vs. plain v)"
| "plain (SObj es) = (distinct (map fst es) \<and> (\<forall>(k, v) \<in> set es. units k \<and> plain v))"
| "plain v = True"

section \<open>Cache keys\<close>

record 'q key_input =
  ki_layer :: cache_layer
  ki_workspaceId :: "jstring option"
  ki_taskKind :: "jstring option"
  ki_instructionVersion :: "jstring option"
  ki_skillVersion :: "jstring option"
  ki_projectRevision :: "'q snum option"
  ki_contextFingerprint :: "jstring option"
  ki_model :: "jstring option"
  ki_provider :: "jstring option"
  ki_identity :: "'q sval"

fun layer_name :: "cache_layer \<Rightarrow> jstring" where
  "layer_name ProviderLayer = ascii ''provider''"
| "layer_name ContextLayer = ascii ''context''"
| "layer_name RetrievalLayer = ascii ''retrieval''"

definition or_null :: "jstring option \<Rightarrow> 'q sval" where
  "or_null s = (case s of None \<Rightarrow> SNull | Some t \<Rightarrow> SStr t)"

definition key_value :: "'q \<Rightarrow> 'q key_input \<Rightarrow> 'q sval" where
  "key_value one k = SObj
     [(ascii ''contextFingerprint'', or_null (ki_contextFingerprint k)),
      (ascii ''identity'', if ki_identity k = SUndef then SNull else ki_identity k),
      (ascii ''instructionVersion'', or_null (ki_instructionVersion k)),
      (ascii ''layer'', SStr (layer_name (ki_layer k))),
      (ascii ''model'', or_null (ki_model k)),
      (ascii ''projectRevision'', case ki_projectRevision k of None \<Rightarrow> SNull | Some n \<Rightarrow> SNum n),
      (ascii ''provider'', or_null (ki_provider k)),
      (ascii ''skillVersion'', or_null (ki_skillVersion k)),
      (ascii ''taskKind'', or_null (ki_taskKind k)),
      (ascii ''version'', SNum (Finite one)),
      (ascii ''workspaceId'', or_null (ki_workspaceId k))]"

text \<open>\<open>one\<close> is the number 1.\<close>

definition createRuntimeCacheKey :: "('q \<Rightarrow> jstring) \<Rightarrow> 'q \<Rightarrow> 'q key_input \<Rightarrow> jstring" where
  "createRuntimeCacheKey num one k = stableSerialize num (key_value one k)"

section \<open>Quoting can be undone\<close>

definition unhex :: "nat \<Rightarrow> nat" where
  "unhex c = (if c < 58 then c - 48 else c - 87)"

lemma unhex_digit [simp]: "d < 16 \<Longrightarrow> unhex (hex_digit d) = d"
  by (simp add: unhex_def hex_digit_def)

lemma base16: "16 * a + x = (u :: nat) \<Longrightarrow> 16 * b + y = a \<Longrightarrow> 16 * c + z = b \<Longrightarrow> 4096 * c + 256 * z + y * 16 + x = u"
  by linarith

lemma hex4_value: "4096 * (u div 4096) + 256 * (u div 256 mod 16) + u div 16 mod 16 * 16 + u mod 16 = (u :: nat)"
proof -
  have "u div 256 = u div 16 div 16" "u div 4096 = u div 16 div 16 div 16" by (simp_all add: div_mult2_eq[symmetric])
  then show ?thesis by (simp only:) (rule base16; rule mult_div_mod_eq)
qed

fun unescape_char :: "nat \<Rightarrow> nat" where
  "unescape_char c = (if c = 98 then 8 else if c = 102 then 12 else if c = 110 then 10 else if c = 114 then 13
     else if c = 116 then 9 else c)"

text \<open>Reads an escaped string up to its closing quote.\<close>

fun unescape :: "jstring \<Rightarrow> (jstring \<times> jstring) option" where
  "unescape [] = None"
| "unescape [c] = (if c = 34 then Some ([], []) else None)"
| "unescape (c # x # rest) =
     (if c = 34 then Some ([], x # rest)
      else if c = 92 then
        (if x = 117 then
           (case rest of
              a # b # d # e # rest' \<Rightarrow>
                map_option (\<lambda>(s, r). ((((unhex a * 16 + unhex b) * 16 + unhex d) * 16 + unhex e) # s, r)) (unescape rest')
            | _ \<Rightarrow> None)
         else map_option (\<lambda>(s, r). (unescape_char x # s, r)) (unescape rest))
      else map_option (\<lambda>(s, r). (c # s, r)) (unescape (x # rest)))"

lemma unescape_plain: "c \<noteq> 34 \<Longrightarrow> c \<noteq> 92 \<Longrightarrow> unescape (c # rest) = map_option (\<lambda>(s, r). (c # s, r)) (unescape rest)"
  by (cases rest) auto

lemma unescape_end: "unescape (34 # r) = Some ([], r)"
  by (cases r) auto

lemma unescape_unit: "u < 65536 \<Longrightarrow> unescape (escape_unit u @ rest) = map_option (\<lambda>(s, r). (u # s, r)) (unescape rest)"
  unfolding escape_unit_def hex4_def by (auto simp: hex4_value unescape_plain)

lemma unescape_escape: "\<forall>u \<in> set s. u < 65536 \<Longrightarrow> unescape (escape s @ 34 # r) = Some (s, r)"
  by (induction s rule: escape.induct) (auto simp: unescape_unit unescape_plain unescape_end is_high_def is_low_def)


lemma quote_prefix:
  "units s \<Longrightarrow> units t \<Longrightarrow> quote s @ r = quote t @ r' \<Longrightarrow> s = t \<and> r = r'"
proof -
  assume A: "units s" "units t" "quote s @ r = quote t @ r'"
  have "unescape (escape s @ 34 # r) = unescape (escape t @ 34 # r')" using A(3) by (simp add: quote_def)
  moreover have "unescape (escape s @ 34 # r) = Some (s, r)" "unescape (escape t @ 34 # r') = Some (t, r')"
    by (rule unescape_escape; use A(1,2) in \<open>simp add: units_def\<close>)+
  ultimately show ?thesis by simp
qed

section \<open>Numbers\<close>

definition numeric :: "nat \<Rightarrow> bool" where
  "numeric c \<longleftrightarrow> 48 \<le> c \<and> c \<le> 57 \<or> c = 43 \<or> c = 45 \<or> c = 46 \<or> c = 101"

text \<open>What is relied on of the text of a finite number: it is not empty, made of digits, a sign, a point and
  an exponent, starts with a digit or a minus, and no two numbers have the same.\<close>

definition num_ok :: "('q \<Rightarrow> jstring) \<Rightarrow> bool" where
  "num_ok num \<longleftrightarrow> inj num \<and>
     (\<forall>q. num q \<noteq> [] \<and> (\<forall>c \<in> set (num q). numeric c) \<and> (48 \<le> hd (num q) \<and> hd (num q) \<le> 57 \<or> hd (num q) = 45))"

definition ends :: "jstring \<Rightarrow> bool" where
  "ends r \<longleftrightarrow> r = [] \<or> hd r = 44 \<or> hd r = 93 \<or> hd r = 125"

lemma numeric_prefix:
  "\<forall>c \<in> set a. numeric c \<Longrightarrow> \<forall>c \<in> set b. numeric c \<Longrightarrow> ends r \<Longrightarrow> ends r' \<Longrightarrow> a @ r = b @ r' \<Longrightarrow> a = b \<and> r = r'"
proof -
  assume A: "\<forall>c \<in> set a. numeric c" "\<forall>c \<in> set b. numeric c" "ends r" "ends r'" "a @ r = b @ r'"
  have z: "takeWhile numeric x = []" if "ends x" for x using that by (cases x) (auto simp: ends_def numeric_def)
  have "takeWhile numeric (a @ r) = a" using A(1,3) z by (simp add: takeWhile_append2)
  moreover have "takeWhile numeric (b @ r') = b" using A(2,4) z by (simp add: takeWhile_append2)
  ultimately have "a = b" using A(5) by metis
  then show ?thesis using A(5) by simp
qed

lemma decimal_chars: "c \<in> set (decimal n) \<Longrightarrow> 48 \<le> c \<and> c \<le> 57"
proof (induction n rule: decimal.induct)
  case (1 n)
  then show ?case by (subst (asm) decimal.simps) (auto split: if_splits)
qed

lemma decimal_value: "foldl (\<lambda>a c. 10 * a + (c - 48)) 0 (decimal n) = n"
proof (induction n rule: decimal.induct)
  case (1 n)
  then show ?case by (subst decimal.simps) simp
qed

lemma decimal_inj: "decimal m = decimal n \<longleftrightarrow> m = n"
  using decimal_value by metis

lemma big_chars: "\<forall>c \<in> set (big_text i). numeric c"
  by (auto simp: big_text_def numeric_def dest!: decimal_chars)

lemma decimal_no_minus: "decimal n \<noteq> 45 # x"
  using decimal_chars[of 45 n] by auto

lemma big_inj: "big_text i = big_text j \<longleftrightarrow> i = j"
  using decimal_no_minus by (auto simp: big_text_def decimal_inj split: if_splits) (metis decimal_no_minus)+

section \<open>The serialization of a normal form\<close>

fun value_text :: "('q \<Rightarrow> jstring) \<Rightarrow> 'q sval \<Rightarrow> jstring" where
  "value_text num (SArr vs) = 91 # commas (map (value_text num) vs) @ [93]"
| "value_text num (SObj es) = 123 # commas (map (\<lambda>(k, v). quote k @ 58 # value_text num v) es) @ [125]"
| "value_text num v = stableSerialize num v"

lemma insort_key_values:
  "insort_key fst (k, h v) (map (\<lambda>(k, v). (k, h v)) xs) = map (\<lambda>(k, v). (k, h v)) (insort_key fst (k, v) xs)"
  by (induction xs) auto

lemma sort_key_values:
  "sort_key fst (map (\<lambda>(k, v). (k, h v)) xs) = map (\<lambda>(k, v). (k, h v)) (sort_key fst xs)"
  by (induction xs) (auto simp: insort_key_values)

lemma serialize_normal: "stableSerialize num v = value_text num (norm_value v)"
proof (induction v rule: norm_value.induct)
  case (2 es)
  have "map (\<lambda>(k, v). (k, stableSerialize num v)) es = map (\<lambda>(k, v). (k, value_text num v)) (map (\<lambda>(k, v). (k, norm_value v)) es)"
    using 2 by auto
  then have "sort_key fst (map (\<lambda>(k, v). (k, stableSerialize num v)) es) =
      map (\<lambda>(k, v). (k, value_text num v)) (sort_key fst (map (\<lambda>(k, v). (k, norm_value v)) es))"
    by (simp only: sort_key_values)
  then show ?case by (simp add: case_prod_beta' comp_def)
qed (simp_all cong: map_cong)

lemma plain_norm: "plain v \<Longrightarrow> plain (norm_value v)"
proof (induction v rule: norm_value.induct)
  case (2 es)
  have "map fst (map (\<lambda>(k, v). (k, norm_value v)) es) = map fst es" by (induction es) auto
  then have "distinct (map fst (sort_key fst (map (\<lambda>(k, v). (k, norm_value v)) es)))"
    using 2 by (metis (no_types, lifting) distinct_map distinct_sort plain.simps(6) set_sort)
  then show ?case using 2 by fastforce
qed simp_all

text \<open>Which constructor a text is of; \<open>null\<close> and the special numbers share two letters.\<close>

definition text_kind :: "jstring \<Rightarrow> nat" where
  "text_kind s =
     (let c = hd s
      in if c = 117 then 0 else if c = 34 then 2 else if c = 116 \<or> c = 102 then 3 else if c = 98 then 5
         else if c = 100 then 6 else if c = 91 then 7 else if c = 123 then 8
         else if take 3 s = [110, 117, 108] then 1 else 4)"

fun value_kind :: "'q sval \<Rightarrow> nat" where
  "value_kind SUndef = 0"
| "value_kind SNull = 1"
| "value_kind (SStr s) = 2"
| "value_kind (SBool b) = 3"
| "value_kind (SNum n) = 4"
| "value_kind (SBig i) = 5"
| "value_kind (SDate s) = 6"
| "value_kind (SArr vs) = 7"
| "value_kind (SObj es) = 8"
| "value_kind _ = 9"

lemma num_first:
  assumes "num_ok num"
  obtains c cs where "num q = c # cs" "48 \<le> c \<and> c \<le> 57 \<or> c = 45"
  using assms unfolding num_ok_def by (metis list.collapse)

lemma kind_of_text:
  assumes "num_ok num" and "plain v"
  shows "text_kind (value_text num v @ r) = value_kind v"
proof (cases v)
  case (SNum n)
  show ?thesis
  proof (cases n)
    case (Finite q)
    obtain c cs where "num q = c # cs" "48 \<le> c \<and> c \<le> 57 \<or> c = 45" using num_first[OF assms(1)] by blast
    then show ?thesis using SNum Finite by (auto simp: text_kind_def)
  qed (use SNum in \<open>simp_all add: text_kind_def ascii_def\<close>)
qed (use assms(2) in \<open>simp_all add: text_kind_def ascii_def quote_def\<close>)


lemma text_start:
  assumes "num_ok num" and "plain v"
  shows "value_text num v \<noteq> [] \<and> hd (value_text num v) \<noteq> 93"
proof (cases v)
  case (SNum n)
  show ?thesis
  proof (cases n)
    case (Finite q)
    obtain c cs where "num q = c # cs" "48 \<le> c \<and> c \<le> 57 \<or> c = 45" using num_first[OF assms(1)] by blast
    then show ?thesis using SNum Finite by auto
  qed (use SNum in \<open>simp_all add: ascii_def\<close>)
qed (use assms(2) in \<open>simp_all add: ascii_def quote_def\<close>)

section \<open>Serialization is injective\<close>

lemma commas_Cons: "commas (x # xs) = x @ (if xs = [] then [] else 44 # commas xs)"
  by (cases xs) simp_all

lemma commas_prefix:
  assumes "\<And>x y r r'. x \<in> set xs \<Longrightarrow> y \<in> set ys \<Longrightarrow> ends r \<Longrightarrow> ends r' \<Longrightarrow> f x @ r = f y @ r' \<Longrightarrow> x = y \<and> r = r'"
    and "\<And>x. x \<in> set xs \<union> set ys \<Longrightarrow> f x \<noteq> [] \<and> hd (f x) \<noteq> e" and e: "e = 93 \<or> e = 125"
    and "commas (map f xs) @ e # r = commas (map f ys) @ e # r'"
  shows "xs = ys \<and> r = r'"
  using assms(1,2,4)
proof (induction xs arbitrary: ys)
  case Nil
  show ?case
  proof (cases ys)
    case (Cons y zs)
    have "f y \<noteq> [] \<and> hd (f y) \<noteq> e" using Nil(2)[of y] Cons by simp
    then show ?thesis using Nil(3) Cons by (cases "f y") (auto simp: commas_Cons)
  qed (use Nil(3) in simp)
next
  case (Cons x xs)
  show ?case
  proof (cases ys)
    case Nil
    have "f x \<noteq> [] \<and> hd (f x) \<noteq> e" using Cons.prems(2)[of x] by simp
    then show ?thesis using Cons.prems(3) Nil by (cases "f x") (auto simp: commas_Cons)
  next
    case ys: (Cons y zs)
    let ?t = "\<lambda>us q. (if us = [] then [] else 44 # commas (map f us)) @ e # q"
    have "f x @ ?t xs r = f y @ ?t zs r'" using Cons.prems(3) ys by (simp add: commas_Cons)
    moreover have "ends (?t us q)" for us q using e by (simp add: ends_def)
    ultimately have "x = y \<and> ?t xs r = ?t zs r'" using ys by (intro Cons.prems(1)) simp_all
    then have xy: "x = y" "?t xs r = ?t zs r'" by blast+
    show ?thesis
    proof (cases "xs = [] \<or> zs = []")
      case True
      then show ?thesis using xy ys e by (auto split: if_splits)
    next
      case False
      have "xs = zs \<and> r = r'"
        by (rule Cons.IH) (use Cons.prems(1,2) ys xy(2) False in auto)
      then show ?thesis using xy ys by simp
    qed
  qed
qed

definition prefix_free :: "('q \<Rightarrow> jstring) \<Rightarrow> 'q sval \<Rightarrow> bool" where
  "prefix_free num v \<longleftrightarrow> (\<forall>w r r'. plain v \<longrightarrow> plain w \<longrightarrow> ends r \<longrightarrow> ends r' \<longrightarrow>
     value_text num v @ r = value_text num w @ r' \<longrightarrow> v = w \<and> r = r')"

lemma prefix_freeI:
  assumes "num_ok num" and "\<And>w r r'. plain v \<Longrightarrow> plain w \<Longrightarrow> value_kind v = value_kind w \<Longrightarrow> ends r \<Longrightarrow> ends r' \<Longrightarrow>
      value_text num v @ r = value_text num w @ r' \<Longrightarrow> v = w \<and> r = r'"
  shows "prefix_free num v"
  unfolding prefix_free_def
proof (intro allI impI)
  fix w r r'
  assume A: "plain v" "plain w" "ends r" "ends r'" "value_text num v @ r = value_text num w @ r'"
  have "value_kind v = value_kind w"
    using kind_of_text[OF assms(1) A(1), of r] kind_of_text[OF assms(1) A(2), of r'] A(5) by simp
  then show "v = w \<and> r = r'" using assms(2) A by blast
qed

lemma num_text_prefix:
  assumes "num_ok num" and "ends r" and "ends r'" and "num_text num m @ r = num_text num n @ r'"
  shows "m = n \<and> r = r'"
proof -
  have f: "\<And>p q. num p @ r = num q @ r' \<Longrightarrow> p = q \<and> r = r'"
    using numeric_prefix[OF _ _ assms(2,3)] assms(1) unfolding num_ok_def inj_def by metis
  have s: "num q @ x \<noteq> 110 # y" for q x y
  proof -
    obtain c cs where "num q = c # cs" "48 \<le> c \<and> c \<le> 57 \<or> c = 45" using num_first[OF assms(1)] by blast
    then show ?thesis by auto
  qed
  show ?thesis
    using assms(4) f s s[symmetric] by (cases m; cases n) (auto simp: ascii_def)
qed

lemma prefix_free_atom:
  assumes ok: "num_ok num" and at: "\<And>vs. v \<noteq> SArr vs" "\<And>es. v \<noteq> SObj es"
  shows "prefix_free num v"
proof (rule prefix_freeI[OF ok])
  fix w r r'
  assume A: "plain v" "plain w" "value_kind v = value_kind w" "ends r" "ends r'"
    "value_text num v @ r = value_text num w @ r'"
  show "v = w \<and> r = r'"
  proof (cases v)
    case (SStr s)
    then obtain t where "w = SStr t" using A(3) by (cases w) auto
    then show ?thesis using quote_prefix[of s t r r'] A(1,2,6) SStr by simp
  next
    case (SNum m)
    then obtain n where "w = SNum n" using A(3) by (cases w) auto
    then show ?thesis using num_text_prefix[OF ok A(4,5), of m n] A(6) SNum by simp
  next
    case (SBig i)
    then obtain j where "w = SBig j" using A(3) by (cases w) auto
    then show ?thesis using numeric_prefix[OF big_chars big_chars A(4,5), of i j] A(6) SBig by (simp add: big_inj)
  next
    case (SDate s)
    then obtain t where "w = SDate t" using A(3) by (cases w) auto
    then show ?thesis using quote_prefix[of s t r r'] A(1,2,6) SDate by simp
  next
    case (SBool b)
    then obtain c where "w = SBool c" using A(3) by (cases w) auto
    then show ?thesis using A(6) SBool by (auto simp: ascii_def split: if_splits)
  next
    case SUndef
    then have "w = SUndef" using A(3) by (cases w) auto
    then show ?thesis using A(6) SUndef by simp
  next
    case SNull
    then have "w = SNull" using A(3) by (cases w) auto
    then show ?thesis using A(6) SNull by simp
  qed (use A(1) at in auto)
qed

lemma prefix_free_all:
  assumes ok: "num_ok num"
  shows "prefix_free num v"
proof (induction v rule: norm_value.induct)
  case (1 vs)
  show ?case
  proof (rule prefix_freeI[OF ok])
    fix w r r'
    assume A: "plain (SArr vs)" "plain w" "value_kind (SArr vs) = value_kind w"
      "value_text num (SArr vs) @ r = value_text num w @ r'"
    then obtain ws where w: "w = SArr ws" by (cases w) auto
    have "vs = ws \<and> r = r'"
    proof (rule commas_prefix[where f = "value_text num" and e = 93])
      fix x y q q'
      assume "x \<in> set vs" "y \<in> set ws" "ends q" "ends q'" "value_text num x @ q = value_text num y @ q'"
      then show "x = y \<and> q = q'" using 1 A(1,2) w by (auto simp: prefix_free_def)
    next
      fix x
      assume "x \<in> set vs \<union> set ws"
      then show "value_text num x \<noteq> [] \<and> hd (value_text num x) \<noteq> 93" using text_start[OF ok] A(1,2) w by auto
    qed (use A(4) w in simp_all)
    then show "SArr vs = w \<and> r = r'" using w by simp
  qed
next
  case (2 es)
  show ?case
  proof (rule prefix_freeI[OF ok])
    fix w r r'
    assume A: "plain (SObj es)" "plain w" "value_kind (SObj es) = value_kind w"
      "value_text num (SObj es) @ r = value_text num w @ r'"
    then obtain ws where w: "w = SObj ws" by (cases w) auto
    let ?f = "\<lambda>(k, v). quote k @ 58 # value_text num v"
    have "es = ws \<and> r = r'"
    proof (rule commas_prefix[where f = ?f and e = 125])
      fix x y q q'
      assume B: "x \<in> set es" "y \<in> set ws" "ends q" "ends q'" "?f x @ q = ?f y @ q'"
      obtain k v k' v' where xy: "x = (k, v)" "y = (k', v')" by (cases x; cases y)
      have u: "units k" "units k'" "plain v" "plain v'" using A(1,2) B(1,2) w xy by auto
      have "quote k @ (58 # value_text num v @ q) = quote k' @ (58 # value_text num v' @ q')" using B(5) xy by simp
      then have "k = k'" "value_text num v @ q = value_text num v' @ q'" using quote_prefix[OF u(1,2)] by auto
      moreover have "prefix_free num v" using 2 B(1) xy by auto
      ultimately show "x = y \<and> q = q'" using u B(3,4) xy by (auto simp: prefix_free_def)
    qed (use A(4) w in \<open>auto simp: quote_def\<close>)
    then show "SObj es = w \<and> r = r'" using w by simp
  qed
qed (rule prefix_free_atom[OF ok]; simp)+

text \<open>Two plain values have the same serialization just when they differ at most in the order of entries.\<close>

lemma serialize_injective:
  assumes "num_ok num" and "plain v" and "plain w"
  shows "stableSerialize num v = stableSerialize num w \<longleftrightarrow> norm_value v = norm_value w"
proof
  assume "stableSerialize num v = stableSerialize num w"
  then have "value_text num (norm_value v) @ [] = value_text num (norm_value w) @ []"
    by (simp add: serialize_normal)
  then show "norm_value v = norm_value w"
    using prefix_free_all[OF assms(1), of "norm_value v"] plain_norm[OF assms(2)] plain_norm[OF assms(3)]
    unfolding prefix_free_def ends_def by blast
qed (simp add: serialize_normal)

section \<open>Cache keys\<close>

definition identity_of :: "'q key_input \<Rightarrow> 'q sval" where
  "identity_of k = (if ki_identity k = SUndef then SNull else ki_identity k)"

definition opt_units :: "jstring option \<Rightarrow> bool" where
  "opt_units s \<longleftrightarrow> (case s of None \<Rightarrow> True | Some t \<Rightarrow> units t)"

definition key_ok :: "'q key_input \<Rightarrow> bool" where
  "key_ok k \<longleftrightarrow> opt_units (ki_workspaceId k) \<and> opt_units (ki_taskKind k) \<and> opt_units (ki_instructionVersion k) \<and>
     opt_units (ki_skillVersion k) \<and> opt_units (ki_contextFingerprint k) \<and> opt_units (ki_model k) \<and>
     opt_units (ki_provider k) \<and> plain (ki_identity k)"

lemma of_char_small: "(of_char c :: nat) < 256"
proof -
  have "(of_char c :: nat) = of_char c mod 256" by (simp flip: of_char_of)
  then show ?thesis by presburger
qed

lemma units_ascii [simp]: "units (ascii s)"
proof -
  have "(of_char c :: nat) < 65536" for c using of_char_small[of c] by linarith
  then show ?thesis by (simp add: units_def ascii_def)
qed

lemma or_null_plain: "plain (or_null s) = opt_units s"
  by (simp add: or_null_def opt_units_def split: option.split)

lemma norm_or_null [simp]: "norm_value (or_null s) = or_null s"
  by (simp add: or_null_def split: option.split)

lemma or_null_inj [simp]: "or_null s = or_null t \<longleftrightarrow> s = t"
  by (auto simp: or_null_def split: option.splits)

lemma layer_name_inj [simp]: "layer_name l = layer_name m \<longleftrightarrow> l = m"
  by (cases l; cases m) (simp_all add: ascii_def)

lemma key_value_plain: "key_ok k \<Longrightarrow> plain (key_value one k)"
  by (cases "ki_layer k") (auto simp: key_value_def key_ok_def or_null_plain ascii_def units_def split: option.split)

text \<open>The entries of a key in normal form, before they are sorted.\<close>

definition key_fields :: "'q \<Rightarrow> 'q key_input \<Rightarrow> (jstring \<times> 'q sval) list" where
  "key_fields one k = (case key_value one k of SObj es \<Rightarrow> map (\<lambda>(n, v). (n, norm_value v)) es | _ \<Rightarrow> [])"

lemma norm_key: "norm_value (key_value one k) = SObj (sort_key fst (key_fields one k))"
  by (simp add: key_fields_def key_value_def)

lemma key_fields_distinct: "distinct (map fst (key_fields one k))"
  by (simp add: key_fields_def key_value_def ascii_def)

lemma norm_key_map:
  "norm_value (key_value one a) = norm_value (key_value one b) \<Longrightarrow> map_of (key_fields one a) = map_of (key_fields one b)"
proof -
  assume "norm_value (key_value one a) = norm_value (key_value one b)"
  then have "sort_key fst (key_fields one a) = sort_key fst (key_fields one b)" unfolding norm_key by (simp only: sval.inject)
  then have "set (sort_key fst (key_fields one a)) = set (sort_key fst (key_fields one b))" by (rule arg_cong)
  then show ?thesis unfolding set_sort map_of_inject_set[OF key_fields_distinct key_fields_distinct] .
qed

definition same_key :: "'q key_input \<Rightarrow> 'q key_input \<Rightarrow> bool" where
  "same_key a b \<longleftrightarrow> ki_layer a = ki_layer b \<and> ki_workspaceId a = ki_workspaceId b \<and> ki_taskKind a = ki_taskKind b \<and>
     ki_instructionVersion a = ki_instructionVersion b \<and> ki_skillVersion a = ki_skillVersion b \<and>
     ki_projectRevision a = ki_projectRevision b \<and> ki_contextFingerprint a = ki_contextFingerprint b \<and>
     ki_model a = ki_model b \<and> ki_provider a = ki_provider b \<and> norm_value (identity_of a) = norm_value (identity_of b)"

definition revision_value :: "'q snum option \<Rightarrow> 'q sval" where
  "revision_value r = (case r of None \<Rightarrow> SNull | Some n \<Rightarrow> SNum n)"

lemma revision_value_inj [simp]: "revision_value r = revision_value t \<longleftrightarrow> r = t"
  by (auto simp: revision_value_def split: option.splits)

lemma norm_revision [simp]: "norm_value (revision_value r) = revision_value r"
  by (simp add: revision_value_def split: option.split)

lemma key_fields_eq: "key_fields one k =
   [(ascii ''contextFingerprint'', or_null (ki_contextFingerprint k)), (ascii ''identity'', norm_value (identity_of k)),
    (ascii ''instructionVersion'', or_null (ki_instructionVersion k)), (ascii ''layer'', SStr (layer_name (ki_layer k))),
    (ascii ''model'', or_null (ki_model k)), (ascii ''projectRevision'', revision_value (ki_projectRevision k)),
    (ascii ''provider'', or_null (ki_provider k)), (ascii ''skillVersion'', or_null (ki_skillVersion k)),
    (ascii ''taskKind'', or_null (ki_taskKind k)), (ascii ''version'', SNum (Finite one)),
    (ascii ''workspaceId'', or_null (ki_workspaceId k))]"
  unfolding key_fields_def key_value_def identity_of_def revision_value_def[symmetric]
  by simp

lemma key_fields_same: "map_of (key_fields one a) = map_of (key_fields one b) \<Longrightarrow> same_key a b"
proof -
  assume E: "map_of (key_fields one a) = map_of (key_fields one b)"
  have look: "map_of (key_fields one a) n = map_of (key_fields one b) n" for n using E by simp
  have "or_null (ki_contextFingerprint a) = or_null (ki_contextFingerprint b)"
    using look[of "ascii ''contextFingerprint''"] by (simp add: key_fields_eq)
  moreover have "norm_value (identity_of a) = norm_value (identity_of b)"
    using look[of "ascii ''identity''"] by (simp add: key_fields_eq ascii_def)
  moreover have "or_null (ki_instructionVersion a) = or_null (ki_instructionVersion b)"
    using look[of "ascii ''instructionVersion''"] by (simp add: key_fields_eq ascii_def)
  moreover have "layer_name (ki_layer a) = layer_name (ki_layer b)"
    using look[of "ascii ''layer''"] by (simp add: key_fields_eq ascii_def)
  moreover have "or_null (ki_model a) = or_null (ki_model b)"
    using look[of "ascii ''model''"] by (simp add: key_fields_eq ascii_def)
  moreover have "revision_value (ki_projectRevision a) = revision_value (ki_projectRevision b)"
    using look[of "ascii ''projectRevision''"] by (simp add: key_fields_eq ascii_def)
  moreover have "or_null (ki_provider a) = or_null (ki_provider b)"
    using look[of "ascii ''provider''"] by (simp add: key_fields_eq ascii_def)
  moreover have "or_null (ki_skillVersion a) = or_null (ki_skillVersion b)"
    using look[of "ascii ''skillVersion''"] by (simp add: key_fields_eq ascii_def)
  moreover have "or_null (ki_taskKind a) = or_null (ki_taskKind b)"
    using look[of "ascii ''taskKind''"] by (simp add: key_fields_eq ascii_def)
  moreover have "or_null (ki_workspaceId a) = or_null (ki_workspaceId b)"
    using look[of "ascii ''workspaceId''"] by (simp add: key_fields_eq ascii_def)
  ultimately show ?thesis by (simp add: same_key_def)
qed

text \<open>
  C11: two requests share a cache key exactly when they agree on the layer, the workspace, every version,
  the revision, the model and the provider, and their identities differ at most in the order of object
  entries: no response is replayed in another workspace.
\<close>

lemma cache_keys_isolate:
  assumes "num_ok num" and "key_ok a" and "key_ok b"
  shows "createRuntimeCacheKey num one a = createRuntimeCacheKey num one b \<longleftrightarrow>
    ki_layer a = ki_layer b \<and> ki_workspaceId a = ki_workspaceId b \<and> ki_taskKind a = ki_taskKind b \<and>
    ki_instructionVersion a = ki_instructionVersion b \<and> ki_skillVersion a = ki_skillVersion b \<and>
    ki_projectRevision a = ki_projectRevision b \<and> ki_contextFingerprint a = ki_contextFingerprint b \<and>
    ki_model a = ki_model b \<and> ki_provider a = ki_provider b \<and>
    norm_value (if ki_identity a = SUndef then SNull else ki_identity a) =
      norm_value (if ki_identity b = SUndef then SNull else ki_identity b)"
proof -
  have "createRuntimeCacheKey num one a = createRuntimeCacheKey num one b \<longleftrightarrow>
      norm_value (key_value one a) = norm_value (key_value one b)"
    unfolding createRuntimeCacheKey_def
    by (rule serialize_injective[OF assms(1) key_value_plain[OF assms(2)] key_value_plain[OF assms(3)]])
  moreover have "norm_value (key_value one a) = norm_value (key_value one b) \<Longrightarrow> same_key a b"
    by (rule key_fields_same[OF norm_key_map])
  moreover have "same_key a b \<Longrightarrow> norm_value (key_value one a) = norm_value (key_value one b)"
    unfolding norm_key key_fields_eq same_key_def by simp
  ultimately show ?thesis unfolding same_key_def identity_of_def by blast
qed

definition demo_num :: "bool \<Rightarrow> jstring" where
  "demo_num b = (if b then [49] else [48])"

definition demo_key :: "jstring option \<Rightarrow> bool key_input" where
  "demo_key w = \<lparr>ki_layer = ProviderLayer, ki_workspaceId = w, ki_taskKind = None, ki_instructionVersion = None,
     ki_skillVersion = None, ki_projectRevision = Some (Finite False), ki_contextFingerprint = None, ki_model = None,
     ki_provider = None, ki_identity = SArr [SStr [34, 44], SUndef]\<rparr>"

lemma cache_keys_isolate_witness:
  "createRuntimeCacheKey demo_num True (demo_key (Some [97])) \<noteq> createRuntimeCacheKey demo_num True (demo_key None)"
proof -
  have n: "num_ok demo_num" by (auto simp: num_ok_def demo_num_def numeric_def inj_def)
  have k: "key_ok (demo_key (Some [97]))" "key_ok (demo_key None)"
    by (simp_all add: key_ok_def demo_key_def opt_units_def units_def)
  show ?thesis using cache_keys_isolate[OF n k, of True] by (simp add: demo_key_def)
qed

end
