(* ===== verification/Ledger.thy ===== *)
theory Ledger
  imports Utf8
begin

text \<open>
  \<open>packages/agent-core/src/proposals/domain-proposal-ledger.ts\<close> with the validation of
  \<open>packages/protocol/src/domain-proposal.ts\<close>: the review of changes that an agent proposes to the
  author's data. A stored proposal is mutated in place, so an operation that throws after it began to
  write leaves what it wrote; every operation returns the ledger it leaves. \<open>commit\<close> and \<open>undo\<close> wait for the
  caller's \<open>apply\<close>: they are two steps, and what is waiting is a frame. Calls of \<open>apply\<close> are logged.
  A revision is \<open>None\<close> when it is not an integer, and small enough to be incremented exactly; patches are
  opaque values; \<open>cloneValue\<close> copies.
\<close>

section \<open>Proposals\<close>

datatype proposal_operation = CreateOp | UpdateOp | DeleteOp

datatype 'p proposal_evidence = NoEvidence | EvidenceList "'p list" | NotAList

datatype proposal_status = Pending | Accepted | Rejected | Stale | Committed | Undone

record 'p proposal =
  dp_id :: jstring
  dp_taskId :: jstring
  dp_baseRevision :: "int option"
  dp_sourceHash :: "jstring option"
  dp_target :: "jstring \<times> jstring"
  dp_operation :: proposal_operation
  dp_patch :: "'p option"
  dp_evidence :: "'p proposal_evidence"
  dp_reason :: "jstring option"

record 'p precord = "'p proposal" +
  pr_status :: proposal_status
  pr_createdAt :: int
  pr_updatedAt :: int
  pr_committedRevision :: "int option"
  pr_inversePatch :: "'p option"

record 'p commit_receipt =
  rt_proposalId :: jstring
  rt_target :: "jstring \<times> jstring"
  rt_operation :: proposal_operation
  rt_patch :: "'p option"
  rt_inversePatch :: "'p option"
  rt_revision :: int

datatype ledger_error =
    EmptyIdentifiers | BadBaseRevision | EmptyTarget | PatchRequired | EvidenceNotArray | AlreadyExists
  | UnknownProposal | NotPending | NotModifiable | NotRebasable | TransformThrew | InvalidRebaseRevision
  | NotAccepted | InvalidCurrentRevision | RevisionConflict "int option" "int option" | HashMismatch
  | AlreadyCommitting | NotCommitted | NoInversePatch | ApplyFailed

definition valid_revision :: "int option \<Rightarrow> bool" where
  "valid_revision r \<longleftrightarrow> (case r of None \<Rightarrow> False | Some i \<Rightarrow> 0 \<le> i)"

text \<open>What \<open>validateDomainProposal\<close> throws, if it throws.\<close>

definition validateDomainProposal :: "('p, 'z) proposal_scheme \<Rightarrow> ledger_error option" where
  "validateDomainProposal p =
     (if js_trim (dp_id p) = [] \<or> js_trim (dp_taskId p) = [] then Some EmptyIdentifiers
      else if \<not> valid_revision (dp_baseRevision p) then Some BadBaseRevision
      else if js_trim (fst (dp_target p)) = [] \<or> js_trim (snd (dp_target p)) = [] then Some EmptyTarget
      else if dp_operation p \<noteq> DeleteOp \<and> dp_patch p = None then Some PatchRequired
      else if dp_evidence p = NotAList then Some EvidenceNotArray
      else None)"

section \<open>The ledger\<close>

datatype apply_kind = ApplyCommit | ApplyUndo

record 'p ledger =
  pl_proposals :: "(jstring \<times> 'p precord) list"
  pl_committing :: "jstring list"
  pl_commits :: "(jstring \<times> int) list"
  pl_undos :: "(jstring \<times> int) list"
  pl_applied :: "(apply_kind \<times> jstring \<times> 'p option \<times> int) list"

definition newLedger :: "'p ledger" where
  "newLedger = \<lparr>pl_proposals = [], pl_committing = [], pl_commits = [], pl_undos = [], pl_applied = []\<rparr>"

definition the_proposal :: "jstring \<Rightarrow> 'p ledger \<Rightarrow> 'p precord option" where
  "the_proposal i l = map_of (pl_proposals l) i"

definition put_proposal :: "jstring \<Rightarrow> 'p precord \<Rightarrow> 'p ledger \<Rightarrow> 'p ledger" where
  "put_proposal i p l = l\<lparr>pl_proposals := AList.update i p (pl_proposals l)\<rparr>"

definition create_proposal :: "'p proposal \<Rightarrow> int \<Rightarrow> 'p ledger \<Rightarrow> (ledger_error, 'p precord) res \<times> 'p ledger" where
  "create_proposal p createdAt l =
     (case validateDomainProposal p of
        Some e \<Rightarrow> (Throw e, l)
      | None \<Rightarrow>
          if the_proposal (dp_id p) l \<noteq> None then (Throw AlreadyExists, l)
          else let stored = proposal.extend p \<lparr>pr_status = Pending, pr_createdAt = createdAt, pr_updatedAt = createdAt,
                              pr_committedRevision = None, pr_inversePatch = None\<rparr>
               in (Ok stored, put_proposal (dp_id p) stored l))"

definition list_proposals :: "(jstring \<times> jstring) option \<Rightarrow> 'p ledger \<Rightarrow> 'p precord list" where
  "list_proposals target l =
     filter (\<lambda>p. case target of None \<Rightarrow> True | Some t \<Rightarrow> dp_target p = t) (map snd (pl_proposals l))"

text \<open>\<open>require\<close>: the operation on an existing proposal.\<close>

definition with_proposal ::
  "jstring \<Rightarrow> ('p precord \<Rightarrow> 'p ledger \<Rightarrow> (ledger_error, 'a) res \<times> 'p ledger) \<Rightarrow> 'p ledger \<Rightarrow> (ledger_error, 'a) res \<times> 'p ledger" where
  "with_proposal i f l = (case the_proposal i l of None \<Rightarrow> (Throw UnknownProposal, l) | Some p \<Rightarrow> f p l)"

definition decide_proposal :: "proposal_status \<Rightarrow> int \<Rightarrow> jstring \<Rightarrow> 'p ledger \<Rightarrow> (ledger_error, 'p precord) res \<times> 'p ledger" where
  "decide_proposal st now i = with_proposal i (\<lambda>p l.
     if pr_status p \<noteq> Pending then (Throw NotPending, l)
     else let p' = p\<lparr>pr_status := st, pr_updatedAt := now\<rparr> in (Ok p', put_proposal i p' l))"

definition accept_proposal :: "int \<Rightarrow> jstring \<Rightarrow> 'p ledger \<Rightarrow> (ledger_error, 'p precord) res \<times> 'p ledger" where
  "accept_proposal now i = decide_proposal Accepted now i"

definition reject_proposal :: "int \<Rightarrow> jstring \<Rightarrow> 'p ledger \<Rightarrow> (ledger_error, 'p precord) res \<times> 'p ledger" where
  "reject_proposal now i = decide_proposal Rejected now i"

record 'p change =
  ch_patch :: "'p option"
  ch_reason :: "jstring option"
  ch_baseRevision :: "int option option"
  ch_sourceHash :: "jstring option"

definition given_or :: "'a option \<Rightarrow> 'a option \<Rightarrow> 'a option" where
  "given_or new old = (case new of None \<Rightarrow> old | Some x \<Rightarrow> Some x)"

text \<open>The validation at the end of \<open>modify\<close> and \<open>rebase\<close>, then the return to review.\<close>

definition back_to_review :: "int \<Rightarrow> jstring \<Rightarrow> 'p precord \<Rightarrow> 'p ledger \<Rightarrow> (ledger_error, 'p precord) res \<times> 'p ledger" where
  "back_to_review now i p l =
     (case validateDomainProposal p of
        Some e \<Rightarrow> (Throw e, put_proposal i p l)
      | None \<Rightarrow> let p' = p\<lparr>pr_status := Pending, pr_updatedAt := now\<rparr> in (Ok p', put_proposal i p' l))"

definition modify_proposal :: "int \<Rightarrow> jstring \<Rightarrow> 'p change \<Rightarrow> 'p ledger \<Rightarrow> (ledger_error, 'p precord) res \<times> 'p ledger" where
  "modify_proposal now i change = with_proposal i (\<lambda>p l.
     if pr_status p = Committed \<or> pr_status p = Undone then (Throw NotModifiable, l)
     else let p1 = p\<lparr>dp_patch := given_or (ch_patch change) (dp_patch p),
                     dp_reason := given_or (ch_reason change) (dp_reason p),
                     dp_sourceHash := given_or (ch_sourceHash change) (dp_sourceHash p)\<rparr>
          in case ch_baseRevision change of
               None \<Rightarrow> back_to_review now i p1 l
             | Some r \<Rightarrow> if \<not> valid_revision r then (Throw BadBaseRevision, put_proposal i p1 l)
                         else back_to_review now i (p1\<lparr>dp_baseRevision := r\<rparr>) l)"

text \<open>\<open>transform\<close> is the caller's function on the patch; it may throw.\<close>

definition rebase_proposal ::
  "int \<Rightarrow> jstring \<Rightarrow> int option \<Rightarrow> ('p option \<Rightarrow> 'p option option) \<Rightarrow> jstring option \<Rightarrow> 'p ledger \<Rightarrow>
     (ledger_error, 'p precord) res \<times> 'p ledger" where
  "rebase_proposal now i currentRevision transform currentSourceHash = with_proposal i (\<lambda>p l.
     if pr_status p \<notin> {Pending, Accepted, Stale} then (Throw NotRebasable, l)
     else if \<not> valid_revision currentRevision then (Throw InvalidRebaseRevision, l)
     else case transform (dp_patch p) of
            None \<Rightarrow> (Throw TransformThrew, l)
          | Some q \<Rightarrow> back_to_review now i
              (p\<lparr>dp_patch := q, dp_baseRevision := currentRevision, dp_sourceHash := currentSourceHash\<rparr>) l)"

text \<open>\<open>assertCurrent\<close>: what it throws, if it throws, and the proposal it leaves.\<close>

definition assertCurrent :: "int \<Rightarrow> 'p precord \<Rightarrow> int option \<Rightarrow> jstring option \<Rightarrow> ledger_error option \<times> 'p precord" where
  "assertCurrent now p revision sourceHash =
     (if \<not> valid_revision revision then (Some InvalidCurrentRevision, p)
      else if revision \<noteq> dp_baseRevision p then
        (Some (RevisionConflict (dp_baseRevision p) revision), p\<lparr>pr_status := Stale, pr_updatedAt := now\<rparr>)
      else if sourceHash \<noteq> None \<and> dp_sourceHash p \<noteq> None \<and> sourceHash \<noteq> dp_sourceHash p then
        (Some HashMismatch, p\<lparr>pr_status := Stale, pr_updatedAt := now\<rparr>)
      else (None, p))"

text \<open>\<open>commit\<close> up to its \<open>await\<close>: the frame is the id and the next revision.\<close>

definition commitBegin ::
  "int \<Rightarrow> jstring \<Rightarrow> int option \<Rightarrow> jstring option \<Rightarrow> 'p ledger \<Rightarrow> (ledger_error, jstring \<times> int) res \<times> 'p ledger" where
  "commitBegin now i currentRevision currentSourceHash = with_proposal i (\<lambda>p l.
     if pr_status p \<noteq> Accepted then (Throw NotAccepted, l)
     else case assertCurrent now p currentRevision currentSourceHash of
            (Some e, p') \<Rightarrow> (Throw e, put_proposal i p' l)
          | (None, _) \<Rightarrow>
              if i \<in> set (pl_committing l) then (Throw AlreadyCommitting, l)
              else let next = the currentRevision + 1
                   in (Ok (i, next), l\<lparr>pl_committing := i # pl_committing l, pl_commits := (i, next) # pl_commits l,
                                       pl_applied := pl_applied l @ [(ApplyCommit, i, dp_patch p, next)]\<rparr>))"

text \<open>How the caller's function ended: with an inverse patch or without, or by throwing (a conflict or not).\<close>

datatype 'p applied = Returned "'p option" | Threw bool

definition receipt_of :: "'p precord \<Rightarrow> int \<Rightarrow> 'p option \<Rightarrow> 'p option \<Rightarrow> 'p commit_receipt" where
  "receipt_of p revision patch inv_patch =
     \<lparr>rt_proposalId = dp_id p, rt_target = dp_target p, rt_operation = dp_operation p, rt_patch = patch,
      rt_inversePatch = inv_patch, rt_revision = revision\<rparr>"

definition apply_failed :: "int \<Rightarrow> bool \<Rightarrow> 'p precord \<Rightarrow> 'p precord" where
  "apply_failed now conflict p = (if conflict then p\<lparr>pr_status := Stale, pr_updatedAt := now\<rparr> else p\<lparr>pr_updatedAt := now\<rparr>)"

definition commitEnd :: "int \<Rightarrow> jstring \<times> int \<Rightarrow> 'p applied \<Rightarrow> 'p ledger \<Rightarrow> (ledger_error, 'p commit_receipt) res \<times> 'p ledger" where
  "commitEnd now f outcome l0 =
     (let i = fst f; next = snd f;
          l = l0\<lparr>pl_committing := removeAll i (pl_committing l0), pl_commits := remove1 f (pl_commits l0)\<rparr>
      in with_proposal i (\<lambda>p l. case outcome of
             Threw conflict \<Rightarrow> (Throw ApplyFailed, put_proposal i (apply_failed now conflict p) l)
           | Returned inv_patch \<Rightarrow>
               let p' = p\<lparr>pr_inversePatch := inv_patch, pr_committedRevision := Some next, pr_status := Committed,
                         pr_updatedAt := now\<rparr>
               in (Ok (receipt_of p' next (dp_patch p') (pr_inversePatch p')), put_proposal i p' l)) l)"

definition undoBegin :: "int \<Rightarrow> jstring \<Rightarrow> int option \<Rightarrow> 'p ledger \<Rightarrow> (ledger_error, jstring \<times> int) res \<times> 'p ledger" where
  "undoBegin now i currentRevision = with_proposal i (\<lambda>p l.
     if pr_status p \<noteq> Committed then (Throw NotCommitted, l)
     else if pr_inversePatch p = None then (Throw NoInversePatch, l)
     else let committed = (case pr_committedRevision p of Some r \<Rightarrow> Some r | None \<Rightarrow> currentRevision)
          in if currentRevision \<noteq> committed then
               (Throw (RevisionConflict committed currentRevision), put_proposal i (p\<lparr>pr_status := Stale, pr_updatedAt := now\<rparr>) l)
             else let next = the currentRevision + 1
                  in (Ok (i, next), l\<lparr>pl_undos := (i, next) # pl_undos l,
                                   pl_applied := pl_applied l @ [(ApplyUndo, i, pr_inversePatch p, next)]\<rparr>))"

definition undoEnd :: "int \<Rightarrow> jstring \<times> int \<Rightarrow> 'p applied \<Rightarrow> 'p ledger \<Rightarrow> (ledger_error, 'p commit_receipt) res \<times> 'p ledger" where
  "undoEnd now f outcome l0 =
     (let i = fst f; l = l0\<lparr>pl_undos := remove1 f (pl_undos l0)\<rparr>
      in with_proposal i (\<lambda>p l. case outcome of
             Threw conflict \<Rightarrow> (Throw ApplyFailed, put_proposal i (apply_failed now conflict p) l)
           | Returned _ \<Rightarrow>
               let p' = p\<lparr>pr_status := Undone, pr_updatedAt := now\<rparr>
               in (Ok (receipt_of p' (snd f) (pr_inversePatch p') None), put_proposal i p' l)) l)"

inductive ledger_step :: "'p ledger \<Rightarrow> 'p ledger \<Rightarrow> bool" where
  "ledger_step l (snd (create_proposal p t l))"
| "ledger_step l (snd (accept_proposal now i l))"
| "ledger_step l (snd (reject_proposal now i l))"
| "ledger_step l (snd (modify_proposal now i ch l))"
| "ledger_step l (snd (rebase_proposal now i r tr h l))"
| "ledger_step l (snd (commitBegin now i r h l))"
| "f \<in> set (pl_commits l) \<Longrightarrow> ledger_step l (snd (commitEnd now f oc l))"
| "ledger_step l (snd (undoBegin now i r l))"
| "f \<in> set (pl_undos l) \<Longrightarrow> ledger_step l (snd (undoEnd now f oc l))"

definition ledger_reach :: "'p ledger \<Rightarrow> bool" where
  "ledger_reach l \<longleftrightarrow> ledger_step\<^sup>*\<^sup>* newLedger l"

section \<open>Reachable ledgers\<close>

lemma the_put [simp]:
  "the_proposal j (put_proposal i p l) = (if j = i then Some p else the_proposal j l)"
  "pl_committing (put_proposal i p l) = pl_committing l" "pl_commits (put_proposal i p l) = pl_commits l"
  "pl_undos (put_proposal i p l) = pl_undos l" "pl_applied (put_proposal i p l) = pl_applied l"
  by (simp_all add: the_proposal_def put_proposal_def update_conv')

lemma the_proposal_core [simp]:
  "the_proposal i (l\<lparr>pl_committing := c\<rparr>) = the_proposal i l" "the_proposal i (l\<lparr>pl_commits := f\<rparr>) = the_proposal i l"
  "the_proposal i (l\<lparr>pl_undos := u\<rparr>) = the_proposal i l" "the_proposal i (l\<lparr>pl_applied := a\<rparr>) = the_proposal i l"
  by (simp_all add: the_proposal_def)

definition precord_ok :: "jstring \<Rightarrow> 'p precord \<Rightarrow> bool" where
  "precord_ok i p \<longleftrightarrow> dp_id p = i \<and> valid_revision (dp_baseRevision p) \<and>
     (pr_status p = Committed \<longrightarrow> pr_committedRevision p \<noteq> None)"

definition frames_ok :: "'p ledger \<Rightarrow> bool" where
  "frames_ok l \<longleftrightarrow> distinct (map fst (pl_commits l)) \<and> distinct (pl_committing l) \<and>
     set (pl_committing l) = fst ` set (pl_commits l) \<and>
     (\<forall>(i, n) \<in> set (pl_commits l). 0 < n \<and> the_proposal i l \<noteq> None)"

definition ledger_inv :: "'p ledger \<Rightarrow> bool" where
  "ledger_inv l \<longleftrightarrow> (\<forall>i p. the_proposal i l = Some p \<longrightarrow> precord_ok i p) \<and> frames_ok l"

lemma ledger_inv_put: "ledger_inv l \<Longrightarrow> precord_ok i p \<Longrightarrow> ledger_inv (put_proposal i p l)"
  by (auto simp: ledger_inv_def frames_ok_def split: if_splits)

lemma inv_precord_ok: "ledger_inv l \<Longrightarrow> the_proposal i l = Some p \<Longrightarrow> precord_ok i p"
  by (simp add: ledger_inv_def)

text \<open>An operation on an existing proposal keeps the invariant when it does on every sound one.\<close>

lemma inv_with:
  assumes "ledger_inv l" and "\<And>p. the_proposal i l = Some p \<Longrightarrow> precord_ok i p \<Longrightarrow> ledger_inv (snd (f p l))"
  shows "ledger_inv (snd (with_proposal i f l))"
  using assms inv_precord_ok[OF assms(1)] by (auto simp: with_proposal_def split: option.split)

lemma inv_back:
  assumes "ledger_inv l" and "dp_id p = i" and "valid_revision (dp_baseRevision p)"
    and "pr_status p \<noteq> Committed" and "pr_status p \<noteq> Undone"
  shows "ledger_inv (snd (back_to_review now i p l))"
  using assms unfolding back_to_review_def Let_def
  by (auto simp: precord_ok_def intro!: ledger_inv_put split: option.split)

lemma inv_create: "ledger_inv l \<Longrightarrow> ledger_inv (snd (create_proposal p t l))"
proof -
  assume I: "ledger_inv l"
  have "validateDomainProposal p = None \<Longrightarrow> valid_revision (dp_baseRevision p)"
    by (auto simp: validateDomainProposal_def split: if_splits)
  then show ?thesis using I unfolding create_proposal_def Let_def
    by (auto simp: precord_ok_def proposal.defs intro!: ledger_inv_put split: option.split)
qed

lemma inv_decide:
  "ledger_inv l \<Longrightarrow> st \<noteq> Committed \<Longrightarrow> st \<noteq> Undone \<Longrightarrow> ledger_inv (snd (decide_proposal st now i l))"
  unfolding decide_proposal_def Let_def
  by (rule inv_with) (auto simp: precord_ok_def intro!: ledger_inv_put)

lemma inv_modify: "ledger_inv l \<Longrightarrow> ledger_inv (snd (modify_proposal now i ch l))"
  unfolding modify_proposal_def Let_def
proof (rule inv_with, assumption)
  fix p :: "'a precord"
  assume I: "ledger_inv l" and p: "precord_ok i p"
  let ?p = "p\<lparr>dp_patch := given_or (ch_patch ch) (dp_patch p), dp_reason := given_or (ch_reason ch) (dp_reason p),
    dp_sourceHash := given_or (ch_sourceHash ch) (dp_sourceHash p)\<rparr>"
  have "precord_ok i ?p" using p by (simp add: precord_ok_def)
  then show "ledger_inv (snd (if pr_status p = Committed \<or> pr_status p = Undone then (Throw NotModifiable, l)
      else case ch_baseRevision ch of None \<Rightarrow> back_to_review now i ?p l
        | Some r \<Rightarrow> if \<not> valid_revision r then (Throw BadBaseRevision, put_proposal i ?p l)
                    else back_to_review now i (?p\<lparr>dp_baseRevision := r\<rparr>) l))"
    using I p by (auto simp: precord_ok_def intro!: inv_back ledger_inv_put split: option.split)
qed

lemma inv_rebase: "ledger_inv l \<Longrightarrow> ledger_inv (snd (rebase_proposal now i r tr h l))"
  unfolding rebase_proposal_def
  by (rule inv_with) (auto simp: precord_ok_def intro!: inv_back split: option.split)

lemma assertCurrent_ok:
  "precord_ok i p \<Longrightarrow> assertCurrent now p r h = (e, p') \<Longrightarrow> precord_ok i p' \<and> (e = None \<longrightarrow> p' = p \<and> valid_revision r)"
  by (auto simp: assertCurrent_def precord_ok_def split: if_splits)

lemma inv_commitBegin:
  assumes I: "ledger_inv l"
  shows "ledger_inv (snd (commitBegin now i r h l))"
  unfolding commitBegin_def Let_def
proof (rule inv_with[OF I])
  fix p :: "'a precord"
  assume p: "the_proposal i l = Some p" "precord_ok i p"
  obtain e p' where a: "assertCurrent now p r h = (e, p')" by fastforce
  note A = assertCurrent_ok[OF p(2) a]
  have start: "ledger_inv (l\<lparr>pl_committing := i # pl_committing l, pl_commits := (i, the r + 1) # pl_commits l,
      pl_applied := pl_applied l @ [x]\<rparr>)" if "i \<notin> set (pl_committing l)" "valid_revision r" for x
    using I p(1) that by (auto simp: ledger_inv_def frames_ok_def valid_revision_def split: option.splits)
  show "ledger_inv (snd (if pr_status p \<noteq> Accepted then (Throw NotAccepted, l)
      else case assertCurrent now p r h of (Some e, p') \<Rightarrow> (Throw e, put_proposal i p' l)
        | (None, _) \<Rightarrow> if i \<in> set (pl_committing l) then (Throw AlreadyCommitting, l)
            else (Ok (i, the r + 1), l\<lparr>pl_committing := i # pl_committing l, pl_commits := (i, the r + 1) # pl_commits l,
                    pl_applied := pl_applied l @ [(ApplyCommit, i, dp_patch p, the r + 1)]\<rparr>)))"
    using I A start ledger_inv_put[OF I, of i p'] unfolding a by (cases e) simp_all
qed

lemma apply_failed_ok: "precord_ok i p \<Longrightarrow> precord_ok i (apply_failed now c p)"
  by (auto simp: precord_ok_def apply_failed_def)

lemma remove1_keys:
  fixes xs :: "(jstring \<times> int) list"
  assumes "distinct (map fst xs)" and "f \<in> set xs"
  shows "fst ` set (remove1 f xs) = fst ` set xs - {fst f} \<and> distinct (map fst (remove1 f xs))"
proof -
  have d: "distinct xs" and i: "inj_on fst (set xs)" using assms(1) by (simp_all add: distinct_map)
  have "fst ` (set xs - {f}) = fst ` set xs - fst ` {f}"
    by (rule inj_on_image_set_diff[OF i]) (use assms(2) in auto)
  moreover have "distinct (map fst (remove1 f xs))"
    unfolding distinct_map using d inj_on_subset[OF i set_remove1_subset[of f xs]] by simp
  ultimately show ?thesis using d by (simp add: set_remove1_eq)
qed

lemma frame_ends:
  assumes "frames_ok l" and f: "f \<in> set (pl_commits l)"
  shows "frames_ok (l\<lparr>pl_committing := removeAll (fst f) (pl_committing l), pl_commits := remove1 f (pl_commits l)\<rparr>)"
proof -
  have d: "distinct (map fst (pl_commits l))" using assms(1) by (simp add: frames_ok_def)
  have keys: "fst ` set (remove1 f (pl_commits l)) = fst ` set (pl_commits l) - {fst f}"
    using remove1_keys[OF d f] by blast
  have "distinct (map fst (remove1 f (pl_commits l)))" using remove1_keys[OF d f] by blast
  moreover have "\<forall>(i, n) \<in> set (remove1 f (pl_commits l)). 0 < n \<and> the_proposal i l \<noteq> None"
    using assms(1) set_remove1_subset[of f "pl_commits l"] unfolding frames_ok_def by blast
  ultimately show ?thesis using assms(1) keys by (simp add: frames_ok_def distinct_removeAll)
qed

lemma inv_commitEnd:
  assumes I: "ledger_inv l" and f: "f \<in> set (pl_commits l)"
  shows "ledger_inv (snd (commitEnd now f oc l))"
  unfolding commitEnd_def Let_def
proof (rule inv_with)
  let ?l = "l\<lparr>pl_committing := removeAll (fst f) (pl_committing l), pl_commits := remove1 f (pl_commits l)\<rparr>"
  show J: "ledger_inv ?l" using I frame_ends[OF _ f] by (simp add: ledger_inv_def)
  fix p :: "'a precord"
  assume "precord_ok (fst f) p"
  then show "ledger_inv (snd (case oc of Threw c \<Rightarrow> (Throw ApplyFailed, put_proposal (fst f) (apply_failed now c p) ?l)
      | Returned inv_patch \<Rightarrow>
          (Ok (receipt_of (p\<lparr>pr_inversePatch := inv_patch, pr_committedRevision := Some (snd f), pr_status := Committed,
              pr_updatedAt := now\<rparr>) (snd f)
            (dp_patch (p\<lparr>pr_inversePatch := inv_patch, pr_committedRevision := Some (snd f), pr_status := Committed,
              pr_updatedAt := now\<rparr>))
            (pr_inversePatch (p\<lparr>pr_inversePatch := inv_patch, pr_committedRevision := Some (snd f), pr_status := Committed,
              pr_updatedAt := now\<rparr>))),
           put_proposal (fst f) (p\<lparr>pr_inversePatch := inv_patch, pr_committedRevision := Some (snd f), pr_status := Committed,
              pr_updatedAt := now\<rparr>) ?l)))"
    by (cases oc) (auto intro!: ledger_inv_put[OF J] apply_failed_ok simp: precord_ok_def)
qed

lemma undos_inv: "ledger_inv (l\<lparr>pl_undos := u\<rparr>) = ledger_inv l" "ledger_inv (l\<lparr>pl_applied := a\<rparr>) = ledger_inv l"
  by (simp_all add: ledger_inv_def frames_ok_def)

lemma inv_undoBegin: "ledger_inv l \<Longrightarrow> ledger_inv (snd (undoBegin now i r l))"
  unfolding undoBegin_def Let_def
proof (rule inv_with, assumption)
  fix p :: "'a precord"
  assume I: "ledger_inv l" and p: "precord_ok i p"
  have s: "ledger_inv (put_proposal i (p\<lparr>pr_status := Stale, pr_updatedAt := now\<rparr>) l)"
    using p by (intro ledger_inv_put[OF I]) (simp add: precord_ok_def)
  have u: "ledger_inv (l\<lparr>pl_undos := x, pl_applied := y\<rparr>)" for x y using I by (simp add: undos_inv)
  show "ledger_inv (snd (if pr_status p \<noteq> Committed then (Throw NotCommitted, l)
      else if pr_inversePatch p = None then (Throw NoInversePatch, l)
      else if r \<noteq> (case pr_committedRevision p of Some r \<Rightarrow> Some r | None \<Rightarrow> r) then
        (Throw (RevisionConflict (case pr_committedRevision p of Some r \<Rightarrow> Some r | None \<Rightarrow> r) r),
         put_proposal i (p\<lparr>pr_status := Stale, pr_updatedAt := now\<rparr>) l)
      else (Ok (i, the r + 1), l\<lparr>pl_undos := (i, the r + 1) # pl_undos l,
             pl_applied := pl_applied l @ [(ApplyUndo, i, pr_inversePatch p, the r + 1)]\<rparr>)))"
    using I s u by simp
qed

lemma inv_undoEnd: "ledger_inv l \<Longrightarrow> ledger_inv (snd (undoEnd now f oc l))"
proof -
  assume "ledger_inv l"
  then have J: "ledger_inv (l\<lparr>pl_undos := remove1 f (pl_undos l)\<rparr>)" by (simp add: undos_inv)
  show ?thesis
    unfolding undoEnd_def Let_def
  proof (rule inv_with[OF J])
    fix p :: "'a precord"
    assume A: "the_proposal (fst f) (l\<lparr>pl_undos := remove1 f (pl_undos l)\<rparr>) = Some p" "precord_ok (fst f) p"
    show "ledger_inv (snd (case oc of Threw c \<Rightarrow> (Throw ApplyFailed, put_proposal (fst f) (apply_failed now c p) (l\<lparr>pl_undos := remove1 f (pl_undos l)\<rparr>))
        | Returned _ \<Rightarrow> (Ok (receipt_of (p\<lparr>pr_status := Undone, pr_updatedAt := now\<rparr>) (snd f)
              (pr_inversePatch (p\<lparr>pr_status := Undone, pr_updatedAt := now\<rparr>)) None),
            put_proposal (fst f) (p\<lparr>pr_status := Undone, pr_updatedAt := now\<rparr>) (l\<lparr>pl_undos := remove1 f (pl_undos l)\<rparr>))))"
      using A(2) by (cases oc) (auto intro!: ledger_inv_put[OF J] apply_failed_ok simp: precord_ok_def)
  qed
qed

lemma ledger_inv_step: "ledger_step l l' \<Longrightarrow> ledger_inv l \<Longrightarrow> ledger_inv l'"
  by (induction rule: ledger_step.induct)
    (simp_all add: inv_create accept_proposal_def reject_proposal_def inv_decide inv_modify inv_rebase inv_commitBegin inv_commitEnd
      inv_undoBegin inv_undoEnd)

lemma ledger_reach_inv: "ledger_reach l \<Longrightarrow> ledger_inv l"
proof -
  assume "ledger_reach l"
  then have "ledger_step\<^sup>*\<^sup>* newLedger l" by (simp add: ledger_reach_def)
  moreover have "ledger_inv (newLedger :: 'a ledger)"
    by (simp add: ledger_inv_def frames_ok_def newLedger_def the_proposal_def)
  ultimately show ?thesis by (induction rule: rtranclp_induct) (auto intro: ledger_inv_step)
qed

lemma ledger_reach_step: "ledger_reach l \<Longrightarrow> ledger_step l l' \<Longrightarrow> ledger_reach l'"
  unfolding ledger_reach_def by (meson rtranclp.rtrancl_into_rtrancl)

lemma ledger_reach_new: "ledger_reach newLedger"
  by (simp add: ledger_reach_def)

definition demo_proposal :: "nat proposal" where
  "demo_proposal = \<lparr>dp_id = [97], dp_taskId = [98], dp_baseRevision = Some 3, dp_sourceHash = None, dp_target = ([99], [100]),
     dp_operation = UpdateOp, dp_patch = Some 7, dp_evidence = NoEvidence, dp_reason = None\<rparr>"

definition demo_accepted :: "nat ledger" where
  "demo_accepted = snd (accept_proposal 2 [97] (snd (create_proposal demo_proposal 1 newLedger)))"

lemma demo_accepted_reach: "ledger_reach demo_accepted"
  unfolding demo_accepted_def
  by (rule ledger_reach_step[OF ledger_reach_step[OF ledger_reach_new ledger_step.intros(1)] ledger_step.intros(2)])

lemma demo_accepted_lookup [simp]: "the_proposal [97] demo_accepted = Some (proposal.extend demo_proposal
    \<lparr>pr_status = Accepted, pr_createdAt = 1, pr_updatedAt = 2, pr_committedRevision = None, pr_inversePatch = None\<rparr>)"
  "pl_committing demo_accepted = []" "pl_applied demo_accepted = []"
  by (simp_all add: demo_accepted_def accept_proposal_def decide_proposal_def with_proposal_def create_proposal_def validateDomainProposal_def
      demo_proposal_def js_trim_def js_space_def valid_revision_def newLedger_def the_proposal_def put_proposal_def
      Let_def proposal.defs)

section \<open>What review guarantees\<close>

text \<open>What may happen to the ledger while proposal \<open>i\<close> is neither modified nor rebased.\<close>

inductive step_sparing :: "jstring \<Rightarrow> 'p ledger \<Rightarrow> 'p ledger \<Rightarrow> bool" for i where
  "step_sparing i l (snd (create_proposal p t l))"
| "step_sparing i l (snd (accept_proposal now j l))"
| "step_sparing i l (snd (reject_proposal now j l))"
| "j \<noteq> i \<Longrightarrow> step_sparing i l (snd (modify_proposal now j ch l))"
| "j \<noteq> i \<Longrightarrow> step_sparing i l (snd (rebase_proposal now j r tr h l))"
| "step_sparing i l (snd (commitBegin now j r h l))"
| "f \<in> set (pl_commits l) \<Longrightarrow> step_sparing i l (snd (commitEnd now f oc l))"
| "step_sparing i l (snd (undoBegin now j r l))"
| "f \<in> set (pl_undos l) \<Longrightarrow> step_sparing i l (snd (undoEnd now f oc l))"

definition patch_is :: "jstring \<Rightarrow> 'p option \<Rightarrow> 'p ledger \<Rightarrow> bool" where
  "patch_is i q l \<longleftrightarrow> (\<exists>p. the_proposal i l = Some p \<and> dp_patch p = q)"

lemma patch_is_put: "patch_is i q l \<Longrightarrow> (j = i \<Longrightarrow> dp_patch p = q) \<Longrightarrow> patch_is i q (put_proposal j p l)"
  by (auto simp: patch_is_def)

lemma patch_is_frames [simp]:
  "patch_is i q (l\<lparr>pl_committing := c\<rparr>) = patch_is i q l" "patch_is i q (l\<lparr>pl_commits := f\<rparr>) = patch_is i q l"
  "patch_is i q (l\<lparr>pl_undos := u\<rparr>) = patch_is i q l" "patch_is i q (l\<lparr>pl_applied := x\<rparr>) = patch_is i q l"
  by (simp_all add: patch_is_def)

lemma patch_is_with:
  assumes "patch_is i q l" and "\<And>p. the_proposal j l = Some p \<Longrightarrow> (j = i \<Longrightarrow> dp_patch p = q) \<Longrightarrow> patch_is i q (snd (f p l))"
  shows "patch_is i q (snd (with_proposal j f l))"
proof (cases "the_proposal j l")
  case (Some p)
  have "j = i \<Longrightarrow> dp_patch p = q" using assms(1) Some by (auto simp: patch_is_def)
  then show ?thesis using assms(2)[OF Some] Some by (simp add: with_proposal_def)
qed (use assms(1) in \<open>simp add: with_proposal_def\<close>)

lemma assertCurrent_patch: "assertCurrent now p r h = (e, p') \<Longrightarrow> dp_patch p' = dp_patch p"
  by (auto simp: assertCurrent_def split: if_splits)

lemma apply_failed_patch [simp]: "dp_patch (apply_failed now c p) = dp_patch p"
  by (simp add: apply_failed_def)

lemma step_sparing_patch: "step_sparing i l l' \<Longrightarrow> patch_is i q l \<Longrightarrow> patch_is i q l'"
proof (induction rule: step_sparing.induct)
  case (1 p t l)
  then show ?case by (auto simp: create_proposal_def Let_def patch_is_def split: option.split)
next
  case (2 now j l)
  then show ?case unfolding accept_proposal_def decide_proposal_def
    by (intro patch_is_with) (auto simp: Let_def intro!: patch_is_put)
next
  case (3 now j l)
  then show ?case unfolding reject_proposal_def decide_proposal_def
    by (intro patch_is_with) (auto simp: Let_def intro!: patch_is_put)
next
  case (4 j now ch l)
  then show ?case unfolding modify_proposal_def
    by (intro patch_is_with) (auto simp: Let_def back_to_review_def intro!: patch_is_put split: option.split)
next
  case (5 j now r tr h l)
  then show ?case unfolding rebase_proposal_def
    by (intro patch_is_with) (auto simp: Let_def back_to_review_def intro!: patch_is_put split: option.split)
next
  case (6 now j r h l)
  then show ?case unfolding commitBegin_def
    by (intro patch_is_with) (auto simp: Let_def intro!: patch_is_put dest: assertCurrent_patch split: option.split prod.split)
next
  case (7 f l now oc)
  then show ?case unfolding commitEnd_def Let_def
    by (intro patch_is_with) (auto intro!: patch_is_put split: applied.split)
next
  case (8 now j r l)
  then show ?case unfolding undoBegin_def
    by (intro patch_is_with) (auto simp: Let_def intro!: patch_is_put)
next
  case (9 f l now oc)
  then show ?case unfolding undoEnd_def Let_def
    by (intro patch_is_with) (auto intro!: patch_is_put split: applied.split)
qed

lemma accepted_patch_kept:
  assumes "accept_proposal t0 i l0 = (Ok p0, l1)" and "(step_sparing i)\<^sup>*\<^sup>* l1 l" and "the_proposal i l = Some p"
  shows "dp_patch p = dp_patch p0"
proof -
  have "patch_is i (dp_patch p0) l1"
    using assms(1) by (auto simp: accept_proposal_def decide_proposal_def with_proposal_def patch_is_def Let_def
        split: option.splits if_splits)
  with assms(2) have "patch_is i (dp_patch p0) l" by (induction rule: rtranclp_induct) (auto intro: step_sparing_patch)
  then show ?thesis using assms(3) by (simp add: patch_is_def)
qed

text \<open>
  C20: in every reachable ledger a commit starts exactly for an accepted proposal whose base revision is the
  current one, whose source hash does not contradict the current one, and of which no commit is in
  flight; it calls the store once, with the patch the proposal has now and the next revision, and otherwise the
  store is not called; an accepted proposal of another revision becomes stale. The patch is the one
  that was accepted when since then no \<open>modify\<close> or \<open>rebase\<close> of the proposal was called, not even one that was refused.
\<close>

lemma commit_starts_exactly:
  assumes "ledger_reach l" and "commitBegin now i cur hash l = (r, l')"
  shows "(r = Ok (j, n) \<longleftrightarrow> j = i \<and> (\<exists>p b. the_proposal i l = Some p \<and> pr_status p = Accepted \<and> cur = Some b \<and>
        dp_baseRevision p = Some b \<and> 0 \<le> b \<and> n = b + 1 \<and>
        (hash = None \<or> dp_sourceHash p = None \<or> hash = dp_sourceHash p) \<and> i \<notin> set (pl_committing l))) \<and>
    (is_ok r \<longrightarrow> (\<exists>p. the_proposal i l = Some p \<and>
        pl_applied l' = pl_applied l @ [(ApplyCommit, i, dp_patch p, the cur + 1)])) \<and>
    (\<not> is_ok r \<longrightarrow> pl_applied l' = pl_applied l) \<and>
    (\<forall>p c. the_proposal i l = Some p \<and> pr_status p = Accepted \<and> cur = Some c \<and> 0 \<le> c \<and> dp_baseRevision p \<noteq> cur \<longrightarrow>
       r = Throw (RevisionConflict (dp_baseRevision p) cur) \<and> the_proposal i l' = Some (p\<lparr>pr_status := Stale, pr_updatedAt := now\<rparr>)) \<and>
    (\<forall>t0 l0 p0 l1. accept_proposal t0 i l0 = (Ok p0, l1) \<and> (step_sparing i)\<^sup>*\<^sup>* l1 l \<and> is_ok r \<longrightarrow>
       pl_applied l' = pl_applied l @ [(ApplyCommit, i, dp_patch p0, the cur + 1)])"
proof -
  have main: "(r = Ok (j, n) \<longleftrightarrow> j = i \<and> (\<exists>p b. the_proposal i l = Some p \<and> pr_status p = Accepted \<and> cur = Some b \<and>
        dp_baseRevision p = Some b \<and> 0 \<le> b \<and> n = b + 1 \<and>
        (hash = None \<or> dp_sourceHash p = None \<or> hash = dp_sourceHash p) \<and> i \<notin> set (pl_committing l))) \<and>
    (is_ok r \<longrightarrow> (\<exists>p. the_proposal i l = Some p \<and>
        pl_applied l' = pl_applied l @ [(ApplyCommit, i, dp_patch p, the cur + 1)])) \<and>
    (\<not> is_ok r \<longrightarrow> pl_applied l' = pl_applied l) \<and>
    (\<forall>p c. the_proposal i l = Some p \<and> pr_status p = Accepted \<and> cur = Some c \<and> 0 \<le> c \<and> dp_baseRevision p \<noteq> cur \<longrightarrow>
       r = Throw (RevisionConflict (dp_baseRevision p) cur) \<and> the_proposal i l' = Some (p\<lparr>pr_status := Stale, pr_updatedAt := now\<rparr>))"
  proof (cases "the_proposal i l")
    case None
    then show ?thesis using assms(2) by (auto simp: commitBegin_def with_proposal_def)
  next
    case (Some p)
    have v: "valid_revision (dp_baseRevision p)"
      using inv_precord_ok[OF ledger_reach_inv[OF assms(1)] Some] by (simp add: precord_ok_def)
    then obtain b where b: "dp_baseRevision p = Some b" "0 \<le> b" by (auto simp: valid_revision_def split: option.splits)
    show ?thesis
      using assms(2) Some b
      by (cases cur) (auto simp: commitBegin_def with_proposal_def assertCurrent_def valid_revision_def Let_def split: if_splits)
  qed
  have "pl_applied l' = pl_applied l @ [(ApplyCommit, i, dp_patch p0, the cur + 1)]"
    if "accept_proposal t0 i l0 = (Ok p0, l1)" "(step_sparing i)\<^sup>*\<^sup>* l1 l" "is_ok r" for t0 l0 p0 l1
    using main accepted_patch_kept[OF that(1,2)] that(3) by auto
  then show ?thesis using main by blast
qed

lemma commit_starts_exactly_witness:
  "is_ok (fst (commitBegin 5 [97] (Some 3) None demo_accepted)) \<and>
   pl_applied (snd (commitBegin 5 [97] (Some 3) None demo_accepted)) = [(ApplyCommit, [97], Some 7, 4)]"
proof -
  obtain r l' where c: "commitBegin 5 [97] (Some 3) None demo_accepted = (r, l')" by fastforce
  note T = commit_starts_exactly[OF demo_accepted_reach c]
  have "r = Ok ([97], 4)" using T[of "[97]" 4] by (simp add: demo_proposal_def proposal.defs)
  moreover have "is_ok r \<longrightarrow> pl_applied l' = [(ApplyCommit, [97], Some 7, 4)]"
    using T[of "[97]" 4] by (simp add: demo_proposal_def proposal.defs)
  ultimately show ?thesis using c by simp
qed

text \<open>
  C21: whatever the order of reviews, commits and undos, and however they end, every proposal has at most
  one commit in flight, the set of those being committed is that of the waiting commits, and a
  committed proposal has the revision it was committed at; every stored proposal is valid in its base
  revision and stands under its own id.
\<close>

lemma one_commit_in_flight:
  assumes "ledger_reach l"
  shows "distinct (map fst (pl_commits l)) \<and> set (pl_committing l) = fst ` set (pl_commits l) \<and>
    (\<forall>i p. the_proposal i l = Some p \<and> i \<in> set (pl_committing l) \<longrightarrow> fst (commitBegin now i cur hash l) = Throw AlreadyCommitting \<or>
       fst (commitBegin now i cur hash l) \<in> {Throw NotAccepted, Throw InvalidCurrentRevision, Throw HashMismatch,
         Throw (RevisionConflict (dp_baseRevision p) cur)}) \<and>
    (\<forall>i p. the_proposal i l = Some p \<longrightarrow> dp_id p = i \<and> (\<exists>b \<ge> 0. dp_baseRevision p = Some b) \<and>
       (pr_status p = Committed \<longrightarrow> pr_committedRevision p \<noteq> None))"
proof -
  have I: "ledger_inv l" by (rule ledger_reach_inv[OF assms])
  have "fst (commitBegin now i cur hash l) = Throw AlreadyCommitting \<or>
       fst (commitBegin now i cur hash l) \<in> {Throw NotAccepted, Throw InvalidCurrentRevision, Throw HashMismatch,
         Throw (RevisionConflict (dp_baseRevision p) cur)}"
    if "the_proposal i l = Some p" "i \<in> set (pl_committing l)" for i p
    using that by (auto simp: commitBegin_def with_proposal_def assertCurrent_def)
  moreover have "dp_id p = i \<and> (\<exists>b \<ge> 0. dp_baseRevision p = Some b) \<and> (pr_status p = Committed \<longrightarrow> pr_committedRevision p \<noteq> None)"
    if "the_proposal i l = Some p" for i p
    using inv_precord_ok[OF I that] by (auto simp: precord_ok_def valid_revision_def split: option.splits)
  ultimately show ?thesis using I unfolding ledger_inv_def frames_ok_def by blast
qed

lemma one_commit_in_flight_witness:
  "fst (commitBegin 6 [97] (Some 3) None (snd (commitBegin 5 [97] (Some 3) None demo_accepted))) = Throw AlreadyCommitting \<and>
   distinct (map fst (pl_commits (snd (commitBegin 5 [97] (Some 3) None demo_accepted))))"
proof -
  have r: "ledger_reach (snd (commitBegin 5 [97] (Some 3) None demo_accepted))"
    by (rule ledger_reach_step[OF demo_accepted_reach ledger_step.intros(6)])
  have "fst (commitBegin 6 [97] (Some 3) None (snd (commitBegin 5 [97] (Some 3) None demo_accepted))) = Throw AlreadyCommitting"
    by (simp add: commitBegin_def with_proposal_def assertCurrent_def valid_revision_def demo_proposal_def proposal.defs Let_def)
  then show ?thesis using one_commit_in_flight[OF r] by blast
qed

section \<open>Where review does not hold\<close>

text \<open>
  C38: a \<open>modify\<close> that is refused for its base revision has already replaced the patch and leaves the
  proposal accepted: the patch nobody reviewed is what the next commit applies.
\<close>

lemma refused_change_is_committed:
  assumes "the_proposal i l = Some p" and "pr_status p = Accepted" and "i \<notin> set (pl_committing l)"
    and "dp_baseRevision p = Some b" and "0 \<le> b"
    and "ch_patch change = Some q" and "ch_baseRevision change = Some r" and "\<not> valid_revision r"
  shows "fst (modify_proposal now i change l) = Throw BadBaseRevision \<and>
    fst (commitBegin now' i (Some b) None (snd (modify_proposal now i change l))) = Ok (i, b + 1) \<and>
    last (pl_applied (snd (commitBegin now' i (Some b) None (snd (modify_proposal now i change l))))) = (ApplyCommit, i, Some q, b + 1)"
  using assms
  by (simp add: modify_proposal_def commitBegin_def with_proposal_def assertCurrent_def given_or_def Let_def valid_revision_def)

lemma refused_change_is_committed_witness:
  "last (pl_applied (snd (commitBegin 6 [97] (Some 3) None
     (snd (modify_proposal 5 [97] \<lparr>ch_patch = Some 9, ch_reason = None, ch_baseRevision = Some (Some (- 1)), ch_sourceHash = None\<rparr>
       demo_accepted))))) = (ApplyCommit, [97], Some 9, 4)"
  using refused_change_is_committed[OF demo_accepted_lookup(1), of 3
      "\<lparr>ch_patch = Some 9, ch_reason = None, ch_baseRevision = Some (Some (- 1)), ch_sourceHash = None\<rparr>" 9 "Some (- 1)" 5 6]
  by (simp add: demo_proposal_def proposal.defs valid_revision_def)

text \<open>
  An undo takes no lock: while the first waits for the store, a second one starts and applies the
  inverse patch again.
\<close>

lemma undo_applies_twice:
  assumes "the_proposal i l = Some p" and "pr_status p = Committed" and "pr_inversePatch p = Some q" and "pr_committedRevision p = Some b"
  shows "pl_applied (snd (undoBegin now' i (Some b) (snd (undoBegin now i (Some b) l)))) =
    pl_applied l @ [(ApplyUndo, i, Some q, b + 1), (ApplyUndo, i, Some q, b + 1)]"
  using assms by (simp add: undoBegin_def with_proposal_def Let_def)

text \<open>
  While a commit waits for the store its proposal can be modified; the end of the commit then marks
  the modified proposal committed, and its receipt names a patch that was never applied.
\<close>

lemma receipt_of_unapplied_patch:
  assumes "the_proposal i l = Some p" and "pr_status p = Accepted" and "validateDomainProposal p = None"
  shows "\<exists>rt. fst (commitEnd t2 (i, n) (Returned v) (snd (modify_proposal t1 i
      \<lparr>ch_patch = Some q, ch_reason = None, ch_baseRevision = None, ch_sourceHash = None\<rparr> l))) = Ok rt \<and> rt_patch rt = Some q"
proof -
  have "validateDomainProposal (p\<lparr>dp_patch := Some q, dp_reason := dp_reason p, dp_sourceHash := dp_sourceHash p\<rparr>) = None"
    using assms(3) by (auto simp: validateDomainProposal_def split: if_splits)
  then show ?thesis
    using assms by (simp add: modify_proposal_def commitEnd_def with_proposal_def back_to_review_def given_or_def Let_def receipt_of_def)
qed

end
