(* ===== verification/Frames.thy ===== *)
theory Frames
  imports Utf8
begin

text \<open>
  \<open>packages/agent-core/src/turn/assistant-frames.ts\<close>: the frames that persist a model's answer while it
  streams in, and the partial message rebuilt from them after a crash; with the merge of the same
  events into the live message (\<open>packages/agent-core/src/turn/stream-invoker.ts\<close>). The content array is a list
  with holes, block indices are naturals, \<open>parse\<close> is \<open>JSON.parse\<close> (\<open>None\<close> when it throws) and \<open>noArgs\<close> the empty object.
\<close>

section \<open>Events, frames and blocks\<close>

record 'v tool_call =
  tc_id :: jstring
  tc_name :: jstring
  tc_arguments :: 'v

datatype 'v stream_event =
    EvReset
  | EvText jstring
  | EvThinking jstring "int option"
  | EvSignature int jstring
  | EvToolStart jstring jstring
  | EvToolDelta jstring jstring
  | EvToolEnd "'v tool_call"
  | EvUsage
  | EvError

datatype 'v stream_frame =
    AttemptReset
  | TextStart nat jstring
  | TextDelta nat jstring
  | ThinkingStart nat jstring "int option"
  | ThinkingDelta nat jstring
  | ThinkingSignature nat jstring
  | ToolCallStart nat jstring jstring
  | ToolCallArgs nat jstring jstring
  | ToolCallEnd nat "'v tool_call"
  | OtherFrame

datatype 'v block =
    TextBlock jstring
  | ThinkingBlock jstring "jstring option" "int option"
  | ToolCallBlock "'v tool_call"

section \<open>The encoder\<close>

record encoder =
  fe_nextIndex :: nat
  fe_textIndex :: "nat option"
  fe_thinkingIndexes :: "int option \<rightharpoonup> nat"
  fe_toolCallState :: "jstring \<rightharpoonup> nat \<times> bool \<times> nat"

definition newEncoder :: encoder where
  "newEncoder = \<lparr>fe_nextIndex = 0, fe_textIndex = None, fe_thinkingIndexes = Map.empty, fe_toolCallState = Map.empty\<rparr>"

fun encode_event :: "'v stream_event \<Rightarrow> encoder \<Rightarrow> 'v stream_frame option \<times> encoder" where
  "encode_event (EvText d) e =
     (case fe_textIndex e of
        None \<Rightarrow> (Some (TextStart (fe_nextIndex e) d), e\<lparr>fe_textIndex := Some (fe_nextIndex e), fe_nextIndex := fe_nextIndex e + 1\<rparr>)
      | Some i \<Rightarrow> (Some (TextDelta i d), e))"
| "encode_event (EvThinking d b) e =
     (case fe_thinkingIndexes e b of
        None \<Rightarrow> (Some (ThinkingStart (fe_nextIndex e) d b),
                 e\<lparr>fe_thinkingIndexes := (fe_thinkingIndexes e)(b \<mapsto> fe_nextIndex e), fe_nextIndex := fe_nextIndex e + 1\<rparr>)
      | Some i \<Rightarrow> (Some (ThinkingDelta i d), e))"
| "encode_event (EvSignature b s) e =
     (case fe_thinkingIndexes e (Some b) of None \<Rightarrow> (None, e) | Some i \<Rightarrow> (Some (ThinkingSignature i s), e))"
| "encode_event (EvToolStart t n) e =
     (if fe_toolCallState e t \<noteq> None then (None, e)
      else (Some (ToolCallStart (fe_nextIndex e) t n),
            e\<lparr>fe_toolCallState := (fe_toolCallState e)(t \<mapsto> (fe_nextIndex e, True, 0)), fe_nextIndex := fe_nextIndex e + 1\<rparr>))"
| "encode_event (EvToolDelta t d) e =
     (case fe_toolCallState e t of
        Some (i, True, n) \<Rightarrow>
          (Some (ToolCallArgs i t d), e\<lparr>fe_toolCallState := (fe_toolCallState e)(t \<mapsto> (i, True, n + length d))\<rparr>)
      | _ \<Rightarrow> (None, e))"
| "encode_event (EvToolEnd c) e =
     (case fe_toolCallState e (tc_id c) of
        Some (i, True, n) \<Rightarrow>
          (Some (ToolCallEnd i c), e\<lparr>fe_toolCallState := (fe_toolCallState e)(tc_id c \<mapsto> (i, False, n))\<rparr>)
      | _ \<Rightarrow> (None, e))"
| "encode_event EvUsage e = (None, e)"
| "encode_event EvError e = (None, e)"
| "encode_event EvReset e = (Some AttemptReset, newEncoder)"

text \<open>The frames of a stream of events, as the journal gets them.\<close>

fun encode_stream :: "'v stream_event list \<Rightarrow> encoder \<Rightarrow> 'v stream_frame list" where
  "encode_stream [] e = []"
| "encode_stream (ev # evs) e =
     (case encode_event ev e of (f, e') \<Rightarrow> (case f of None \<Rightarrow> [] | Some x \<Rightarrow> [x]) @ encode_stream evs e')"

section \<open>The reducer\<close>

type_synonym 'v blocks = "'v block option list"

definition block_at :: "nat \<Rightarrow> 'v blocks \<Rightarrow> 'v block option" where
  "block_at i c = (if i < length c then c ! i else None)"

definition put_block :: "nat \<Rightarrow> 'v block \<Rightarrow> 'v blocks \<Rightarrow> 'v blocks" where
  "put_block i b c = (if i < length c then c[i := Some b] else c @ replicate (i - length c) None @ [Some b])"

definition ensureTextBlock :: "nat \<Rightarrow> 'v blocks \<Rightarrow> jstring" where
  "ensureTextBlock i c = (case block_at i c of Some (TextBlock t) \<Rightarrow> t | _ \<Rightarrow> [])"

definition ensureThinkingBlock :: "nat \<Rightarrow> int option \<Rightarrow> 'v blocks \<Rightarrow> jstring \<times> jstring option \<times> int option" where
  "ensureThinkingBlock i b c =
     (case block_at i c of
        Some (ThinkingBlock t s b') \<Rightarrow> (t, s, case b of None \<Rightarrow> b' | Some x \<Rightarrow> Some x)
      | _ \<Rightarrow> ([], None, b))"

definition ensureToolCallBlock :: "'v \<Rightarrow> nat \<Rightarrow> jstring \<Rightarrow> jstring \<Rightarrow> 'v blocks \<Rightarrow> 'v blocks" where
  "ensureToolCallBlock noArgs i t n c =
     (case block_at i c of
        Some (ToolCallBlock call) \<Rightarrow> c
      | _ \<Rightarrow> put_block i (ToolCallBlock \<lparr>tc_id = t, tc_name = n, tc_arguments = noArgs\<rparr>) c)"

fun reduce_frame ::
  "'v \<Rightarrow> 'v stream_frame \<Rightarrow> 'v blocks \<times> (nat \<times> jstring) list \<Rightarrow> 'v blocks \<times> (nat \<times> jstring) list" where
  "reduce_frame noArgs AttemptReset (c, raw) = ([], [])"
| "reduce_frame noArgs (TextStart i t) (c, raw) = (put_block i (TextBlock t) c, raw)"
| "reduce_frame noArgs (TextDelta i d) (c, raw) = (put_block i (TextBlock (ensureTextBlock i c @ d)) c, raw)"
| "reduce_frame noArgs (ThinkingStart i t b) (c, raw) =
     (case ensureThinkingBlock i b c of (_, s, b') \<Rightarrow> (put_block i (ThinkingBlock t s b') c, raw))"
| "reduce_frame noArgs (ThinkingDelta i d) (c, raw) =
     (case ensureThinkingBlock i None c of (t, s, b) \<Rightarrow> (put_block i (ThinkingBlock (t @ d) s b) c, raw))"
| "reduce_frame noArgs (ThinkingSignature i sg) (c, raw) =
     (case ensureThinkingBlock i None c of (t, s, b) \<Rightarrow> (put_block i (ThinkingBlock t (Some sg) b) c, raw))"
| "reduce_frame noArgs (ToolCallStart i t n) (c, raw) = (ensureToolCallBlock noArgs i t n c, raw)"
| "reduce_frame noArgs (ToolCallArgs i t d) (c, raw) =
     (ensureToolCallBlock noArgs i t (ascii ''unknown_tool'') c,
      AList.update i ((case map_of raw i of None \<Rightarrow> [] | Some r \<Rightarrow> r) @ d) raw)"
| "reduce_frame noArgs (ToolCallEnd i call) (c, raw) =
     (case block_at i c of
        Some (ToolCallBlock _) \<Rightarrow> (put_block i (ToolCallBlock call) c, AList.delete i raw)
      | _ \<Rightarrow> (c, raw))"
| "reduce_frame noArgs OtherFrame (c, raw) = (c, raw)"

definition parsed_args :: "'v \<Rightarrow> (jstring \<Rightarrow> 'v option) \<Rightarrow> jstring \<Rightarrow> 'v" where
  "parsed_args noArgs parse raw =
     (if js_trim raw = [] then noArgs else case parse raw of None \<Rightarrow> noArgs | Some v \<Rightarrow> v)"

fun finish_args :: "'v \<Rightarrow> (jstring \<Rightarrow> 'v option) \<Rightarrow> (nat \<times> jstring) list \<Rightarrow> 'v blocks \<Rightarrow> 'v blocks" where
  "finish_args noArgs parse [] c = c"
| "finish_args noArgs parse ((i, r) # raw) c =
     finish_args noArgs parse raw
       (case block_at i c of
          Some (ToolCallBlock call) \<Rightarrow> put_block i (ToolCallBlock (call\<lparr>tc_arguments := parsed_args noArgs parse r\<rparr>)) c
        | _ \<Rightarrow> c)"

record 'v partial_message =
  pm_content :: "'v block list"
  pm_stopReason :: jstring
  pm_errorMessage :: jstring

definition recovered_error :: jstring where
  "recovered_error = ascii ''Partially recovered from persisted stream frames (no terminal settlement).''"

definition reduceAssistantFrames :: "'v \<Rightarrow> (jstring \<Rightarrow> 'v option) \<Rightarrow> 'v stream_frame list \<Rightarrow> 'v partial_message option" where
  "reduceAssistantFrames noArgs parse frames =
     (if frames = [] then None
      else case fold (reduce_frame noArgs) frames ([], []) of (c, raw) \<Rightarrow>
        Some \<lparr>pm_content = map the (filter (\<lambda>b. b \<noteq> None) (finish_args noArgs parse raw c)),
              pm_stopReason = ascii ''aborted'', pm_errorMessage = recovered_error\<rparr>)"

section \<open>The live message\<close>

text \<open>The delta listener: the text block or the thinking block of the index, or a new one at the end.\<close>

fun upsert :: "('a \<Rightarrow> bool) \<Rightarrow> ('a \<Rightarrow> 'a) \<Rightarrow> 'a \<Rightarrow> 'a list \<Rightarrow> 'a list" where
  "upsert P f x [] = [f x]"
| "upsert P f x (y # ys) = (if P y then f y # ys else y # upsert P f x ys)"

fun update_first :: "('a \<Rightarrow> bool) \<Rightarrow> ('a \<Rightarrow> 'a) \<Rightarrow> 'a list \<Rightarrow> 'a list" where
  "update_first P f [] = []"
| "update_first P f (y # ys) = (if P y then f y # ys else y # update_first P f ys)"

fun is_text :: "'v block \<Rightarrow> bool" where
  "is_text (TextBlock t) = True" | "is_text _ = False"

fun is_thinking :: "int option \<Rightarrow> 'v block \<Rightarrow> bool" where
  "is_thinking b (ThinkingBlock t s b') \<longleftrightarrow> b' = b" | "is_thinking b _ = False"

fun add_delta :: "jstring \<Rightarrow> 'v block \<Rightarrow> 'v block" where
  "add_delta d (TextBlock t) = TextBlock (t @ d)"
| "add_delta d (ThinkingBlock t s b) = ThinkingBlock (t @ d) s b"
| "add_delta d x = x"

fun sign :: "jstring \<Rightarrow> 'v block \<Rightarrow> 'v block" where
  "sign sg (ThinkingBlock t s b) = ThinkingBlock t (Some sg) b"
| "sign sg x = x"

fun live_update :: "'v stream_event \<Rightarrow> 'v block list \<Rightarrow> 'v block list" where
  "live_update EvReset c = []"
| "live_update (EvText d) c = upsert is_text (add_delta d) (TextBlock []) c"
| "live_update (EvThinking d b) c = upsert (is_thinking b) (add_delta d) (ThinkingBlock [] None b) c"
| "live_update (EvSignature b s) c = update_first (is_thinking (Some b)) (sign s) c"
| "live_update _ c = c"

definition live_content :: "'v stream_event list \<Rightarrow> 'v block list" where
  "live_content evs = fold live_update evs []"

section \<open>What the stream says\<close>

text \<open>
  The reference: the blocks of the answer in the order they were opened, each under its own key, with
  the arguments a call has received while it is open (\<open>None\<close> before the first delta).
\<close>

datatype 'v kblock =
    KText jstring
  | KThink "int option" jstring "jstring option"
  | KOpen jstring jstring "jstring option"
  | KClosed "'v tool_call"

datatype block_key = TextKey | ThinkKey "int option" | ToolKey jstring

fun key_of :: "'v kblock \<Rightarrow> block_key" where
  "key_of (KText t) = TextKey"
| "key_of (KThink b t s) = ThinkKey b"
| "key_of (KOpen t n r) = ToolKey t"
| "key_of (KClosed c) = ToolKey (tc_id c)"

fun has_key :: "block_key \<Rightarrow> 'v kblock \<Rightarrow> bool" where
  "has_key k b \<longleftrightarrow> key_of b = k"

fun grow_block :: "jstring \<Rightarrow> 'v kblock \<Rightarrow> 'v kblock" where
  "grow_block d (KText t) = KText (t @ d)"
| "grow_block d (KThink b t s) = KThink b (t @ d) s"
| "grow_block d (KOpen t n r) = KOpen t n (Some ((case r of None \<Rightarrow> [] | Some x \<Rightarrow> x) @ d))"
| "grow_block d (KClosed c) = KClosed c"

fun set_signature :: "jstring \<Rightarrow> 'v kblock \<Rightarrow> 'v kblock" where
  "set_signature s (KThink b t s') = KThink b t (Some s)"
| "set_signature s x = x"

fun close_call :: "'v tool_call \<Rightarrow> 'v kblock \<Rightarrow> 'v kblock" where
  "close_call c (KOpen t n r) = KClosed c"
| "close_call c x = x"

fun stream_step :: "'v stream_event \<Rightarrow> 'v kblock list \<Rightarrow> 'v kblock list" where
  "stream_step (EvText d) ks = upsert (has_key TextKey) (grow_block d) (KText []) ks"
| "stream_step (EvThinking d b) ks = upsert (has_key (ThinkKey b)) (grow_block d) (KThink b [] None) ks"
| "stream_step (EvSignature b s) ks = update_first (has_key (ThinkKey (Some b))) (set_signature s) ks"
| "stream_step (EvToolStart t n) ks = upsert (has_key (ToolKey t)) id (KOpen t n None) ks"
| "stream_step (EvToolDelta t d) ks = update_first (has_key (ToolKey t)) (grow_block d) ks"
| "stream_step (EvToolEnd c) ks = update_first (has_key (ToolKey (tc_id c))) (close_call c) ks"
| "stream_step EvReset ks = []"
| "stream_step _ ks = ks"

fun final_block :: "'v \<Rightarrow> (jstring \<Rightarrow> 'v option) \<Rightarrow> 'v kblock \<Rightarrow> 'v block" where
  "final_block noArgs parse (KText t) = TextBlock t"
| "final_block noArgs parse (KThink b t s) = ThinkingBlock t s b"
| "final_block noArgs parse (KOpen t n r) = ToolCallBlock \<lparr>tc_id = t, tc_name = n,
     tc_arguments = (case r of None \<Rightarrow> noArgs | Some x \<Rightarrow> parsed_args noArgs parse x)\<rparr>"
| "final_block noArgs parse (KClosed c) = ToolCallBlock c"

definition stream_blocks :: "'v stream_event list \<Rightarrow> 'v kblock list" where
  "stream_blocks evs = fold stream_step evs []"

section \<open>Positions\<close>

fun position_of :: "'a \<Rightarrow> 'a list \<Rightarrow> nat option" where
  "position_of x [] = None"
| "position_of x (y # ys) = (if x = y then Some 0 else map_option Suc (position_of x ys))"

lemma position_of_None: "position_of x xs = None \<longleftrightarrow> x \<notin> set xs"
  by (induction xs) auto

lemma position_of_append: "position_of x (xs @ [y]) =
    (case position_of x xs of Some i \<Rightarrow> Some i | None \<Rightarrow> if x = y then Some (length xs) else None)"
  by (induction xs) (auto split: option.splits)

lemma position_of_Some: "position_of x xs = Some i \<Longrightarrow> i < length xs \<and> xs ! i = x"
  by (induction xs arbitrary: i) (auto split: if_splits)

text \<open>The updates of the reference at the position of the key.\<close>

lemma upsert_has_key:
  "upsert (has_key k) f x ks =
     (case position_of k (map key_of ks) of None \<Rightarrow> ks @ [f x] | Some i \<Rightarrow> ks[i := f (ks ! i)])"
  by (induction ks) (auto split: option.splits)

lemma update_first_has_key:
  "update_first (has_key k) f ks =
     (case position_of k (map key_of ks) of None \<Rightarrow> ks | Some i \<Rightarrow> ks[i := f (ks ! i)])"
  by (induction ks) (auto split: option.splits)

lemma key_of_simps [simp]: "key_of (grow_block d b) = key_of b" "key_of (set_signature s b) = key_of b"
  by (cases b; simp)+

lemma keys_update: "i < length ks \<Longrightarrow> key_of b = key_of (ks ! i) \<Longrightarrow> map key_of (ks[i := b]) = map key_of ks"
  by (simp add: map_update list_update_same_conv)

section \<open>The encoder and the reducer keep step with it\<close>

fun open_call :: "'v kblock \<Rightarrow> bool" where
  "open_call (KOpen t n r) = True" | "open_call _ = False"

fun args_so_far :: "'v kblock \<Rightarrow> jstring option" where
  "args_so_far (KOpen t n r) = r" | "args_so_far _ = None"

fun shown :: "'v \<Rightarrow> 'v kblock \<Rightarrow> 'v block" where
  "shown noArgs (KText t) = TextBlock t"
| "shown noArgs (KThink b t s) = ThinkingBlock t s b"
| "shown noArgs (KOpen t n r) = ToolCallBlock \<lparr>tc_id = t, tc_name = n, tc_arguments = noArgs\<rparr>"
| "shown noArgs (KClosed c) = ToolCallBlock c"

definition in_step :: "'v kblock list \<Rightarrow> encoder \<Rightarrow> bool" where
  "in_step ks e \<longleftrightarrow> fe_nextIndex e = length ks \<and> fe_textIndex e = position_of TextKey (map key_of ks) \<and>
     (\<forall>b. fe_thinkingIndexes e b = position_of (ThinkKey b) (map key_of ks)) \<and>
     (\<forall>t. map_option (\<lambda>(i, op, n). (i, op)) (fe_toolCallState e t) =
        map_option (\<lambda>i. (i, open_call (ks ! i))) (position_of (ToolKey t) (map key_of ks)))"

definition rebuilt :: "'v \<Rightarrow> 'v kblock list \<Rightarrow> 'v blocks \<times> (nat \<times> jstring) list \<Rightarrow> bool" where
  "rebuilt noArgs ks st \<longleftrightarrow> fst st = map (\<lambda>b. Some (shown noArgs b)) ks \<and> distinct (map fst (snd st)) \<and>
     (\<forall>i. map_of (snd st) i = (if i < length ks then args_so_far (ks ! i) else None))"

definition reduce_frames :: "'v \<Rightarrow> 'v stream_frame option \<Rightarrow> 'v blocks \<times> (nat \<times> jstring) list \<Rightarrow> 'v blocks \<times> (nat \<times> jstring) list" where
  "reduce_frames noArgs f st = (case f of None \<Rightarrow> st | Some x \<Rightarrow> reduce_frame noArgs x st)"

lemma in_step_new [simp]: "in_step [] newEncoder"
  by (simp add: in_step_def newEncoder_def)

lemma rebuilt_new [simp]: "rebuilt noArgs [] ([], [])"
  by (simp add: rebuilt_def)

lemma rebuilt_append: "rebuilt noArgs ks (c, raw) \<Longrightarrow> args_so_far b = None \<Longrightarrow>
    rebuilt noArgs (ks @ [b]) (put_block (length ks) (shown noArgs b) c, raw)"
  by (auto simp: rebuilt_def put_block_def nth_append less_Suc_eq)

lemma rebuilt_update: "rebuilt noArgs ks (c, raw) \<Longrightarrow> i < length ks \<Longrightarrow> args_so_far b = args_so_far (ks ! i) \<Longrightarrow>
    rebuilt noArgs (ks[i := b]) (put_block i (shown noArgs b) c, raw)"
  by (auto simp: rebuilt_def put_block_def nth_list_update map_update)

lemma block_at_rebuilt: "rebuilt noArgs ks (c, raw) \<Longrightarrow> i < length ks \<Longrightarrow> block_at i c = Some (shown noArgs (ks ! i))"
  by (simp add: rebuilt_def block_at_def)

lemma key_of_iff:
  "key_of b = TextKey \<longleftrightarrow> (\<exists>t. b = KText t)"
  "key_of b = ThinkKey k \<longleftrightarrow> (\<exists>t s. b = KThink k t s)"
  "key_of b = ToolKey i \<longleftrightarrow> (\<exists>n r. b = KOpen i n r) \<or> (\<exists>c. b = KClosed c \<and> tc_id c = i)"
  by (cases b; auto)+

lemma at_index:
  assumes "position_of k (map key_of ks) = Some i"
  shows "i < length ks" "key_of (ks ! i) = k"
  using position_of_Some[OF assms] by auto

lemma map_option_pair: "map_option (\<lambda>(i, op, n). (i, op)) x = Some (i, op) \<longleftrightarrow> (\<exists>n. x = Some (i, op, n))"
  by (cases x) auto

lemma in_step_keys:
  assumes "in_step ks e" and "map key_of ks' = map key_of ks" and "\<And>i. i < length ks \<Longrightarrow> open_call (ks' ! i) = open_call (ks ! i)"
  shows "in_step ks' e"
proof -
  have l: "length ks' = length ks" using assms(2) by (metis length_map)
  have "map_option (\<lambda>i. (i, open_call (ks' ! i))) (position_of k (map key_of ks)) =
      map_option (\<lambda>i. (i, open_call (ks ! i))) (position_of k (map key_of ks))" for k
    using assms(3) at_index(1) by (cases "position_of k (map key_of ks)") auto
  then show ?thesis using assms(1) l unfolding in_step_def assms(2) by simp
qed

text \<open>A block that is new, and one that is replaced under its key.\<close>

lemma in_step_new_block:
  assumes "in_step ks e" and "position_of (key_of b) (map key_of ks) = None"
  shows "\<And>d. b = KText d \<Longrightarrow> in_step (ks @ [b]) (e\<lparr>fe_textIndex := Some (fe_nextIndex e), fe_nextIndex := fe_nextIndex e + 1\<rparr>)"
    and "\<And>x t s. b = KThink x t s \<Longrightarrow> in_step (ks @ [b])
      (e\<lparr>fe_thinkingIndexes := (fe_thinkingIndexes e)(x \<mapsto> fe_nextIndex e), fe_nextIndex := fe_nextIndex e + 1\<rparr>)"
    and "\<And>t n r. b = KOpen t n r \<Longrightarrow> in_step (ks @ [b])
      (e\<lparr>fe_toolCallState := (fe_toolCallState e)(t \<mapsto> (fe_nextIndex e, True, 0)), fe_nextIndex := fe_nextIndex e + 1\<rparr>)"
proof -
  have old: "map_option (\<lambda>i. (i, open_call ((ks @ [x]) ! i))) (position_of k (map key_of ks)) =
      map_option (\<lambda>i. (i, open_call (ks ! i))) (position_of k (map key_of ks))" for k x
    using at_index(1) by (cases "position_of k (map key_of ks)") (auto simp: nth_append)
  have idx: "position_of k (map key_of (ks @ [b])) =
      (if k = key_of b then Some (length ks) else position_of k (map key_of ks))" for k
    using assms(2) by (auto simp: position_of_append split: option.split)
  show "\<And>d. b = KText d \<Longrightarrow> in_step (ks @ [b]) (e\<lparr>fe_textIndex := Some (fe_nextIndex e), fe_nextIndex := fe_nextIndex e + 1\<rparr>)"
    "\<And>x t s. b = KThink x t s \<Longrightarrow> in_step (ks @ [b])
      (e\<lparr>fe_thinkingIndexes := (fe_thinkingIndexes e)(x \<mapsto> fe_nextIndex e), fe_nextIndex := fe_nextIndex e + 1\<rparr>)"
    "\<And>t n r. b = KOpen t n r \<Longrightarrow> in_step (ks @ [b])
      (e\<lparr>fe_toolCallState := (fe_toolCallState e)(t \<mapsto> (fe_nextIndex e, True, 0)), fe_nextIndex := fe_nextIndex e + 1\<rparr>)"
    using assms(1) unfolding in_step_def idx by (auto simp: old)
qed

lemma in_step_replace:
  assumes "in_step ks e" and "i < length ks" and "key_of b = key_of (ks ! i)" and "open_call b = open_call (ks ! i)"
  shows "in_step (ks[i := b]) e"
  using assms by (intro in_step_keys[OF assms(1) keys_update]) (simp_all add: nth_list_update)

lemma step_text:
  assumes "in_step ks e" and "rebuilt noArgs ks (c, raw)" and "encode_event (EvText d) e = (f, e')"
  shows "in_step (stream_step (EvText d) ks) e' \<and> rebuilt noArgs (stream_step (EvText d) ks) (reduce_frames noArgs f (c, raw))"
proof (cases "position_of TextKey (map key_of ks)")
  case None
  moreover have "fe_textIndex e = None" "fe_nextIndex e = length ks" using assms(1) None by (simp_all add: in_step_def)
  ultimately show ?thesis
    using assms rebuilt_append[OF assms(2), of "KText d"] in_step_new_block(1)[OF assms(1), of "KText d" d]
    by (auto simp: upsert_has_key reduce_frames_def)
next
  case (Some i)
  then obtain t where t: "ks ! i = KText t" "i < length ks" using at_index[OF Some] key_of_iff(1) by blast
  have "fe_textIndex e = Some i" using assms(1) Some by (simp add: in_step_def)
  then show ?thesis
    using assms Some t rebuilt_update[OF assms(2) t(2), of "KText (t @ d)"] block_at_rebuilt[OF assms(2) t(2)]
      in_step_replace[OF assms(1) t(2), of "KText (t @ d)"]
    by (auto simp: upsert_has_key reduce_frames_def ensureTextBlock_def)
qed

lemma step_thinking:
  assumes "in_step ks e" and "rebuilt noArgs ks (c, raw)" and "encode_event (EvThinking d b) e = (f, e')"
  shows "in_step (stream_step (EvThinking d b) ks) e' \<and>
    rebuilt noArgs (stream_step (EvThinking d b) ks) (reduce_frames noArgs f (c, raw))"
proof (cases "position_of (ThinkKey b) (map key_of ks)")
  case None
  moreover have "fe_thinkingIndexes e b = None" "fe_nextIndex e = length ks" using assms(1) None by (simp_all add: in_step_def)
  moreover have "block_at (length ks) c = None" using assms(2) by (simp add: rebuilt_def block_at_def)
  ultimately show ?thesis
    using assms rebuilt_append[OF assms(2), of "KThink b d None"] in_step_new_block(2)[OF assms(1), of "KThink b d None" b d None]
    by (auto simp: upsert_has_key reduce_frames_def ensureThinkingBlock_def)
next
  case (Some i)
  then obtain t s where t: "ks ! i = KThink b t s" "i < length ks" using at_index[OF Some] key_of_iff(2) by blast
  have "fe_thinkingIndexes e b = Some i" using assms(1) Some by (simp add: in_step_def)
  then show ?thesis
    using assms Some t rebuilt_update[OF assms(2) t(2), of "KThink b (t @ d) s"] block_at_rebuilt[OF assms(2) t(2)]
      in_step_replace[OF assms(1) t(2), of "KThink b (t @ d) s"]
    by (auto simp: upsert_has_key reduce_frames_def ensureThinkingBlock_def)
qed

lemma step_signature:
  assumes "in_step ks e" and "rebuilt noArgs ks (c, raw)" and "encode_event (EvSignature b sg) e = (f, e')"
  shows "in_step (stream_step (EvSignature b sg) ks) e' \<and>
    rebuilt noArgs (stream_step (EvSignature b sg) ks) (reduce_frames noArgs f (c, raw))"
proof (cases "position_of (ThinkKey (Some b)) (map key_of ks)")
  case None
  then have "fe_thinkingIndexes e (Some b) = None" using assms(1) by (simp add: in_step_def)
  then show ?thesis using assms None by (auto simp: update_first_has_key reduce_frames_def)
next
  case (Some i)
  then obtain t s where t: "ks ! i = KThink (Some b) t s" "i < length ks" using at_index[OF Some] key_of_iff(2) by blast
  have "fe_thinkingIndexes e (Some b) = Some i" using assms(1) Some by (simp add: in_step_def)
  then show ?thesis
    using assms Some t rebuilt_update[OF assms(2) t(2), of "KThink (Some b) t (Some sg)"] block_at_rebuilt[OF assms(2) t(2)]
      in_step_replace[OF assms(1) t(2), of "KThink (Some b) t (Some sg)"]
    by (auto simp: update_first_has_key reduce_frames_def ensureThinkingBlock_def)
qed

lemma tool_state:
  assumes "in_step ks e"
  shows "position_of (ToolKey t) (map key_of ks) = None \<Longrightarrow> fe_toolCallState e t = None"
    and "position_of (ToolKey t) (map key_of ks) = Some i \<Longrightarrow> \<exists>n. fe_toolCallState e t = Some (i, open_call (ks ! i), n)"
proof -
  have "map_option (\<lambda>(i, op, n). (i, op)) (fe_toolCallState e t) =
      map_option (\<lambda>i. (i, open_call (ks ! i))) (position_of (ToolKey t) (map key_of ks))"
    using assms by (simp add: in_step_def)
  then show "position_of (ToolKey t) (map key_of ks) = None \<Longrightarrow> fe_toolCallState e t = None"
    "position_of (ToolKey t) (map key_of ks) = Some i \<Longrightarrow> \<exists>n. fe_toolCallState e t = Some (i, open_call (ks ! i), n)"
    by (auto simp: map_option_pair)
qed

lemma step_tool_start:
  assumes "in_step ks e" and "rebuilt noArgs ks (c, raw)" and "encode_event (EvToolStart t n) e = (f, e')"
  shows "in_step (stream_step (EvToolStart t n) ks) e' \<and>
    rebuilt noArgs (stream_step (EvToolStart t n) ks) (reduce_frames noArgs f (c, raw))"
proof (cases "position_of (ToolKey t) (map key_of ks)")
  case None
  moreover have "fe_nextIndex e = length ks" using assms(1) by (simp add: in_step_def)
  moreover have "block_at (length ks) c = None" using assms(2) by (simp add: rebuilt_def block_at_def)
  ultimately show ?thesis
    using assms tool_state(1)[OF assms(1) None] rebuilt_append[OF assms(2), of "KOpen t n None"]
      in_step_new_block(3)[OF assms(1), of "KOpen t n None" t n None]
    by (auto simp: upsert_has_key reduce_frames_def ensureToolCallBlock_def)
next
  case (Some i)
  then show ?thesis using assms tool_state(2)[OF assms(1) Some] by (auto simp: upsert_has_key reduce_frames_def)
qed

lemma rebuilt_tool:
  assumes "rebuilt noArgs ks (c, raw)" and "i < length ks" and "distinct (map fst raw')"
    and "\<And>j. map_of raw' j = (if j = i then args_so_far b else map_of raw j)"
  shows "rebuilt noArgs (ks[i := b]) (put_block i (shown noArgs b) c, raw')"
  using assms by (auto simp: rebuilt_def put_block_def nth_list_update map_update)

lemma in_step_tool:
  assumes "in_step ks e" and "i < length ks" and "key_of (ks ! i) = ToolKey t" and "key_of b = ToolKey t"
    and "position_of (ToolKey t) (map key_of ks) = Some i"
  shows "in_step (ks[i := b]) (e\<lparr>fe_toolCallState := (fe_toolCallState e)(t \<mapsto> (i, open_call b, n))\<rparr>)"
proof -
  have k: "map key_of (ks[i := b]) = map key_of ks" using assms(2-4) by (intro keys_update) simp_all
  have "map_option (\<lambda>j. (j, open_call (ks[i := b] ! j))) (position_of (ToolKey t') (map key_of ks)) =
      map_option (\<lambda>j. (j, open_call (ks ! j))) (position_of (ToolKey t') (map key_of ks))" if "t' \<noteq> t" for t'
    using at_index[of "ToolKey t'" ks] assms(2,3) that
    by (cases "position_of (ToolKey t') (map key_of ks)") (auto simp: nth_list_update)
  then show ?thesis using assms(1,2,5) unfolding in_step_def k by simp
qed

lemma step_tool_delta:
  assumes "in_step ks e" and "rebuilt noArgs ks (c, raw)" and "encode_event (EvToolDelta t d) e = (f, e')"
  shows "in_step (stream_step (EvToolDelta t d) ks) e' \<and>
    rebuilt noArgs (stream_step (EvToolDelta t d) ks) (reduce_frames noArgs f (c, raw))"
proof (cases "position_of (ToolKey t) (map key_of ks)")
  case None
  then show ?thesis
    using assms tool_state(1)[OF assms(1) None] by (auto simp: update_first_has_key reduce_frames_def)
next
  case (Some i)
  note i = at_index[OF Some]
  obtain n where n: "fe_toolCallState e t = Some (i, open_call (ks ! i), n)" using tool_state(2)[OF assms(1) Some] by blast
  consider (running) m r where "ks ! i = KOpen t m r" | (ended) call where "ks ! i = KClosed call" "tc_id call = t"
    using i key_of_iff(3) by blast
  then show ?thesis
  proof cases
    case running
    let ?r = "(case r of None \<Rightarrow> [] | Some x \<Rightarrow> x) @ d"
    let ?raw = "AList.update i ((case map_of raw i of None \<Rightarrow> [] | Some x \<Rightarrow> x) @ d) raw"
    have m: "map_of raw i = r" "distinct (map fst raw)" using assms(2) i running by (simp_all add: rebuilt_def)
    have b: "block_at i c = Some (shown noArgs (KOpen t m r))" using block_at_rebuilt[OF assms(2) i(1)] running by simp
    have "put_block i (shown noArgs (KOpen t m (Some ?r))) c = c"
      using assms(2) i(1) running by (simp add: rebuilt_def put_block_def list_update_same_conv)
    then have "rebuilt noArgs (ks[i := KOpen t m (Some ?r)]) (c, ?raw)"
      using rebuilt_tool[OF assms(2) i(1), of ?raw "KOpen t m (Some ?r)"] m
      by (simp add: distinct_update update_conv')
    moreover have "in_step (ks[i := KOpen t m (Some ?r)]) (e\<lparr>fe_toolCallState := (fe_toolCallState e)(t \<mapsto> (i, True, n + length d))\<rparr>)"
      using in_step_tool[OF assms(1) i(1), of t "KOpen t m (Some ?r)" "n + length d"] Some i by simp
    ultimately show ?thesis
      using assms(3) Some running n b by (auto simp: update_first_has_key reduce_frames_def ensureToolCallBlock_def)
  next
    case ended
    then have "ks[i := grow_block d (ks ! i)] = ks" using i by (simp add: list_update_same_conv)
    then show ?thesis using assms ended n Some by (simp add: update_first_has_key reduce_frames_def)
  qed
qed

lemma step_tool_end:
  assumes "in_step ks e" and "rebuilt noArgs ks (c, raw)" and "encode_event (EvToolEnd call) e = (f, e')"
  shows "in_step (stream_step (EvToolEnd call) ks) e' \<and>
    rebuilt noArgs (stream_step (EvToolEnd call) ks) (reduce_frames noArgs f (c, raw))"
proof (cases "position_of (ToolKey (tc_id call)) (map key_of ks)")
  case None
  then show ?thesis
    using assms tool_state(1)[OF assms(1) None] by (auto simp: update_first_has_key reduce_frames_def)
next
  case (Some i)
  note i = at_index[OF Some]
  let ?t = "tc_id call"
  obtain n where n: "fe_toolCallState e ?t = Some (i, open_call (ks ! i), n)" using tool_state(2)[OF assms(1) Some] by blast
  consider (running) m r where "ks ! i = KOpen ?t m r" | (ended) call' where "ks ! i = KClosed call'" "tc_id call' = ?t"
    using i key_of_iff(3) by blast
  then show ?thesis
  proof cases
    case running
    have b: "block_at i c = Some (shown noArgs (KOpen ?t m r))" using block_at_rebuilt[OF assms(2) i(1)] running by simp
    have d: "distinct (map fst (AList.delete i raw))" using assms(2) by (simp add: rebuilt_def distinct_delete)
    have "rebuilt noArgs (ks[i := KClosed call]) (put_block i (shown noArgs (KClosed call)) c, AList.delete i raw)"
      by (rule rebuilt_tool[OF assms(2) i(1) d]) (simp add: delete_conv')
    moreover have "in_step (ks[i := KClosed call]) (e\<lparr>fe_toolCallState := (fe_toolCallState e)(?t \<mapsto> (i, False, n))\<rparr>)"
      using in_step_tool[OF assms(1) i(1), of ?t "KClosed call" n] Some i by simp
    ultimately show ?thesis
      using assms(3) Some running n b by (auto simp: update_first_has_key reduce_frames_def)
  next
    case ended
    then have "ks[i := close_call call (ks ! i)] = ks" using i by (simp add: list_update_same_conv)
    then show ?thesis using assms ended n Some by (simp add: update_first_has_key reduce_frames_def)
  qed
qed

lemma step_event:
  assumes "in_step ks e" and "rebuilt noArgs ks st" and "encode_event ev e = (f, e')"
  shows "in_step (stream_step ev ks) e' \<and> rebuilt noArgs (stream_step ev ks) (reduce_frames noArgs f st)"
proof -
  obtain c raw where st: "st = (c, raw)" by (cases st)
  note A = assms(1) assms(2)[unfolded st]
  show ?thesis
  proof (cases ev)
    case (EvText d)
    then show ?thesis using step_text[OF A, of d f e'] assms(3) st by simp
  next
    case (EvThinking d b)
    then show ?thesis using step_thinking[OF A, of d b f e'] assms(3) st by simp
  next
    case (EvSignature b s)
    then show ?thesis using step_signature[OF A, of b s f e'] assms(3) st by simp
  next
    case (EvToolStart t n)
    then show ?thesis using step_tool_start[OF A, of t n f e'] assms(3) st by simp
  next
    case (EvToolDelta t d)
    then show ?thesis using step_tool_delta[OF A, of t d f e'] assms(3) st by simp
  next
    case (EvToolEnd c)
    then show ?thesis using step_tool_end[OF A, of c f e'] assms(3) st by simp
  next
    case EvReset
    then have "f = Some AttemptReset" "e' = newEncoder" using assms(3) by simp_all
    then show ?thesis using EvReset st by (simp add: reduce_frames_def)
  qed (use assms in \<open>auto simp: reduce_frames_def\<close>)
qed

lemma encode_stream_rebuilt:
  assumes "in_step ks e" and "rebuilt noArgs ks st"
  shows "rebuilt noArgs (fold stream_step evs ks) (fold (reduce_frame noArgs) (encode_stream evs e) st)"
  using assms
proof (induction evs arbitrary: ks e st)
  case (Cons ev evs)
  obtain f e' where f: "encode_event ev e = (f, e')" by fastforce
  note S = step_event[OF Cons.prems f]
  show ?case using Cons.IH[OF conjunct1[OF S] conjunct2[OF S]] f by (cases f) (simp_all add: reduce_frames_def)
qed simp

section \<open>The recovered message\<close>

fun with_args :: "'v \<Rightarrow> 'v block \<Rightarrow> 'v block" where
  "with_args v (ToolCallBlock call) = ToolCallBlock (call\<lparr>tc_arguments := v\<rparr>)"
| "with_args v b = b"

lemma finish_args_value:
  assumes "distinct (map fst raw)" and "\<And>i r. (i, r) \<in> set raw \<Longrightarrow> i < length bs"
  shows "finish_args noArgs parse raw (map Some bs) = map (\<lambda>i. Some (case map_of raw i of None \<Rightarrow> bs ! i
      | Some r \<Rightarrow> with_args (parsed_args noArgs parse r) (bs ! i))) [0..<length bs]"
  using assms
proof (induction raw arbitrary: bs)
  case Nil
  show ?case by (rule nth_equalityI) simp_all
next
  case (Cons p raw)
  obtain i r where p: "p = (i, r)" by (cases p)
  then have i: "i < length bs" using Cons.prems(2)[of i r] by simp
  let ?bs = "bs[i := with_args (parsed_args noArgs parse r) (bs ! i)]"
  have step: "(case block_at i (map Some bs) of
        Some (ToolCallBlock call) \<Rightarrow>
          put_block i (ToolCallBlock (call\<lparr>tc_arguments := parsed_args noArgs parse r\<rparr>)) (map Some bs)
      | _ \<Rightarrow> map Some bs) = map Some ?bs"
    using i list_update_id[of bs i]
    by (cases "bs ! i") (simp_all add: block_at_def put_block_def map_update flip: map_update)
  have n: "map_of raw i = None" using Cons.prems(1) p by (auto simp: map_of_eq_None_iff)
  have "finish_args noArgs parse raw (map Some ?bs) = map (\<lambda>j. Some (case map_of raw j of None \<Rightarrow> ?bs ! j
      | Some r \<Rightarrow> with_args (parsed_args noArgs parse r) (?bs ! j))) [0..<length bs]"
  proof -
    have "distinct (map fst raw)" using Cons.prems(1) by simp
    moreover have "j < length ?bs" if "(j, r') \<in> set raw" for j r' using Cons.prems(2)[of j r'] that by simp
    ultimately show ?thesis using Cons.IH[of ?bs] by simp
  qed
  also have "\<dots> = map (\<lambda>j. Some (case map_of (p # raw) j of None \<Rightarrow> bs ! j
      | Some r \<Rightarrow> with_args (parsed_args noArgs parse r) (bs ! j))) [0..<length bs]"
  proof (rule map_cong[OF refl])
    fix j
    show "Some (case map_of raw j of None \<Rightarrow> ?bs ! j | Some r \<Rightarrow> with_args (parsed_args noArgs parse r) (?bs ! j)) =
        Some (case map_of (p # raw) j of None \<Rightarrow> bs ! j | Some r \<Rightarrow> with_args (parsed_args noArgs parse r) (bs ! j))"
      using n i p by (cases "j = i"; cases "map_of raw j") simp_all
  qed
  finally show ?case using p step by simp
qed

lemma final_from_shown:
  "(case args_so_far k of None \<Rightarrow> shown noArgs k | Some r \<Rightarrow> with_args (parsed_args noArgs parse r) (shown noArgs k)) =
    final_block noArgs parse k"
  by (cases k) (auto split: option.split)

lemma rebuilt_finish:
  assumes "rebuilt noArgs ks (c, raw)"
  shows "finish_args noArgs parse raw c = map (\<lambda>k. Some (final_block noArgs parse k)) ks"
proof -
  have c: "c = map Some (map (shown noArgs) ks)" using assms by (simp add: rebuilt_def)
  have raw: "map_of raw i = (if i < length ks then args_so_far (ks ! i) else None)" "distinct (map fst raw)" for i
    using assms by (simp_all add: rebuilt_def)
  have b: "i < length ks" if "(i, r) \<in> set raw" for i r
    using raw(1)[of i] that by (metis option.distinct(1) map_of_eq_None_iff fst_conv image_eqI)
  have "finish_args noArgs parse raw c = map (\<lambda>i. Some (case map_of raw i of None \<Rightarrow> map (shown noArgs) ks ! i
      | Some r \<Rightarrow> with_args (parsed_args noArgs parse r) (map (shown noArgs) ks ! i))) [0..<length ks]"
    unfolding c using finish_args_value[OF raw(2), of "map (shown noArgs) ks"] b by simp
  also have "\<dots> = map (\<lambda>i. Some (final_block noArgs parse (ks ! i))) [0..<length ks]"
    using raw(1) by (simp add: final_from_shown cong: option.case_cong)
  also have "\<dots> = map (\<lambda>k. Some (final_block noArgs parse k)) ks"
    by (rule nth_equalityI) simp_all
  finally show ?thesis .
qed

text \<open>
  The frames of any stream of events rebuild the message the stream describes: with no frame there is
  none; otherwise it has the blocks of the stream in the order they were opened, an unfinished tool
  call with the arguments received so far when they parse, and says that it was aborted.
\<close>

lemma frames_rebuild_stream:
  "reduceAssistantFrames noArgs parse (encode_stream evs newEncoder) =
     (if encode_stream evs newEncoder = [] then None
      else Some \<lparr>pm_content = map (final_block noArgs parse) (stream_blocks evs), pm_stopReason = ascii ''aborted'',
             pm_errorMessage = recovered_error\<rparr>)"
proof -
  obtain c raw where st: "fold (reduce_frame noArgs) (encode_stream evs newEncoder) ([], []) = (c, raw)" by fastforce
  have "rebuilt noArgs (stream_blocks evs) (c, raw)"
    using encode_stream_rebuilt[OF in_step_new rebuilt_new, of noArgs evs] st by (simp add: stream_blocks_def)
  then have "finish_args noArgs parse raw c = map (\<lambda>k. Some (final_block noArgs parse k)) (stream_blocks evs)"
    by (rule rebuilt_finish)
  then show ?thesis using st by (simp add: reduceAssistantFrames_def filter_map o_def)
qed

section \<open>Recovery and the live message agree\<close>

fun is_tool_call :: "'v block \<Rightarrow> bool" where
  "is_tool_call (ToolCallBlock c) = True" | "is_tool_call _ = False"

lemma upsert_filter_map:
  assumes "\<And>y. Q (g y) \<longleftrightarrow> P y" and "\<And>y. P y \<Longrightarrow> R (g y) \<and> R (g (f y)) \<and> g (f y) = h (g y)" and "R (g (f x))" and "g (f x) = h z"
  shows "filter R (map g (upsert P f x ys)) = upsert Q h z (filter R (map g ys))"
proof (induction ys)
  case (Cons y ys)
  then show ?case using assms(1)[of y] assms(2)[of y] by (cases "P y") auto
qed (use assms(3,4) in simp)

lemma update_filter_map:
  assumes "\<And>y. Q (g y) \<longleftrightarrow> P y" and "\<And>y. P y \<Longrightarrow> R (g y) \<and> R (g (f y)) \<and> g (f y) = h (g y)"
  shows "filter R (map g (update_first P f ys)) = update_first Q h (filter R (map g ys))"
proof (induction ys)
  case (Cons y ys)
  then show ?case using assms(1)[of y] assms(2)[of y] by (cases "P y") auto
qed simp

lemma tool_steps_filter:
  assumes "\<And>y. P y \<Longrightarrow> \<not> R (g y) \<and> \<not> R (g (f y))" and "\<not> R (g (f x))"
  shows "filter R (map g (upsert P f x ys)) = filter R (map g ys)" "filter R (map g (update_first P f ys)) = filter R (map g ys)"
  using assms by (induction ys) auto

lemma live_step:
  fixes ks :: "'v kblock list" and noArgs :: 'v and parse :: "jstring \<Rightarrow> 'v option"
  defines "g \<equiv> final_block noArgs parse" and "R \<equiv> (\<lambda>b. \<not> is_tool_call b)"
  shows "filter R (map g (stream_step ev ks)) = live_update ev (filter R (map g ks))"
proof (cases ev)
  case (EvText d)
  have "is_text (g y) \<longleftrightarrow> has_key TextKey y" for y by (cases y) (simp_all add: g_def)
  then show ?thesis unfolding EvText stream_step.simps live_update.simps
    by (intro upsert_filter_map) (auto simp: g_def R_def key_of_iff)
next
  case (EvThinking d b)
  have "is_thinking b (g y) \<longleftrightarrow> has_key (ThinkKey b) y" for y by (cases y) (auto simp: g_def)
  then show ?thesis unfolding EvThinking stream_step.simps live_update.simps
    by (intro upsert_filter_map) (auto simp: g_def R_def key_of_iff)
next
  case (EvSignature b s)
  have "is_thinking (Some b) (g y) \<longleftrightarrow> has_key (ThinkKey (Some b)) y" for y by (cases y) (auto simp: g_def)
  then show ?thesis unfolding EvSignature stream_step.simps live_update.simps
    by (intro update_filter_map) (auto simp: g_def R_def key_of_iff)
next
  case (EvToolStart t n)
  show ?thesis unfolding EvToolStart stream_step.simps live_update.simps
    by (rule tool_steps_filter(1)) (auto simp: g_def R_def key_of_iff)
next
  case (EvToolDelta t d)
  show ?thesis unfolding EvToolDelta stream_step.simps live_update.simps
    by (rule tool_steps_filter(2)[where x = "KOpen t t None"]) (auto simp: g_def R_def key_of_iff)
next
  case (EvToolEnd c)
  show ?thesis unfolding EvToolEnd stream_step.simps live_update.simps
    by (rule tool_steps_filter(2)[where x = "KClosed c"]) (auto simp: g_def R_def key_of_iff)
qed simp_all

text \<open>
  What is recovered after a crash is what was on the screen: the text and thinking blocks rebuilt from
  the persisted frames are those of the live message, in the same order and with the same signatures,
  after any stream of events.
\<close>

lemma recovery_matches_live:
  assumes "reduceAssistantFrames noArgs parse (encode_stream evs newEncoder) = Some m"
  shows "filter (\<lambda>b. \<not> is_tool_call b) (pm_content m) = live_content evs"
proof -
  have "filter (\<lambda>b. \<not> is_tool_call b) (map (final_block noArgs parse) (fold stream_step evs ks)) =
      fold live_update evs (filter (\<lambda>b. \<not> is_tool_call b) (map (final_block noArgs parse) ks))" for ks
    by (induction evs arbitrary: ks) (simp_all add: live_step)
  then show ?thesis
    using assms by (auto simp: frames_rebuild_stream stream_blocks_def live_content_def split: if_splits)
qed

lemma recovery_matches_live_witness:
  "live_content ([EvText [97], EvThinking [98] (Some 2), EvSignature 2 [120], EvText [99]] :: nat stream_event list) =
    [TextBlock [97, 99], ThinkingBlock [98] (Some [120]) (Some 2)]"
proof -
  let ?evs = "[EvText [97], EvThinking [98] (Some 2), EvSignature 2 [120], EvText [99]] :: nat stream_event list"
  obtain m where m: "reduceAssistantFrames 0 (\<lambda>_. None) (encode_stream ?evs newEncoder) = Some m"
      "pm_content m = map (final_block 0 (\<lambda>_. None)) (stream_blocks ?evs)"
  proof -
    have "encode_stream ?evs newEncoder \<noteq> []" by (simp add: newEncoder_def)
    then show ?thesis using that by (simp only: frames_rebuild_stream) simp
  qed
  then show ?thesis using recovery_matches_live[OF m(1)] by (simp add: stream_blocks_def)
qed

end
