(* ===== verification/Reducer.thy ===== *)
theory Reducer
  imports Complex_Main Frames "HOL-Library.Multiset" "HOL-Library.List_Lexorder"
begin

text \<open>
  \<open>packages/agent-core/src/reducer/session-reducer.ts\<close>: the state of a session computed from its journal, and
  the recovery of the tool calls a crash interrupted, with \<open>mergeOperationIntent\<close>
  (\<open>packages/protocol/src/storage.ts\<close>) and the comparison of replay contracts
  (\<open>tool-replay-contract.ts\<close>). Payloads, messages and operations' fields are JSON values or \<open>undefined\<close>, as the journal
  has them; a frame is already of its declared shape. The state adapter, \<open>JSON.stringify\<close>, \<open>JSON.parse\<close>
  and the clock are arguments.
\<close>

section \<open>Values\<close>

datatype jval =
    JUndef
  | JNull
  | JBool bool
  | JNum rat
  | JStr jstring
  | JArr "jval list"
  | JObj "(jstring \<times> jval) list"

fun jval_truthy :: "jval \<Rightarrow> bool" where
  "jval_truthy JUndef = False"
| "jval_truthy JNull = False"
| "jval_truthy (JBool b) = b"
| "jval_truthy (JNum r) = (r \<noteq> 0)"
| "jval_truthy (JStr s) = (s \<noteq> [])"
| "jval_truthy (JArr vs) = True"
| "jval_truthy (JObj fs) = True"

text \<open>\<open>v?.k\<close>, \<open>a || b\<close>, \<open>a ?? b\<close>, \<open>n || 0\<close>, a literal and the spread of an optional field.\<close>

fun prop_of :: "string \<Rightarrow> jval \<Rightarrow> jval" where
  "prop_of k (JObj fs) = (case map_of fs (ascii k) of None \<Rightarrow> JUndef | Some v \<Rightarrow> v)"
| "prop_of k _ = JUndef"

definition or_else :: "jval \<Rightarrow> jval \<Rightarrow> jval" where
  "or_else a b = (if jval_truthy a then a else b)"

definition nullish :: "jval \<Rightarrow> jval \<Rightarrow> jval" where
  "nullish a b = (if a = JUndef \<or> a = JNull then b else a)"

fun num_or_0 :: "jval \<Rightarrow> rat" where
  "num_or_0 (JNum r) = r" | "num_or_0 _ = 0"

abbreviation lit :: "string \<Rightarrow> jval" where
  "lit s \<equiv> JStr (ascii s)"

definition opt_field :: "string \<Rightarrow> jval \<Rightarrow> (jstring \<times> jval) list" where
  "opt_field k v = (if v = JUndef then [] else [(ascii k, v)])"

fun is_num :: "jval \<Rightarrow> bool" where
  "is_num (JNum r) = True" | "is_num _ = False"

fun is_arr :: "jval \<Rightarrow> bool" where
  "is_arr (JArr vs) = True" | "is_arr _ = False"

fun is_obj :: "jval \<Rightarrow> bool" where
  "is_obj (JObj fs) = True" | "is_obj _ = False"

fun fields_of :: "jval \<Rightarrow> (jstring \<times> jval) list" where
  "fields_of (JObj fs) = fs" | "fields_of _ = []"

section \<open>Journal entries and their messages\<close>

datatype entry_type =
    ESessionStart | EUserMessage | EAgentTurn | EToolExecution | EAssistantFrame | EOperationIntent
  | EOperationSettlement | ELedgerMutation | EDraftRevision | ECompaction | ECustom | EOther

record journal_entry =
  je_id :: jstring
  je_sessionId :: jstring
  je_laneId :: "jstring option"
  je_type :: entry_type
  je_timestamp :: rat
  je_payload :: jval
  je_frame :: "jval stream_frame option"

definition identity :: "journal_entry \<Rightarrow> (jstring \<times> jval) list" where
  "identity e = [(ascii ''id'', JStr (je_id e)), (ascii ''timestamp'', JNum (je_timestamp e))]"

definition text_content :: "jval \<Rightarrow> jval" where
  "text_content t = JArr [JObj [(ascii ''type'', lit ''text''), (ascii ''text'', t)]]"

definition duration_field :: "jval \<Rightarrow> (jstring \<times> jval) list" where
  "duration_field p = (if is_num (prop_of ''durationMs'' p) then [(ascii ''durationMs'', prop_of ''durationMs'' p)] else [])"

definition messageFromSessionEntry :: "(jval \<Rightarrow> jstring) \<Rightarrow> journal_entry \<Rightarrow> jval option" where
  "messageFromSessionEntry stringify e =
     (let p = je_payload e in
      case je_type e of
        EUserMessage \<Rightarrow> Some (JObj (identity e @
          [(ascii ''role'', lit ''user''),
           (ascii ''content'', case p of JStr s \<Rightarrow> JStr s | _ \<Rightarrow> nullish (prop_of ''content'' p) (nullish (prop_of ''text'' p) (JStr [])))]))
      | EAgentTurn \<Rightarrow> Some (JObj (identity e @
          [(ascii ''role'', lit ''assistant''),
           (ascii ''content'', if is_arr (prop_of ''content'' p) then prop_of ''content'' p
              else text_content (or_else (prop_of ''content'' p) (or_else (prop_of ''text'' p) (JStr [])))),
           (ascii ''stopReason'', or_else (prop_of ''stopReason'' p) (lit ''stop''))] @
          opt_field ''errorMessage'' (prop_of ''errorMessage'' p) @ opt_field ''providerError'' (prop_of ''providerError'' p) @
          opt_field ''providerSource'' (prop_of ''providerSource'' p) @
          opt_field ''providerThinkingLevel'' (prop_of ''providerThinkingLevel'' p) @ opt_field ''usage'' (prop_of ''usage'' p) @
          duration_field p))
      | EToolExecution \<Rightarrow> Some (JObj (identity e @
          [(ascii ''role'', lit ''toolResult''),
           (ascii ''toolCallId'', or_else (prop_of ''toolCallId'' p) (or_else (prop_of ''id'' p) (JStr (je_id e)))),
           (ascii ''toolName'', or_else (prop_of ''toolName'' p) (or_else (prop_of ''name'' p) (lit ''unknown_tool''))),
           (ascii ''content'', if is_arr (prop_of ''content'' p) then prop_of ''content'' p
              else text_content (case prop_of ''result'' p of JStr s \<Rightarrow> JStr s
                | r \<Rightarrow> JStr (stringify (or_else r (JStr [])))))] @
          opt_field ''details'' (prop_of ''details'' p) @
          [(ascii ''isError'', JBool (jval_truthy (prop_of ''isError'' p) \<or> jval_truthy (prop_of ''error'' p)))] @
          duration_field p))
      | ECustom \<Rightarrow>
          if prop_of ''role'' p = lit ''custom'' \<or> prop_of ''role'' p = lit ''system''
          then Some (JObj (AList.update (ascii ''timestamp'') (JNum (je_timestamp e))
                 (AList.update (ascii ''id'') (JStr (je_id e)) (fields_of p))))
          else None
      | _ \<Rightarrow> None)"

section \<open>The materialized state\<close>

record operation_record =
  or_id :: jstring
  or_sessionId :: jstring
  or_type :: jval
  or_state :: jval
  or_intent :: jval
  or_settlement :: jval
  or_error :: jval
  or_createdAt :: rat
  or_updatedAt :: rat

record 's session_state =
  ss_sessionId :: jstring
  ss_currentLeafId :: "jstring option"
  ss_activeLaneId :: jstring
  ss_messages :: "jval list"
  ss_operations :: "(jstring \<times> operation_record) list"
  ss_inputTokens :: rat
  ss_outputTokens :: rat
  ss_totalTokens :: rat
  ss_runtimeState :: "'s option"
  ss_factsLedger :: "'s option"
  ss_revisions :: "(jstring \<times> rat) list"
  ss_pendingToolResults :: "(jval \<times> rat option) list"
  ss_pendingAssistantFrames :: "jval stream_frame list"

record 's adapter =
  ad_initial :: 's
  ad_merge :: "'s \<Rightarrow> jval \<Rightarrow> 's"

definition createInitialSessionState :: "jstring \<Rightarrow> 's adapter \<Rightarrow> 's session_state" where
  "createInitialSessionState sessionId a =
     \<lparr>ss_sessionId = sessionId, ss_currentLeafId = None, ss_activeLaneId = ascii ''main'', ss_messages = [],
      ss_operations = [], ss_inputTokens = 0, ss_outputTokens = 0, ss_totalTokens = 0,
      ss_runtimeState = Some (ad_initial a), ss_factsLedger = Some (ad_initial a), ss_revisions = [],
      ss_pendingToolResults = [], ss_pendingAssistantFrames = []\<rparr>"

definition source_key :: "jval \<times> rat option \<Rightarrow> rat" where
  "source_key p = (case snd p of Some i \<Rightarrow> i | None \<Rightarrow> of_int MAX_SAFE_INTEGER)"

definition flushPendingToolResults :: "'s session_state \<Rightarrow> 's session_state" where
  "flushPendingToolResults s =
     (if ss_pendingToolResults s = [] then s
      else s\<lparr>ss_messages := ss_messages s @ map fst (sort_key source_key (ss_pendingToolResults s)),
             ss_pendingToolResults := []\<rparr>)"

definition state_or_initial :: "'s adapter \<Rightarrow> 's session_state \<Rightarrow> 's" where
  "state_or_initial a s =
     (case ss_runtimeState s of Some r \<Rightarrow> r
      | None \<Rightarrow> case ss_factsLedger s of Some r \<Rightarrow> r | None \<Rightarrow> ad_initial a)"

definition set_runtime :: "'s \<Rightarrow> 's session_state \<Rightarrow> 's session_state" where
  "set_runtime r s = s\<lparr>ss_runtimeState := Some r, ss_factsLedger := Some r\<rparr>"

definition add_usage :: "jval \<Rightarrow> 's session_state \<Rightarrow> 's session_state" where
  "add_usage u s =
     (if jval_truthy u
      then s\<lparr>ss_inputTokens := ss_inputTokens s + num_or_0 (prop_of ''inputTokens'' u),
             ss_outputTokens := ss_outputTokens s + num_or_0 (prop_of ''outputTokens'' u),
             ss_totalTokens := ss_totalTokens s + num_or_0 (prop_of ''totalTokens'' u)\<rparr>
      else s)"

text \<open>\<open>{ ...fields, k: v }\<close> with the field only when it is defined.\<close>

definition extend_with :: "string \<Rightarrow> jval \<Rightarrow> (jstring \<times> jval) list \<Rightarrow> (jstring \<times> jval) list" where
  "extend_with k v fs = (if v = JUndef then fs else AList.update (ascii k) v fs)"

definition mergeOperationIntent :: "jval \<Rightarrow> jval" where
  "mergeOperationIntent op =
     (let base = (if prop_of ''intent'' op \<noteq> JUndef then prop_of ''intent'' op else op)
      in case base of
           JObj fs \<Rightarrow> JObj (extend_with ''invocationId'' (prop_of ''invocationId'' op)
                             (extend_with ''replay'' (prop_of ''replay'' op) fs))
         | _ \<Rightarrow> base)"

definition created_at :: "operation_record option \<Rightarrow> rat \<Rightarrow> rat" where
  "created_at existing now = (case existing of None \<Rightarrow> now | Some x \<Rightarrow> if or_createdAt x \<noteq> 0 then or_createdAt x else now)"

definition reduce_intent :: "journal_entry \<Rightarrow> 's session_state \<Rightarrow> 's session_state" where
  "reduce_intent e s =
     (let op = je_payload e in
      case prop_of ''id'' op of
        JStr i \<Rightarrow>
          s\<lparr>ss_operations := AList.update i
              \<lparr>or_id = i, or_sessionId = ss_sessionId s, or_type = or_else (prop_of ''type'' op) (lit ''custom''),
               or_state = or_else (prop_of ''state'' op) (lit ''running''), or_intent = mergeOperationIntent op,
               or_settlement = JUndef, or_error = prop_of ''error'' op,
               or_createdAt = created_at (map_of (ss_operations s) i) (je_timestamp e), or_updatedAt = je_timestamp e\<rparr>
              (ss_operations s)\<rparr>
      | _ \<Rightarrow> s)"

definition reduce_settlement :: "journal_entry \<Rightarrow> 's session_state \<Rightarrow> 's session_state" where
  "reduce_settlement e s =
     (let op = je_payload e in
      case prop_of ''id'' op of
        JStr i \<Rightarrow>
          (let existing = map_of (ss_operations s) i;
               old = (\<lambda>f. case existing of None \<Rightarrow> JUndef | Some x \<Rightarrow> f x)
           in s\<lparr>ss_operations := AList.update i
                 \<lparr>or_id = i, or_sessionId = ss_sessionId s,
                  or_type = or_else (prop_of ''type'' op) (or_else (old or_type) (lit ''custom'')),
                  or_state = (if jval_truthy (prop_of ''error'' op) then lit ''failed'' else lit ''settled''),
                  or_intent = nullish (old or_intent) (prop_of ''intent'' op),
                  or_settlement = (if prop_of ''settlement'' op \<noteq> JUndef then prop_of ''settlement'' op else prop_of ''result'' op),
                  or_error = or_else (prop_of ''error'' op) JUndef,
                  or_createdAt = created_at existing (je_timestamp e), or_updatedAt = je_timestamp e\<rparr>
                 (ss_operations s)\<rparr>)
      | _ \<Rightarrow> s)"

fun has_field :: "string \<Rightarrow> jval \<Rightarrow> bool" where
  "has_field k (JObj fs) \<longleftrightarrow> ascii k \<in> fst ` set fs" | "has_field k _ = False"

definition state_patch :: "jval \<Rightarrow> jval" where
  "state_patch p =
     (if has_field ''statePatch'' p then prop_of ''statePatch'' p
      else if has_field ''ledger'' p then prop_of ''ledger'' p else p)"

definition merge_runtime :: "'s adapter \<Rightarrow> jval \<Rightarrow> 's session_state \<Rightarrow> 's session_state" where
  "merge_runtime a patch s = set_runtime (ad_merge a (state_or_initial a s) patch) s"

definition push_message :: "jval option \<Rightarrow> 's session_state \<Rightarrow> 's session_state" where
  "push_message m s = (case m of None \<Rightarrow> s | Some x \<Rightarrow> s\<lparr>ss_messages := ss_messages s @ [x]\<rparr>)"

definition advances :: "entry_type \<Rightarrow> bool" where
  "advances t \<longleftrightarrow> t \<in> {EUserMessage, EAgentTurn, ECompaction, ECustom}"

text \<open>The part before the \<open>switch\<close>, then the \<open>switch\<close>.\<close>

definition reduce_common :: "'s adapter \<Rightarrow> journal_entry \<Rightarrow> 's session_state \<Rightarrow> 's session_state" where
  "reduce_common a e s =
     (let s1 = set_runtime (state_or_initial a s) s;
          s2 = (if ss_sessionId s1 = [] \<and> je_sessionId e \<noteq> [] then s1\<lparr>ss_sessionId := je_sessionId e\<rparr> else s1);
          s3 = (case je_laneId e of Some l \<Rightarrow> if l \<noteq> [] then s2\<lparr>ss_activeLaneId := l\<rparr> else s2 | None \<Rightarrow> s2);
          s4 = s3\<lparr>ss_currentLeafId := Some (je_id e)\<rparr>
      in if advances (je_type e) then flushPendingToolResults s4 else s4)"

definition reduceSessionEntry :: "(jval \<Rightarrow> jstring) \<Rightarrow> 's adapter \<Rightarrow> 's session_state \<Rightarrow> journal_entry \<Rightarrow> 's session_state" where
  "reduceSessionEntry stringify a s0 e =
     (let s = reduce_common a e s0; p = je_payload e; m = messageFromSessionEntry stringify e in
      case je_type e of
        ESessionStart \<Rightarrow> (case prop_of ''laneId'' p of JStr l \<Rightarrow> if l \<noteq> [] then s\<lparr>ss_activeLaneId := l\<rparr> else s | _ \<Rightarrow> s)
      | EUserMessage \<Rightarrow> push_message m s
      | EAgentTurn \<Rightarrow> (add_usage (prop_of ''usage'' p) (push_message m s))\<lparr>ss_pendingAssistantFrames := []\<rparr>
      | EToolExecution \<Rightarrow>
          s\<lparr>ss_pendingToolResults := ss_pendingToolResults s @
              [(the m, case prop_of ''sourceIndex'' p of JNum i \<Rightarrow> Some i | _ \<Rightarrow> None)]\<rparr>
      | EAssistantFrame \<Rightarrow>
          (case je_frame e of None \<Rightarrow> s
           | Some f \<Rightarrow> s\<lparr>ss_pendingAssistantFrames := ss_pendingAssistantFrames s @ [f]\<rparr>)
      | EOperationIntent \<Rightarrow> reduce_intent e s
      | EOperationSettlement \<Rightarrow> reduce_settlement e s
      | ELedgerMutation \<Rightarrow> if is_obj (state_patch p) then merge_runtime a (state_patch p) s else s
      | EDraftRevision \<Rightarrow>
          (case (prop_of ''documentId'' p, prop_of ''version'' p) of
             (JStr d, JNum v) \<Rightarrow> s\<lparr>ss_revisions := AList.update d v (ss_revisions s)\<rparr>
           | _ \<Rightarrow> s)
      | ECompaction \<Rightarrow>
          add_usage (prop_of ''usage'' (prop_of ''summaryMessage'' (prop_of ''modelView'' p)))
            (if jval_truthy (prop_of ''summary'' p)
             then merge_runtime a (JObj [(ascii ''_lastCompactionSummary'', prop_of ''summary'' p)]) s else s)
      | ECustom \<Rightarrow> push_message m s
      | EOther \<Rightarrow> s)"

fun block_value :: "jval block \<Rightarrow> jval" where
  "block_value (TextBlock t) = JObj [(ascii ''type'', lit ''text''), (ascii ''text'', JStr t)]"
| "block_value (ThinkingBlock t s b) = JObj ([(ascii ''type'', lit ''thinking''), (ascii ''thinking'', JStr t)] @
     (case s of None \<Rightarrow> [] | Some x \<Rightarrow> [(ascii ''providerSignature'', JStr x)]) @
     (case b of None \<Rightarrow> [] | Some i \<Rightarrow> [(ascii ''providerBlockIndex'', JNum (of_int i))]))"
| "block_value (ToolCallBlock c) = JObj [(ascii ''type'', lit ''toolCall''), (ascii ''id'', JStr (tc_id c)),
     (ascii ''name'', JStr (tc_name c)), (ascii ''arguments'', tc_arguments c)]"

definition partial_value :: "jval partial_message \<Rightarrow> jval" where
  "partial_value m = JObj [(ascii ''role'', lit ''assistant''), (ascii ''content'', JArr (map block_value (pm_content m))),
     (ascii ''stopReason'', JStr (pm_stopReason m)), (ascii ''errorMessage'', JStr (pm_errorMessage m))]"

definition normalizeInitialState :: "'s adapter \<Rightarrow> 's session_state \<Rightarrow> 's session_state" where
  "normalizeInitialState a s = set_runtime (state_or_initial a s) s"

definition settle_state :: "(jstring \<Rightarrow> jval option) \<Rightarrow> 's session_state \<Rightarrow> 's session_state" where
  "settle_state parse s =
     (let settled = flushPendingToolResults s in
      if ss_pendingAssistantFrames settled = [] then settled
      else case reduceAssistantFrames (JObj []) parse (ss_pendingAssistantFrames settled) of
             None \<Rightarrow> settled
           | Some partial \<Rightarrow> settled\<lparr>ss_messages := ss_messages settled @ [partial_value partial],
                                     ss_pendingAssistantFrames := []\<rparr>)"

definition reduceSession ::
  "(jval \<Rightarrow> jstring) \<Rightarrow> (jstring \<Rightarrow> jval option) \<Rightarrow> 's adapter \<Rightarrow> journal_entry list \<Rightarrow> 's session_state option \<Rightarrow> 's session_state" where
  "reduceSession stringify parse a entries initial =
     (let base = (case initial of
            Some s \<Rightarrow> normalizeInitialState a s
          | None \<Rightarrow> createInitialSessionState
              (case entries of e # _ \<Rightarrow> if je_sessionId e \<noteq> [] then je_sessionId e else ascii ''default'' | [] \<Rightarrow> ascii ''default'') a)
      in settle_state parse (fold (\<lambda>e s. reduceSessionEntry stringify a s e) entries base))"

section \<open>Recovery after a crash\<close>

text \<open>The \<open>Map\<close> of durable results: a later message replaces an earlier one of the same id.\<close>

definition durable_results :: "'s session_state \<Rightarrow> (jstring \<times> jval) list" where
  "durable_results s = rev
     [(i, m). m \<leftarrow> ss_messages s, i \<leftarrow> (case prop_of ''id'' m of JStr x \<Rightarrow> [x] | _ \<Rightarrow> []),
              prop_of ''role'' m = lit ''toolResult'' \<and> i \<noteq> []]"

definition intent_result :: "'s session_state \<Rightarrow> operation_record \<Rightarrow> jval option" where
  "intent_result s op =
     (case prop_of ''invocationId'' (or_intent op) of JStr i \<Rightarrow> map_of (durable_results s) i | _ \<Rightarrow> None)"

definition live_states :: "jval list" where
  "live_states = [lit ''running'', lit ''pending'']"

text \<open>What becomes of an operation, and whether it is reported as interrupted; \<open>now\<close> is the clock's answer.\<close>

definition recover_operation :: "rat \<Rightarrow> 's session_state \<Rightarrow> operation_record \<Rightarrow> operation_record \<times> bool" where
  "recover_operation now s op =
     (case (if or_type op = lit ''tool_call'' \<and> or_state op \<in> set (lit ''interrupted'' # live_states)
            then intent_result s op else None) of
        Some r \<Rightarrow>
          (op\<lparr>or_state := (if jval_truthy (prop_of ''isError'' r) then lit ''failed'' else lit ''settled''),
              or_settlement := JObj ((ascii ''content'', prop_of ''content'' r) # opt_field ''details'' (prop_of ''details'' r)),
              or_updatedAt := (case prop_of ''timestamp'' r of JNum t \<Rightarrow> t | _ \<Rightarrow> or_updatedAt op)\<rparr>, False)
      | None \<Rightarrow>
          if or_state op \<in> set live_states
          then (op\<lparr>or_state := lit ''interrupted'',
                   or_error := lit ''Operation interrupted by system shutdown/crash.'', or_updatedAt := now\<rparr>, True)
          else (op, False))"

definition detectAndMarkInterruptedOperations ::
  "(jstring \<Rightarrow> rat) \<Rightarrow> 's session_state \<Rightarrow> 's session_state \<times> nat \<times> jstring list" where
  "detectAndMarkInterruptedOperations clock s =
     (let ids = [i. (i, op) \<leftarrow> ss_operations s, snd (recover_operation (clock i) s op)]
      in (s\<lparr>ss_operations := map (\<lambda>(i, op). (i, fst (recover_operation (clock i) s op))) (ss_operations s)\<rparr>,
          length ids, ids))"





datatype replay_policy = SafeReplay | NeverReplay

datatype recovery_action = ReplayCall | SynthesizeResult

datatype refusal = HistoricalPolicy | ToolMissing | CurrentPolicy | ContractChanged | InvalidArguments

record recovery_plan =
  rp_invocationId :: jstring
  rp_operationId :: jstring
  rp_toolCallId :: "jstring option"
  rp_sourceIndex :: "rat option"
  rp_toolName :: jstring
  rp_arguments :: jval
  rp_replay :: replay_policy
  rp_action :: recovery_action
  rp_contract :: jval
  rp_reason :: "refusal option"









definition tool_prefix :: jstring where
  "tool_prefix = ascii ''op_tool_''"

definition refusal_text :: "refusal option \<Rightarrow> jstring" where
  "refusal_text r = (case r of
     None \<Rightarrow> ascii ''incompatible contract'' | Some HistoricalPolicy \<Rightarrow> ascii ''historical-policy''
   | Some ToolMissing \<Rightarrow> ascii ''tool-missing'' | Some CurrentPolicy \<Rightarrow> ascii ''current-policy''
   | Some ContractChanged \<Rightarrow> ascii ''contract-changed'' | Some InvalidArguments \<Rightarrow> ascii ''invalid-arguments'')"

definition synthesizeInterruptedToolResult :: "rat \<Rightarrow> recovery_plan \<Rightarrow> jval" where
  "synthesizeInterruptedToolResult now p = JObj
     [(ascii ''id'', JStr (rp_invocationId p)), (ascii ''role'', lit ''toolResult''),
      (ascii ''toolCallId'', JStr (case rp_toolCallId p of Some t \<Rightarrow> t
         | None \<Rightarrow> if take (length tool_prefix) (rp_operationId p) = tool_prefix
                   then drop (length tool_prefix) (rp_operationId p) else rp_operationId p)),
      (ascii ''toolName'', JStr (rp_toolName p)), (ascii ''isError'', JBool True),
      (ascii ''content'', text_content (JStr (ascii ''Tool '' @ [39] @ rp_toolName p @ [39] @
         ascii '' was interrupted by a crash and '' @
         (if rp_replay p = NeverReplay then ascii ''its replay policy is '' @ [39] @ ascii ''never'' @ [39]
          else ascii ''replay was refused ('' @ refusal_text (rp_reason p) @ ascii '')'') @
         ascii ''. The external effect was NOT re-executed; the result is unknown and requires manual verification.''))),
      (ascii ''timestamp'', JNum now)]"

section \<open>The order in which tools finish\<close>

lemma sort_key_permuted:
  assumes "mset xs = mset ys" and "distinct (map f xs)"
  shows "sort_key f (pre @ xs @ post) = sort_key f (pre @ ys @ post)"
proof (rule properties_for_sort_key)
  show "mset (sort_key f (pre @ ys @ post)) = mset (pre @ xs @ post)" using assms(1) by simp
  show "sorted (map f (sort_key f (pre @ ys @ post)))" by simp
  have dy: "distinct (map f ys)" using assms by (metis mset_eq_imp_distinct_iff mset_map)
  have one: "filter (\<lambda>x. f k = f x) zs = (if \<exists>x \<in> set zs. f x = f k then [THE x. x \<in> set zs \<and> f x = f k] else [])"
    if "distinct (map f zs)" for k zs
    using that
  proof (induction zs)
    case (Cons z zs)
    show ?case
    proof (cases "f z = f k")
      case True
      then have "filter (\<lambda>x. f k = f x) zs = []" using Cons.prems by (auto simp: filter_empty_conv)
      moreover have "(THE x. x \<in> set (z # zs) \<and> f x = f k) = z" using Cons.prems True by (intro the_equality) (auto simp: image_iff)
      ultimately show ?thesis using True by auto
    next
      case False
      then have "(THE x. x \<in> set (z # zs) \<and> f x = f k) = (THE x. x \<in> set zs \<and> f x = f k)" by (metis set_ConsD list.set_intros(2))
      then show ?thesis using Cons False by auto
    qed
  qed simp
  have s: "set xs = set ys" using assms(1) by (rule mset_eq_setD)
  have xy: "filter (\<lambda>x. f k = f x) xs = filter (\<lambda>x. f k = f x) ys" for k
    by (simp only: one[OF assms(2)] one[OF dy] s)
  fix k
  show "filter (\<lambda>x. f k = f x) (sort_key f (pre @ ys @ post)) = filter (\<lambda>x. f k = f x) (pre @ xs @ post)"
    using sort_key_stable[of f "f k" "pre @ ys @ post"] xy[of k] by (simp add: eq_commute[of "f k"])
qed

text \<open>Two states that differ at most in the order of the results that wait for their place.\<close>

definition same_pending :: "(jval \<times> rat option) list \<Rightarrow> (jval \<times> rat option) list \<Rightarrow> bool" where
  "same_pending xs ys \<longleftrightarrow> (xs = [] \<longleftrightarrow> ys = []) \<and> (\<forall>post. sort_key source_key (xs @ post) = sort_key source_key (ys @ post))"

definition same_so_far :: "'s session_state \<Rightarrow> 's session_state \<Rightarrow> bool" where
  "same_so_far s t \<longleftrightarrow> ss_messages s = ss_messages t \<and> same_pending (ss_pendingToolResults s) (ss_pendingToolResults t) \<and>
     ss_pendingAssistantFrames s = ss_pendingAssistantFrames t"

lemma same_pending_refl [simp]: "same_pending xs xs"
  by (simp add: same_pending_def)

lemma same_pending_append: "same_pending xs ys \<Longrightarrow> same_pending (xs @ zs) (ys @ zs)"
  by (auto simp: same_pending_def)

lemma same_pending_sorted: "same_pending xs ys \<Longrightarrow> sort_key source_key xs = sort_key source_key ys"
  unfolding same_pending_def by (metis append_Nil2)

text \<open>What the parts of an entry do to the messages and the buffers.\<close>

lemma set_runtime_simps [simp]:
  "ss_messages (set_runtime r s) = ss_messages s" "ss_pendingToolResults (set_runtime r s) = ss_pendingToolResults s"
  "ss_pendingAssistantFrames (set_runtime r s) = ss_pendingAssistantFrames s" "ss_sessionId (set_runtime r s) = ss_sessionId s"
  "ss_operations (set_runtime r s) = ss_operations s"
  by (simp_all add: set_runtime_def)

lemma add_usage_simps [simp]:
  "ss_messages (add_usage u s) = ss_messages s" "ss_pendingToolResults (add_usage u s) = ss_pendingToolResults s"
  "ss_pendingAssistantFrames (add_usage u s) = ss_pendingAssistantFrames s" "ss_operations (add_usage u s) = ss_operations s"
  by (simp_all add: add_usage_def)

lemma merge_runtime_simps [simp]:
  "ss_messages (merge_runtime a v s) = ss_messages s" "ss_pendingToolResults (merge_runtime a v s) = ss_pendingToolResults s"
  "ss_pendingAssistantFrames (merge_runtime a v s) = ss_pendingAssistantFrames s"
  "ss_operations (merge_runtime a v s) = ss_operations s"
  by (simp_all add: merge_runtime_def)

lemma operations_simps [simp]:
  "ss_messages (reduce_intent e s) = ss_messages s" "ss_pendingToolResults (reduce_intent e s) = ss_pendingToolResults s"
  "ss_pendingAssistantFrames (reduce_intent e s) = ss_pendingAssistantFrames s"
  "ss_messages (reduce_settlement e s) = ss_messages s"
  "ss_pendingToolResults (reduce_settlement e s) = ss_pendingToolResults s"
  "ss_pendingAssistantFrames (reduce_settlement e s) = ss_pendingAssistantFrames s"
  by (simp_all add: reduce_intent_def reduce_settlement_def Let_def split: jval.split)

definition flushed :: "'s session_state \<Rightarrow> jval list" where
  "flushed s = ss_messages s @ map fst (sort_key source_key (ss_pendingToolResults s))"

lemma flush_simps [simp]:
  "ss_messages (flushPendingToolResults s) = flushed s" "ss_pendingToolResults (flushPendingToolResults s) = []"
  "ss_pendingAssistantFrames (flushPendingToolResults s) = ss_pendingAssistantFrames s"
  "ss_operations (flushPendingToolResults s) = ss_operations s"
  by (simp_all add: flushPendingToolResults_def flushed_def)

lemma flushed_leaf [simp]:
  "flushed (set_runtime r s) = flushed s" "flushed (s\<lparr>ss_sessionId := i\<rparr>) = flushed s"
  "flushed (s\<lparr>ss_activeLaneId := l\<rparr>) = flushed s" "flushed (s\<lparr>ss_currentLeafId := c\<rparr>) = flushed s"
  by (simp_all add: flushed_def)

lemma common_simps [simp]:
  "ss_messages (reduce_common a e s) = (if advances (je_type e) then flushed s else ss_messages s)"
  "ss_pendingToolResults (reduce_common a e s) = (if advances (je_type e) then [] else ss_pendingToolResults s)"
  "ss_pendingAssistantFrames (reduce_common a e s) = ss_pendingAssistantFrames s"
  "ss_operations (reduce_common a e s) = ss_operations s"
  by (simp_all add: reduce_common_def Let_def split: option.split)

definition entry_messages :: "(jval \<Rightarrow> jstring) \<Rightarrow> journal_entry \<Rightarrow> jval list" where
  "entry_messages stringify e =
     (if je_type e \<in> {EUserMessage, EAgentTurn, ECustom}
      then (case messageFromSessionEntry stringify e of None \<Rightarrow> [] | Some m \<Rightarrow> [m]) else [])"

definition entry_pending :: "(jval \<Rightarrow> jstring) \<Rightarrow> journal_entry \<Rightarrow> (jval \<times> rat option) list" where
  "entry_pending stringify e =
     (if je_type e = EToolExecution
      then [(the (messageFromSessionEntry stringify e),
             case prop_of ''sourceIndex'' (je_payload e) of JNum i \<Rightarrow> Some i | _ \<Rightarrow> None)] else [])"

lemma push_simps [simp]:
  "ss_messages (push_message m s) = ss_messages s @ (case m of None \<Rightarrow> [] | Some x \<Rightarrow> [x])"
  "ss_pendingToolResults (push_message m s) = ss_pendingToolResults s"
  "ss_pendingAssistantFrames (push_message m s) = ss_pendingAssistantFrames s"
  "ss_operations (push_message m s) = ss_operations s"
  by (simp_all add: push_message_def split: option.split)

lemma entry_effect:
  "ss_messages (reduceSessionEntry stringify a s e) =
     (if advances (je_type e) then flushed s else ss_messages s) @ entry_messages stringify e"
  "ss_pendingToolResults (reduceSessionEntry stringify a s e) =
     (if advances (je_type e) then [] else ss_pendingToolResults s) @ entry_pending stringify e"
  "ss_pendingAssistantFrames (reduceSessionEntry stringify a s e) =
     (if je_type e = EAgentTurn then [] else ss_pendingAssistantFrames s @
       (if je_type e = EAssistantFrame then (case je_frame e of None \<Rightarrow> [] | Some f \<Rightarrow> [f]) else []))"
  by (cases "je_type e"; simp add: reduceSessionEntry_def Let_def entry_messages_def entry_pending_def advances_def
      split: jval.split option.split)+

lemma same_entry:
  assumes "same_so_far s t"
  shows "same_so_far (reduceSessionEntry stringify a s e) (reduceSessionEntry stringify a t e)"
  using assms same_pending_append[of "ss_pendingToolResults s" "ss_pendingToolResults t"]
    same_pending_sorted[of "ss_pendingToolResults s" "ss_pendingToolResults t"]
  by (auto simp: same_so_far_def entry_effect flushed_def)

lemma same_entries:
  "same_so_far s t \<Longrightarrow> same_so_far (fold (\<lambda>e s. reduceSessionEntry stringify a s e) es s)
     (fold (\<lambda>e s. reduceSessionEntry stringify a s e) es t)"
  by (induction es arbitrary: s t) (simp_all add: same_entry)

lemma same_settled: "same_so_far s t \<Longrightarrow> ss_messages (settle_state parse s) = ss_messages (settle_state parse t)"
  using same_pending_sorted[of "ss_pendingToolResults s" "ss_pendingToolResults t"]
  by (auto simp: same_so_far_def settle_state_def Let_def flushed_def split: option.split)

lemma tool_entries:
  assumes "\<forall>e \<in> set ts. je_type e = EToolExecution"
  shows "ss_messages (fold (\<lambda>e s. reduceSessionEntry stringify a s e) ts s) = ss_messages s"
    "ss_pendingToolResults (fold (\<lambda>e s. reduceSessionEntry stringify a s e) ts s) =
       ss_pendingToolResults s @ map (\<lambda>e. hd (entry_pending stringify e)) ts"
    "ss_pendingAssistantFrames (fold (\<lambda>e s. reduceSessionEntry stringify a s e) ts s) = ss_pendingAssistantFrames s"
  using assms
  by (induction ts arbitrary: s) (simp_all add: entry_effect advances_def entry_messages_def entry_pending_def)

definition placement :: "journal_entry \<Rightarrow> rat" where
  "placement e = (case prop_of ''sourceIndex'' (je_payload e) of JNum i \<Rightarrow> i | _ \<Rightarrow> of_int MAX_SAFE_INTEGER)"

text \<open>
  The conversation does not depend on the order in which the tools of a turn finished: when their
  results carry different source indices, every order of their journal entries gives the same
  messages, whatever came before and after.
\<close>

lemma completion_order_irrelevant:
  assumes "mset ts = mset ts'" and "\<forall>e \<in> set ts. je_type e = EToolExecution" and "distinct (map placement ts)"
  shows "ss_messages (reduceSession stringify parse a (es1 @ ts @ es2) initial) =
    ss_messages (reduceSession stringify parse a (es1 @ ts' @ es2) initial)"
proof -
  let ?run = "\<lambda>es s. fold (\<lambda>e s. reduceSessionEntry stringify a s e) es s"
  let ?p = "\<lambda>e. hd (entry_pending stringify e)"
  have t': "\<forall>e \<in> set ts'. je_type e = EToolExecution" using assms(1,2) mset_eq_setD by blast
  have k: "source_key (?p e) = placement e" if "e \<in> set ts" for e
    using assms(2) that by (auto simp: source_key_def placement_def entry_pending_def split: jval.split)
  have "map source_key (map ?p ts) = map placement ts" using k by simp
  then have d: "distinct (map source_key (map ?p ts))" using assms(3) by (simp only:)
  have m: "mset (map ?p ts) = mset (map ?p ts')" using assms(1) by simp
  have e: "map ?p ts = [] \<longleftrightarrow> map ?p ts' = []" using assms(1) by (cases ts; cases ts') auto
  have "same_so_far (?run ts s) (?run ts' s)" for s
    unfolding same_so_far_def same_pending_def tool_entries[OF assms(2)] tool_entries[OF t']
    using sort_key_permuted[OF m d, of "ss_pendingToolResults s"] e by simp
  then have swap: "ss_messages (settle_state parse (?run (es1 @ ts @ es2) s)) =
      ss_messages (settle_state parse (?run (es1 @ ts' @ es2) s))" for s
    unfolding fold_append o_apply by (intro same_settled same_entries)
  have base: "ss_messages (reduceSession stringify parse a es None) =
      ss_messages (settle_state parse (?run es (createInitialSessionState [] a)))" for es
    unfolding reduceSession_def Let_def option.case
    by (intro same_settled same_entries) (simp add: same_so_far_def createInitialSessionState_def)
  show ?thesis
  proof (cases initial)
    case None
    then show ?thesis by (simp only: base swap)
  next
    case (Some s)
    then show ?thesis by (simp only: reduceSession_def Let_def option.case swap)
  qed
qed

lemma ascii_eq [simp]: "ascii k = ascii k' \<longleftrightarrow> k = k'"
proof -
  have "inj (of_char :: char \<Rightarrow> nat)" by (metis char_of_char injI)
  then show ?thesis by (simp add: ascii_def inj_map_eq_map)
qed

lemma ascii_Nil [simp]: "ascii k = [] \<longleftrightarrow> k = []"
  by (simp add: ascii_def)

definition demo_tool :: "jstring \<Rightarrow> rat \<Rightarrow> journal_entry" where
  "demo_tool i n = \<lparr>je_id = i, je_sessionId = [115], je_laneId = None, je_type = EToolExecution, je_timestamp = n,
     je_payload = JObj [(ascii ''sourceIndex'', JNum n)], je_frame = None\<rparr>"

definition demo_adapter :: "nat adapter" where
  "demo_adapter = \<lparr>ad_initial = 0, ad_merge = (\<lambda>s v. s + 1)\<rparr>"

lemma completion_order_irrelevant_witness:
  "ss_messages (reduceSession (\<lambda>_. []) (\<lambda>_. None) demo_adapter [demo_tool [98] 2, demo_tool [97] 1] None) =
   ss_messages (reduceSession (\<lambda>_. []) (\<lambda>_. None) demo_adapter [demo_tool [97] 1, demo_tool [98] 2] None)"
  using completion_order_irrelevant[of "[demo_tool [98] 2, demo_tool [97] 1]" "[demo_tool [97] 1, demo_tool [98] 2]"
      "\<lambda>_. []" "\<lambda>_. None" demo_adapter "[]" "[]" None]
  by (simp add: demo_tool_def placement_def add_mset_commute)

section \<open>What recovery guarantees\<close>



















definition demo_intent :: journal_entry where
  "demo_intent = \<lparr>je_id = [101], je_sessionId = [115], je_laneId = None, je_type = EOperationIntent, je_timestamp = 1,
     je_payload = JObj [(ascii ''id'', JStr [111]), (ascii ''type'', lit ''tool_call''), (ascii ''intent'', JObj
       [(ascii ''invocationId'', JStr [120]), (ascii ''replay'', lit ''safe''), (ascii ''name'', JStr [116]),
        (ascii ''contract'', JObj [(ascii ''version'', JNum 1)])])], je_frame = None\<rparr>"




text \<open>
  Recovery is complete: no operation is left running or pending, those reported are exactly the
  unfinished ones without a durable result, no operation is lost and no message changed, and a second
  recovery finds nothing to do.
\<close>

lemma recovery_complete:
  assumes "detectAndMarkInterruptedOperations clock s = (s', n, ids)"
  shows "map fst (ss_operations s') = map fst (ss_operations s) \<and> ss_messages s' = ss_messages s \<and> n = length ids \<and>
    (\<forall>(i, op) \<in> set (ss_operations s'). or_state op \<noteq> lit ''running'' \<and> or_state op \<noteq> lit ''pending'') \<and>
    (\<forall>i. i \<in> set ids \<longleftrightarrow> (\<exists>op. (i, op) \<in> set (ss_operations s) \<and> (or_state op = lit ''running'' \<or> or_state op = lit ''pending'') \<and>
       (or_type op = lit ''tool_call'' \<longrightarrow> intent_result s op = None))) \<and>
    detectAndMarkInterruptedOperations clock' s' = (s', 0, [])"
proof -
  have m: "ss_messages s' = ss_messages s"
    and ops: "ss_operations s' = map (\<lambda>(i, op). (i, fst (recover_operation (clock i) s op))) (ss_operations s)"
    and ids: "ids = [i. (i, op) \<leftarrow> ss_operations s, snd (recover_operation (clock i) s op)]" and n: "n = length ids"
    using assms by (auto simp: detectAndMarkInterruptedOperations_def Let_def)
  have "durable_results s' = durable_results s" by (simp add: durable_results_def m)
  then have i: "intent_result s' = intent_result s" by (simp add: intent_result_def fun_eq_iff split: jval.split)
  have idle: "or_state (fst (recover_operation t s op)) \<noteq> lit ''running'' \<and> or_state (fst (recover_operation t s op)) \<noteq> lit ''pending''"
    for t op by (auto simp: recover_operation_def live_states_def split: option.split)
  have again: "recover_operation t' s' (fst (recover_operation t s op)) = (fst (recover_operation t s op), False)" for t t' op
    using idle[of t op] by (auto simp: recover_operation_def i live_states_def intent_result_def split: option.split)
  have again_in: "recover_operation t s' op = (op, False)" if "(j, op) \<in> set (ss_operations s')" for t j op
    using that again by (auto simp: ops)
  have "(i, op) \<in> set (ss_operations s') \<Longrightarrow> or_state op \<noteq> lit ''running'' \<and> or_state op \<noteq> lit ''pending''" for i op
    using idle by (auto simp: ops)
  moreover have "i \<in> set ids \<longleftrightarrow> (\<exists>op. (i, op) \<in> set (ss_operations s) \<and> (or_state op = lit ''running'' \<or> or_state op = lit ''pending'') \<and>
      (or_type op = lit ''tool_call'' \<longrightarrow> intent_result s op = None))" for i
  proof -
    have "snd (recover_operation t s op) \<longleftrightarrow> (or_state op = lit ''running'' \<or> or_state op = lit ''pending'') \<and>
        (or_type op = lit ''tool_call'' \<longrightarrow> intent_result s op = None)" for t op
      by (auto simp: recover_operation_def live_states_def split: option.split)
    moreover have "i \<in> set ids \<longleftrightarrow> (\<exists>op. (i, op) \<in> set (ss_operations s) \<and> snd (recover_operation (clock i) s op))"
      unfolding ids by force
    ultimately show ?thesis by simp
  qed
  moreover have "detectAndMarkInterruptedOperations clock' s' = (s', 0, [])"
  proof -
    have "map (\<lambda>(i, op). (i, fst (recover_operation (clock' i) s' op))) (ss_operations s') = ss_operations s'"
      "[i. (i, op) \<leftarrow> ss_operations s', snd (recover_operation (clock' i) s' op)] = []"
      by (auto simp: again_in intro!: map_idI)
    then show ?thesis unfolding detectAndMarkInterruptedOperations_def by (simp only: Let_def list.size) simp
  qed
  ultimately show ?thesis using m n ops by (auto simp: case_prod_unfold)
qed

lemma recovery_complete_witness:
  "fst (snd (detectAndMarkInterruptedOperations (\<lambda>_. 10) (fst (detectAndMarkInterruptedOperations (\<lambda>_. 9)
     (reduceSession (\<lambda>_. []) (\<lambda>_. None) demo_adapter [demo_intent] None))))) = 0"
proof -
  obtain s' n ids where r: "detectAndMarkInterruptedOperations (\<lambda>_. 9)
      (reduceSession (\<lambda>_. []) (\<lambda>_. None) demo_adapter [demo_intent] None) = (s', n, ids)" by (metis prod_cases3)
  show ?thesis using recovery_complete[OF r, of "\<lambda>_. 10"] r by simp
qed

end
