(* ===== verification/Admission.thy ===== *)
theory Admission
  imports Complex_Main Utf8
begin

text \<open>
  \<open>packages/agent-core/src/codemode-admission.ts\<close>: the queue that bounds how many code workers run. A
  promise is the number of its \<open>acquire\<close> call, a permit's release function its number, with its
  \<open>released\<close> flag in \<open>aq_permits\<close>; settled promises are logged in order. A waiter that is settled has
  left the queue, so its \<open>settled\<close> flag is its absence, and its timer and abort listener live as long as
  it waits. A number is \<open>None\<close> when it is not finite (for the options: not an integer).
\<close>

section \<open>The queue\<close>

datatype abort_reason = ErrorReason nat | TextReason jstring | OtherReason

datatype abort_error = GivenError nat | NamedAbort jstring | DefaultAbort

datatype admission_error =
    Aborted abort_error | AdmissionTimeout "rat option" | AdmissionFull int
  | BadCapacity | BadQueueCapacity | EmptySubject

definition createCodemodeAbortError :: "abort_reason \<Rightarrow> abort_error" where
  "createCodemodeAbortError r =
     (case r of ErrorReason e \<Rightarrow> GivenError e
      | TextReason t \<Rightarrow> if t = [] then DefaultAbort else NamedAbort t
      | OtherReason \<Rightarrow> DefaultAbort)"

datatype admitted = Granted nat | Refused admission_error

record waiter =
  wt_promise :: nat
  wt_queuedAt :: "rat option"
  wt_signal :: "nat option"
  wt_timeout :: "rat option"

record admission =
  aq_capacity :: int
  aq_maxQueued :: int
  aq_activeSlots :: int
  aq_waiters :: "waiter list"
  aq_queueWaitCount :: nat
  aq_queueWaitTotalMs :: rat
  aq_queueWaitMaxMs :: rat
  aq_cancelledRequests :: nat
  aq_timedOutRequests :: nat
  aq_permits :: "bool list"
  aq_next :: nat
  aq_settled :: "(nat \<times> admitted) list"

definition newAdmissionQueue :: "int option \<Rightarrow> int option \<Rightarrow> jstring \<Rightarrow> (admission_error, admission) res" where
  "newAdmissionQueue capacity maxQueued subject =
     (case capacity of
        None \<Rightarrow> Throw BadCapacity
      | Some c \<Rightarrow>
          if c < 1 then Throw BadCapacity
          else case maxQueued of
            None \<Rightarrow> Throw BadQueueCapacity
          | Some m \<Rightarrow>
              if m < 0 then Throw BadQueueCapacity
              else if js_trim subject = [] then Throw EmptySubject
              else Ok \<lparr>aq_capacity = c, aq_maxQueued = m, aq_activeSlots = 0, aq_waiters = [], aq_queueWaitCount = 0,
                       aq_queueWaitTotalMs = 0, aq_queueWaitMaxMs = 0, aq_cancelledRequests = 0,
                       aq_timedOutRequests = 0, aq_permits = [], aq_next = 0, aq_settled = []\<rparr>)"

definition settle_promise :: "nat \<Rightarrow> admitted \<Rightarrow> admission \<Rightarrow> admission" where
  "settle_promise p v q = q\<lparr>aq_settled := aq_settled q @ [(p, v)]\<rparr>"

text \<open>\<open>resolve(this.createRelease())\<close>.\<close>

definition grant :: "nat \<Rightarrow> admission \<Rightarrow> admission" where
  "grant p q = settle_promise p (Granted (length (aq_permits q))) (q\<lparr>aq_permits := aq_permits q @ [False]\<rparr>)"

definition recordWait :: "rat option \<Rightarrow> waiter \<Rightarrow> admission \<Rightarrow> admission" where
  "recordWait now w q =
     (let waitMs = (case (now, wt_queuedAt w) of (Some t, Some t0) \<Rightarrow> max 0 (t - t0) | _ \<Rightarrow> 0)
      in q\<lparr>aq_queueWaitCount := aq_queueWaitCount q + 1, aq_queueWaitTotalMs := aq_queueWaitTotalMs q + waitMs,
           aq_queueWaitMaxMs := max (aq_queueWaitMaxMs q) waitMs\<rparr>)"

definition admission_releaseSlot :: "rat option \<Rightarrow> admission \<Rightarrow> admission" where
  "admission_releaseSlot now q =
     (case aq_waiters q of
        next # ws \<Rightarrow> grant (wt_promise next) (recordWait now next (q\<lparr>aq_waiters := ws\<rparr>))
      | [] \<Rightarrow> q\<lparr>aq_activeSlots := aq_activeSlots q - 1\<rparr>)"

text \<open>A call of the release function \<open>k\<close>.\<close>

definition release_permit :: "rat option \<Rightarrow> nat \<Rightarrow> admission \<Rightarrow> admission" where
  "release_permit now k q =
     (if k < length (aq_permits q) \<and> \<not> aq_permits q ! k
      then admission_releaseSlot now (q\<lparr>aq_permits := (aq_permits q)[k := True]\<rparr>) else q)"

datatype cancel_outcome = WasCancelled | WasTimedOut

definition cancel_waiter :: "rat option \<Rightarrow> nat \<Rightarrow> admission_error \<Rightarrow> cancel_outcome \<Rightarrow> admission \<Rightarrow> admission" where
  "cancel_waiter now p err oc q =
     (case find (\<lambda>w. wt_promise w = p) (aq_waiters q) of
        None \<Rightarrow> q
      | Some w \<Rightarrow>
          let q1 = recordWait now w (q\<lparr>aq_waiters := remove1 w (aq_waiters q)\<rparr>);
              q2 = (case oc of WasCancelled \<Rightarrow> q1\<lparr>aq_cancelledRequests := aq_cancelledRequests q1 + 1\<rparr>
                    | WasTimedOut \<Rightarrow> q1\<lparr>aq_timedOutRequests := aq_timedOutRequests q1 + 1\<rparr>)
          in settle_promise p (Refused err) q2)"

record admission_request =
  rq_signal :: "nat option"
  rq_aborted :: "abort_reason option"
  rq_abortedLater :: "(abort_reason \<times> rat option) option"
  rq_timeoutMs :: "rat option option"

text \<open>
  \<open>rq_aborted\<close> is the signal's reason when it has fired before the call, \<open>rq_abortedLater\<close> when it has fired by
  the end of it (the clock is the caller's code), with the time read then.
\<close>

definition acquire_slot :: "rat option \<Rightarrow> admission_request \<Rightarrow> admission \<Rightarrow> admission" where
  "acquire_slot now rq q0 =
     (let p = aq_next q0; q = q0\<lparr>aq_next := p + 1\<rparr>;
          enter = (
            if aq_activeSlots q < aq_capacity q \<and> aq_waiters q = [] then
              grant p (q\<lparr>aq_activeSlots := aq_activeSlots q + 1\<rparr>)
            else if int (length (aq_waiters q)) \<ge> aq_maxQueued q then settle_promise p (Refused (AdmissionFull (aq_maxQueued q))) q
            else
              let w = \<lparr>wt_promise = p, wt_queuedAt = now, wt_signal = rq_signal rq,
                       wt_timeout = (case rq_timeoutMs rq of Some t \<Rightarrow> t | None \<Rightarrow> None)\<rparr>;
                  q1 = q\<lparr>aq_waiters := aq_waiters q @ [w]\<rparr>
              in case (rq_signal rq, rq_abortedLater rq) of
                   (Some s, Some (r, later)) \<Rightarrow> cancel_waiter later p (Aborted (createCodemodeAbortError r)) WasCancelled q1
                 | _ \<Rightarrow> q1)
      in case (rq_signal rq, rq_aborted rq) of
           (Some s, Some r) \<Rightarrow>
             settle_promise p (Refused (Aborted (createCodemodeAbortError r))) (q\<lparr>aq_cancelledRequests := aq_cancelledRequests q + 1\<rparr>)
         | _ \<Rightarrow> case rq_timeoutMs rq of
             None \<Rightarrow> enter
           | Some None \<Rightarrow>
               settle_promise p (Refused (AdmissionTimeout None)) (q\<lparr>aq_timedOutRequests := aq_timedOutRequests q + 1\<rparr>)
           | Some (Some t) \<Rightarrow>
               if t \<le> 0 then
                 settle_promise p (Refused (AdmissionTimeout (Some (max 0 t)))) (q\<lparr>aq_timedOutRequests := aq_timedOutRequests q + 1\<rparr>)
               else enter)"

text \<open>The events: a signal fires (its listeners run in the order they were added), a timer fires.\<close>

definition abort_event :: "rat option \<Rightarrow> nat \<Rightarrow> abort_reason \<Rightarrow> admission \<Rightarrow> admission" where
  "abort_event now sg r q =
     fold (\<lambda>w. cancel_waiter now (wt_promise w) (Aborted (createCodemodeAbortError r)) WasCancelled)
       (filter (\<lambda>w. wt_signal w = Some sg) (aq_waiters q)) q"

definition timer_event :: "rat option \<Rightarrow> nat \<Rightarrow> admission \<Rightarrow> admission" where
  "timer_event now p q =
     (case find (\<lambda>w. wt_promise w = p) (aq_waiters q) of
        None \<Rightarrow> q
      | Some w \<Rightarrow> (case wt_timeout w of None \<Rightarrow> q
                   | Some t \<Rightarrow> cancel_waiter now p (AdmissionTimeout (Some t)) WasTimedOut q))"

record admission_snapshot =
  as_activeSlots :: int
  as_queuedRequests :: nat
  as_capacity :: int
  as_maxQueued :: int
  as_queueWaitCount :: nat
  as_queueWaitTotalMs :: rat
  as_queueWaitMaxMs :: rat
  as_cancelledRequests :: nat
  as_timedOutRequests :: nat

definition admission_state :: "admission \<Rightarrow> admission_snapshot" where
  "admission_state q =
     \<lparr>as_activeSlots = aq_activeSlots q, as_queuedRequests = length (aq_waiters q), as_capacity = aq_capacity q,
      as_maxQueued = aq_maxQueued q, as_queueWaitCount = aq_queueWaitCount q, as_queueWaitTotalMs = aq_queueWaitTotalMs q,
      as_queueWaitMaxMs = aq_queueWaitMaxMs q, as_cancelledRequests = aq_cancelledRequests q,
      as_timedOutRequests = aq_timedOutRequests q\<rparr>"

inductive admission_reach :: "admission \<Rightarrow> bool" where
  start: "newAdmissionQueue c m subject = Ok q \<Longrightarrow> admission_reach q"
| acquire: "admission_reach q \<Longrightarrow> admission_reach (acquire_slot now rq q)"
| release: "admission_reach q \<Longrightarrow> admission_reach (release_permit now k q)"
| abort: "admission_reach q \<Longrightarrow> admission_reach (abort_event now sg r q)"
| timer: "admission_reach q \<Longrightarrow> admission_reach (timer_event now p q)"

section \<open>Its invariant\<close>

abbreviation is_grant :: "nat \<times> admitted \<Rightarrow> bool" where
  "is_grant x \<equiv> case snd x of Granted k \<Rightarrow> True | Refused e \<Rightarrow> False"

text \<open>The promises that got a slot, then those that wait for one.\<close>

definition service_order :: "admission \<Rightarrow> nat list" where
  "service_order q = map fst (filter is_grant (aq_settled q)) @ map wt_promise (aq_waiters q)"

definition held :: "admission \<Rightarrow> nat" where
  "held q = length (filter Not (aq_permits q))"

definition slots_ok :: "admission \<Rightarrow> bool" where
  "slots_ok q \<longleftrightarrow> 1 \<le> aq_capacity q \<and> aq_activeSlots q = int (held q) \<and> aq_activeSlots q \<le> aq_capacity q \<and>
     int (length (aq_waiters q)) \<le> aq_maxQueued q \<and> (aq_waiters q \<noteq> [] \<longrightarrow> aq_activeSlots q = aq_capacity q)"

definition order_ok :: "admission \<Rightarrow> bool" where
  "order_ok q \<longleftrightarrow> sorted_wrt (<) (service_order q) \<and>
     distinct (map fst (aq_settled q) @ map wt_promise (aq_waiters q)) \<and>
     set (map fst (aq_settled q)) \<union> set (map wt_promise (aq_waiters q)) = {..<aq_next q} \<and>
     [k. (p, Granted k) \<leftarrow> aq_settled q] = [0..<length (aq_permits q)]"

lemma recordWait_simps [simp]:
  "aq_capacity (recordWait now w q) = aq_capacity q" "aq_maxQueued (recordWait now w q) = aq_maxQueued q"
  "aq_activeSlots (recordWait now w q) = aq_activeSlots q" "aq_waiters (recordWait now w q) = aq_waiters q"
  "aq_permits (recordWait now w q) = aq_permits q" "aq_next (recordWait now w q) = aq_next q"
  "aq_settled (recordWait now w q) = aq_settled q"
  by (simp_all add: recordWait_def Let_def)

lemma recordWait_ok [simp]: "slots_ok (recordWait now w q) = slots_ok q" "order_ok (recordWait now w q) = order_ok q"
  by (simp_all add: slots_ok_def order_ok_def held_def service_order_def)

lemma counters_ok [simp]:
  "slots_ok (q\<lparr>aq_cancelledRequests := c\<rparr>) = slots_ok q" "order_ok (q\<lparr>aq_cancelledRequests := c\<rparr>) = order_ok q"
  "slots_ok (q\<lparr>aq_timedOutRequests := c\<rparr>) = slots_ok q" "order_ok (q\<lparr>aq_timedOutRequests := c\<rparr>) = order_ok q"
  by (simp_all add: slots_ok_def order_ok_def held_def service_order_def)

lemma held_grant [simp]: "held (q\<lparr>aq_permits := aq_permits q @ [False]\<rparr>) = held q + 1"
  by (simp add: held_def)

lemma held_release: "k < length bs \<Longrightarrow> \<not> bs ! k \<Longrightarrow> Suc (length (filter Not (bs[k := True]))) = length (filter Not bs)"
proof (induction bs arbitrary: k)
  case (Cons b bs)
  then show ?case by (cases k) auto
qed simp

lemma order_new:
  assumes "order_ok q"
  shows "\<And>x. x \<in> set (service_order q) \<Longrightarrow> x < aq_next q"
    and "aq_next q \<notin> fst ` set (aq_settled q)" and "aq_next q \<notin> wt_promise ` set (aq_waiters q)"
proof -
  have A: "fst ` set (aq_settled q) \<union> wt_promise ` set (aq_waiters q) = {..<aq_next q}"
    using assms by (simp add: order_ok_def)
  moreover have "set (service_order q) \<subseteq> fst ` set (aq_settled q) \<union> wt_promise ` set (aq_waiters q)"
    by (auto simp: service_order_def)
  ultimately show "\<And>x. x \<in> set (service_order q) \<Longrightarrow> x < aq_next q" by blast
  show "aq_next q \<notin> fst ` set (aq_settled q)" "aq_next q \<notin> wt_promise ` set (aq_waiters q)" using A by blast+
qed

lemma order_union:
  "order_ok q \<Longrightarrow> fst ` set (aq_settled q) \<union> wt_promise ` set (aq_waiters q) = {..<aq_next q}"
  by (simp add: order_ok_def)

lemma order_refuse_new:
  assumes "order_ok q"
  shows "order_ok (settle_promise (aq_next q) (Refused e) (q\<lparr>aq_next := aq_next q + 1\<rparr>))"
  using assms order_new[OF assms] order_union[OF assms]
  by (auto simp: order_ok_def settle_promise_def service_order_def lessThan_Suc)

lemma order_grant_new:
  assumes "order_ok q" and "aq_waiters q = []"
  shows "order_ok (grant (aq_next q) (q\<lparr>aq_next := aq_next q + 1, aq_activeSlots := a\<rparr>))"
  using assms(1,2) order_new[OF assms(1)] order_union[OF assms(1)]
  by (auto simp: order_ok_def settle_promise_def grant_def service_order_def lessThan_Suc sorted_wrt_append)

lemma order_wait_new:
  assumes "order_ok q" and "wt_promise w = aq_next q"
  shows "order_ok (q\<lparr>aq_next := aq_next q + 1, aq_waiters := aq_waiters q @ [w]\<rparr>)"
proof -
  have "service_order (q\<lparr>aq_next := aq_next q + 1, aq_waiters := aq_waiters q @ [w]\<rparr>) = service_order q @ [aq_next q]"
    using assms(2) by (simp add: service_order_def)
  then show ?thesis
    using assms order_new[OF assms(1)] order_union[OF assms(1)]
    by (auto simp: order_ok_def lessThan_Suc sorted_wrt_append)
qed

lemma order_grant_head:
  assumes "order_ok q" and "aq_waiters q = w # ws"
  shows "order_ok (grant (wt_promise w) (q\<lparr>aq_waiters := ws\<rparr>))"
proof -
  have "service_order (grant (wt_promise w) (q\<lparr>aq_waiters := ws\<rparr>)) = service_order q"
    using assms(2) by (simp add: service_order_def grant_def settle_promise_def)
  then show ?thesis using assms by (auto simp: order_ok_def grant_def settle_promise_def)
qed

lemma remove1_split: "distinct (map f ws) \<Longrightarrow> w \<in> set ws \<Longrightarrow> \<exists>a b. ws = a @ w # b \<and> remove1 w ws = a @ b \<and> w \<notin> set (a @ b)"
proof -
  assume d: "distinct (map f ws)" and "w \<in> set ws"
  then obtain a b where "ws = a @ w # b" "w \<notin> set a" by (meson split_list_first)
  then show ?thesis using d by (auto simp: remove1_append distinct_map)
qed

lemma order_cancel:
  assumes "order_ok q" and "w \<in> set (aq_waiters q)"
  shows "order_ok (settle_promise (wt_promise w) (Refused e) (q\<lparr>aq_waiters := remove1 w (aq_waiters q)\<rparr>))"
proof -
  have d: "distinct (map wt_promise (aq_waiters q))" using assms(1) by (simp add: order_ok_def)
  obtain a b where ab: "aq_waiters q = a @ w # b" "remove1 w (aq_waiters q) = a @ b"
    using remove1_split[OF d assms(2)] by blast
  show ?thesis using assms(1) ab
    by (auto simp: order_ok_def settle_promise_def service_order_def sorted_wrt_append)
qed

section \<open>Every event keeps it\<close>

lemma settle_slots [simp]: "slots_ok (settle_promise p v q) = slots_ok q"
  by (simp add: slots_ok_def settle_promise_def held_def)

lemma next_slots [simp]: "slots_ok (q\<lparr>aq_next := n\<rparr>) = slots_ok q"
  by (simp add: slots_ok_def held_def)

lemma settle_promise_simps [simp]:
  "aq_capacity (settle_promise p v q) = aq_capacity q" "aq_maxQueued (settle_promise p v q) = aq_maxQueued q"
  "aq_waiters (settle_promise p v q) = aq_waiters q" "aq_permits (settle_promise p v q) = aq_permits q"
  "aq_activeSlots (settle_promise p v q) = aq_activeSlots q" "aq_next (settle_promise p v q) = aq_next q"
  "aq_settled (settle_promise p v q) = aq_settled q @ [(p, v)]"
  by (simp_all add: settle_promise_def)

definition admission_inv :: "admission \<Rightarrow> bool" where
  "admission_inv q \<longleftrightarrow> slots_ok q \<and> order_ok q"

lemma find_waiter: "find (\<lambda>w. wt_promise w = p) ws = Some w \<Longrightarrow> w \<in> set ws \<and> wt_promise w = p"
  by (auto simp: find_Some_iff)

lemma inv_cancel:
  assumes "admission_inv q"
  shows "admission_inv (cancel_waiter now p e oc q)"
proof (cases "find (\<lambda>w. wt_promise w = p) (aq_waiters q)")
  case (Some w)
  then have w: "w \<in> set (aq_waiters q)" "wt_promise w = p" using find_waiter by blast+
  have o: "order_ok (settle_promise (wt_promise w) (Refused e) (q\<lparr>aq_waiters := remove1 w (aq_waiters q)\<rparr>))"
    using assms w by (intro order_cancel) (auto simp: admission_inv_def)
  have s: "slots_ok (q\<lparr>aq_waiters := remove1 w (aq_waiters q)\<rparr>)"
    using assms w by (auto simp: admission_inv_def slots_ok_def held_def length_remove1 split: if_splits)
  have "order_ok (settle_promise p (Refused e) (recordWait now w q'\<lparr>aq_cancelledRequests := c\<rparr>)) = order_ok (settle_promise p (Refused e) q')"
    "order_ok (settle_promise p (Refused e) (recordWait now w q'\<lparr>aq_timedOutRequests := c\<rparr>)) = order_ok (settle_promise p (Refused e) q')" for q' c
    by (simp_all add: order_ok_def service_order_def)
  then show ?thesis using Some o s w
    by (cases oc) (simp_all add: cancel_waiter_def admission_inv_def Let_def)
qed (use assms in \<open>simp add: cancel_waiter_def\<close>)

lemma inv_release:
  assumes "admission_inv q"
  shows "admission_inv (release_permit now k q)"
proof (cases "k < length (aq_permits q) \<and> \<not> aq_permits q ! k")
  case True
  let ?q = "q\<lparr>aq_permits := (aq_permits q)[k := True]\<rparr>"
  have h: "Suc (held ?q) = held q" using True held_release by (simp add: held_def)
  have o: "order_ok ?q" using assms by (simp add: admission_inv_def order_ok_def service_order_def)
  show ?thesis
  proof (cases "aq_waiters q")
    case Nil
    then show ?thesis using True h o assms
      by (auto simp: release_permit_def admission_releaseSlot_def admission_inv_def slots_ok_def held_def order_ok_def service_order_def)
  next
    case (Cons w ws)
    let ?r = "recordWait now w (?q\<lparr>aq_waiters := ws\<rparr>)"
    have g: "grant (wt_promise w) ?r = recordWait now w (grant (wt_promise w) (?q\<lparr>aq_waiters := ws\<rparr>))"
      by (simp add: grant_def settle_promise_def recordWait_def Let_def)
    have "order_ok (grant (wt_promise w) (?q\<lparr>aq_waiters := ws\<rparr>))" using o Cons by (intro order_grant_head) simp_all
    moreover have "slots_ok (grant (wt_promise w) (?q\<lparr>aq_waiters := ws\<rparr>))"
      using assms h Cons by (auto simp: admission_inv_def slots_ok_def grant_def held_def)
    ultimately show ?thesis using True Cons g by (simp add: release_permit_def admission_releaseSlot_def admission_inv_def)
  qed
qed (use assms in \<open>auto simp: release_permit_def\<close>)

lemma inv_refuse_new:
  assumes "admission_inv q"
  shows "admission_inv (settle_promise (aq_next q) (Refused e) (q\<lparr>aq_next := Suc (aq_next q)\<rparr>))"
  using assms order_refuse_new[of q e] by (simp add: admission_inv_def)

lemma inv_refuse_counted:
  assumes "admission_inv q"
  shows "admission_inv (settle_promise (aq_next q) (Refused e) (q\<lparr>aq_next := Suc (aq_next q), aq_cancelledRequests := c\<rparr>))"
    and "admission_inv (settle_promise (aq_next q) (Refused e) (q\<lparr>aq_next := Suc (aq_next q), aq_timedOutRequests := c\<rparr>))"
proof -
  let ?s = "settle_promise (aq_next q) (Refused e) (q\<lparr>aq_next := Suc (aq_next q)\<rparr>)"
  have e: "settle_promise (aq_next q) (Refused e) (q\<lparr>aq_next := Suc (aq_next q), aq_cancelledRequests := c\<rparr>) =
        ?s\<lparr>aq_cancelledRequests := c\<rparr>"
      "settle_promise (aq_next q) (Refused e) (q\<lparr>aq_next := Suc (aq_next q), aq_timedOutRequests := c\<rparr>) =
        ?s\<lparr>aq_timedOutRequests := c\<rparr>"
    by (simp_all add: settle_promise_def)
  show "admission_inv (settle_promise (aq_next q) (Refused e) (q\<lparr>aq_next := Suc (aq_next q), aq_cancelledRequests := c\<rparr>))"
    "admission_inv (settle_promise (aq_next q) (Refused e) (q\<lparr>aq_next := Suc (aq_next q), aq_timedOutRequests := c\<rparr>))"
    unfolding e using inv_refuse_new[OF assms, of e] by (simp_all add: admission_inv_def)
qed

lemma inv_acquire:
  assumes I: "admission_inv q"
  shows "admission_inv (acquire_slot now rq q)"
proof -
  let ?p = "aq_next q"
  have grant: "admission_inv (grant ?p (q\<lparr>aq_next := Suc ?p, aq_activeSlots := aq_activeSlots q + 1\<rparr>))"
    if "aq_activeSlots q < aq_capacity q" "aq_waiters q = []"
    using I that order_grant_new[of q "aq_activeSlots q + 1"] by (auto simp: admission_inv_def slots_ok_def grant_def held_def)
  have wait: "admission_inv (q\<lparr>aq_next := Suc ?p, aq_waiters := aq_waiters q @ [w]\<rparr>)"
    if "wt_promise w = ?p" "\<not> (aq_activeSlots q < aq_capacity q \<and> aq_waiters q = [])" "int (length (aq_waiters q)) < aq_maxQueued q" for w
    using I that order_wait_new[of q w] by (auto simp: admission_inv_def slots_ok_def held_def)
  show ?thesis
    unfolding acquire_slot_def Let_def
    using grant wait inv_refuse_new[OF I] inv_refuse_counted[OF I]
    by (simp add: inv_cancel split: option.split prod.split)
qed

lemma inv_abort: "admission_inv q \<Longrightarrow> admission_inv (abort_event now sg r q)"
proof -
  have "admission_inv q \<Longrightarrow> admission_inv (fold (\<lambda>w. cancel_waiter now (wt_promise w) e WasCancelled) ws q)" for ws e
    by (induction ws arbitrary: q) (simp_all add: inv_cancel)
  then show "admission_inv q \<Longrightarrow> admission_inv (abort_event now sg r q)" by (simp add: abort_event_def)
qed

lemma inv_timer: "admission_inv q \<Longrightarrow> admission_inv (timer_event now p q)"
  by (auto simp: timer_event_def inv_cancel split: option.split)

lemma inv_start: "newAdmissionQueue c m t = Ok q \<Longrightarrow> admission_inv q"
  by (auto simp: newAdmissionQueue_def admission_inv_def slots_ok_def order_ok_def held_def service_order_def
      split: option.splits if_splits)

lemma admission_reach_inv: "admission_reach q \<Longrightarrow> admission_inv q"
  by (induction rule: admission_reach.induct) (simp_all add: inv_start inv_acquire inv_release inv_abort inv_timer)

section \<open>The lease of a worker\<close>

record reservation =
  rv_release :: nat
  rv_transferred :: bool
  rv_finalized :: bool

definition createCodemodeWorkerReservation :: "nat \<Rightarrow> reservation" where
  "createCodemodeWorkerReservation k = \<lparr>rv_release = k, rv_transferred = False, rv_finalized = False\<rparr>"

datatype worker_error = ExecutionSettled | WorkerAborted abort_error | DeadlineExpired | TransferredTwice

text \<open>The arguments are what the options answer: settled, the fired signal's reason, the time that remains.\<close>

definition acquireWorker :: "bool \<Rightarrow> abort_reason option \<Rightarrow> rat \<Rightarrow> reservation \<Rightarrow> (worker_error, nat) res \<times> reservation" where
  "acquireWorker executionSettled aborted remainingMs v =
     (if rv_finalized v \<or> executionSettled then (Throw ExecutionSettled, v)
      else case aborted of
        Some r \<Rightarrow> (Throw (WorkerAborted (createCodemodeAbortError r)), v)
      | None \<Rightarrow>
          if remainingMs \<le> 0 then (Throw DeadlineExpired, v)
          else if rv_transferred v then (Throw TransferredTwice, v)
          else (Ok (rv_release v), v\<lparr>rv_transferred := True\<rparr>))"

definition releaseIfUntransferred :: "rat option \<Rightarrow> reservation \<Rightarrow> admission \<Rightarrow> reservation \<times> admission" where
  "releaseIfUntransferred now v q =
     (if rv_finalized v then (v, q)
      else (v\<lparr>rv_finalized := True\<rparr>, if rv_transferred v then q else release_permit now (rv_release v) q))"

definition maxActiveWorkers :: int where "maxActiveWorkers = 2"

definition maxQueuedRequests :: int where "maxQueuedRequests = 8"

definition sharedCodemodeWorkerAdmission :: "(admission_error, admission) res" where
  "sharedCodemodeWorkerAdmission = newAdmissionQueue (Some maxActiveWorkers) (Some maxQueuedRequests)
     [67, 111, 100, 101, 109, 111, 100, 101, 32, 119, 111, 114, 107, 101, 114]"

definition acquireCodemodeWorkerSlot :: "rat option \<Rightarrow> nat option \<Rightarrow> abort_reason option \<Rightarrow> rat option \<Rightarrow> admission \<Rightarrow> admission" where
  "acquireCodemodeWorkerSlot now signal aborted timeoutMs =
     acquire_slot now \<lparr>rq_signal = signal, rq_aborted = aborted, rq_abortedLater = None, rq_timeoutMs = Some timeoutMs\<rparr>"

text \<open>The calls on one reservation, with the permits handed to workers.\<close>

datatype reservation_call = CallAcquire bool "abort_reason option" rat | CallRelease "rat option"

fun reservation_calls ::
  "reservation_call list \<Rightarrow> reservation \<Rightarrow> nat list \<Rightarrow> admission \<Rightarrow> reservation \<times> nat list \<times> admission" where
  "reservation_calls [] v handed q = (v, handed, q)"
| "reservation_calls (CallAcquire st ab ms # cs) v handed q =
     (case acquireWorker st ab ms v of
        (Inl e, v') \<Rightarrow> reservation_calls cs v' handed q
      | (Inr k, v') \<Rightarrow> reservation_calls cs v' (handed @ [k]) q)"
| "reservation_calls (CallRelease now # cs) v handed q =
     (case releaseIfUntransferred now v q of (v', q') \<Rightarrow> reservation_calls cs v' handed q')"

definition lease_ok :: "nat \<Rightarrow> admission \<Rightarrow> reservation \<times> nat list \<times> admission \<Rightarrow> bool" where
  "lease_ok k q0 c \<longleftrightarrow> (case c of (v, handed, q) \<Rightarrow> rv_release v = k \<and>
     handed = (if rv_transferred v then [k] else []) \<and>
     (if rv_finalized v \<and> \<not> rv_transferred v then \<exists>now. q = release_permit now k q0 else q = q0))"

lemma reservation_calls_ok: "lease_ok k q0 (v, handed, q) \<Longrightarrow> lease_ok k q0 (reservation_calls cs v handed q)"
proof (induction cs v handed q rule: reservation_calls.induct)
  case (2 st ab ms cs v handed q)
  have t: "lease_ok k q0 (v', handed, q)" if "acquireWorker st ab ms v = (Inl e, v')" for e v'
    using 2(3) that by (auto simp: acquireWorker_def lease_ok_def split: option.splits if_splits)
  have g: "lease_ok k q0 (v', handed @ [j], q)" if "acquireWorker st ab ms v = (Inr j, v')" for j v'
    using 2(3) that by (auto simp: acquireWorker_def lease_ok_def split: option.splits if_splits)
  obtain x v' where x: "acquireWorker st ab ms v = (x, v')" by fastforce
  show ?case using 2(1)[OF x[symmetric]] 2(2)[OF x[symmetric]] t g x by (cases x) auto
next
  case (3 now cs v handed q)
  have "lease_ok k q0 (v', handed, q')" if "releaseIfUntransferred now v q = (v', q')" for v' q'
    using 3(2) that by (auto simp: releaseIfUntransferred_def lease_ok_def split: if_splits)
  then show ?case using 3(1) by (auto split: prod.split)
qed simp

section \<open>What the queue guarantees\<close>

definition hold_one :: admission_request where
  "hold_one = \<lparr>rq_signal = None, rq_aborted = None, rq_abortedLater = None, rq_timeoutMs = None\<rparr>"

definition demo_admission :: admission where
  "demo_admission = acquire_slot (Some 1) hold_one (acquire_slot (Some 0) hold_one
     (case newAdmissionQueue (Some 1) (Some 1) [97] of Inr q \<Rightarrow> q | Inl e \<Rightarrow> undefined))"

lemma demo_admission_reach: "admission_reach demo_admission"
  unfolding demo_admission_def
  by (rule admission_reach.acquire[OF admission_reach.acquire[OF admission_reach.start[of "Some 1" "Some 1" "[97]"]]])
    (simp add: newAdmissionQueue_def js_trim_def js_space_def)

lemma demo_admission_value: "aq_waiters demo_admission = [\<lparr>wt_promise = 1, wt_queuedAt = Some 1, wt_signal = None, wt_timeout = None\<rparr>]"
  "aq_permits demo_admission = [False]" "aq_settled demo_admission = [(0, Granted 0)]" "aq_next demo_admission = 2"
  "aq_activeSlots demo_admission = 1" "aq_capacity demo_admission = 1" "aq_maxQueued demo_admission = 1"
  by (simp_all add: demo_admission_def newAdmissionQueue_def js_trim_def js_space_def acquire_slot_def hold_one_def Let_def
      grant_def settle_promise_def)

text \<open>
  In every reachable queue the active slots are the permits not yet released and never more than the
  capacity; at most \<open>maxQueued\<close> requests wait, and they wait only while all slots are in use.
\<close>

lemma admission_bounded:
  assumes "admission_reach q"
  shows "aq_activeSlots q = int (length (filter Not (aq_permits q))) \<and> 0 \<le> aq_activeSlots q \<and>
    aq_activeSlots q \<le> aq_capacity q \<and> int (length (aq_waiters q)) \<le> aq_maxQueued q \<and>
    (aq_waiters q \<noteq> [] \<longrightarrow> aq_activeSlots q = aq_capacity q \<and> 1 \<le> aq_capacity q)"
  using admission_reach_inv[OF assms] by (auto simp: admission_inv_def slots_ok_def held_def)

lemma admission_bounded_witness: "aq_activeSlots demo_admission \<le> 1 \<and> int (length (aq_waiters demo_admission)) \<le> 1"
  using admission_bounded[OF demo_admission_reach] demo_admission_value(6,7) by simp

text \<open>Every permit of the list is held when its release is called.\<close>

fun all_held :: "(rat option \<times> nat) list \<Rightarrow> admission \<Rightarrow> bool" where
  "all_held [] q = True"
| "all_held ((now, k) # rs) q = (k < length (aq_permits q) \<and> \<not> aq_permits q ! k \<and> all_held rs (release_permit now k q))"

fun releases :: "(rat option \<times> nat) list \<Rightarrow> admission \<Rightarrow> admission" where
  "releases [] q = q"
| "releases ((now, k) # rs) q = releases rs (release_permit now k q)"

lemma release_head:
  assumes "k < length (aq_permits q)" and "\<not> aq_permits q ! k" and "aq_waiters q = w # ws"
  shows "aq_waiters (release_permit now k q) = ws" "length (aq_permits (release_permit now k q)) = Suc (length (aq_permits q))"
    "aq_settled (release_permit now k q) = aq_settled q @ [(wt_promise w, Granted (length (aq_permits q)))]"
    "aq_activeSlots (release_permit now k q) = aq_activeSlots q"
  using assms by (simp_all add: release_permit_def admission_releaseSlot_def grant_def)

lemma releases_serve:
  assumes "all_held rs q" and "length rs \<le> length (aq_waiters q)"
  shows "aq_waiters (releases rs q) = drop (length rs) (aq_waiters q) \<and>
    aq_settled (releases rs q) = aq_settled q @ zip (map wt_promise (take (length rs) (aq_waiters q)))
      (map Granted [length (aq_permits q)..<length (aq_permits q) + length rs]) \<and>
    aq_activeSlots (releases rs q) = aq_activeSlots q"
  using assms
proof (induction rs q rule: all_held.induct)
  case (2 now k rs q)
  then obtain w ws where W: "aq_waiters q = w # ws" by (cases "aq_waiters q") auto
  have h: "k < length (aq_permits q)" "\<not> aq_permits q ! k" using 2(2) by simp_all
  note R = release_head[OF h W, of now]
  have u: "[n..<n + length ((now, k) # rs)] = n # [Suc n..<Suc n + length rs]" for n
    by (simp add: upt_conv_Cons del: upt_Suc)
  show ?case using 2 R W unfolding u by simp
qed simp

text \<open>
  Slots are served first come, first served: the promises that got a slot, then those that wait, are in the
  order of the calls, every call is settled exactly once or waits, and releasing \<open>n\<close> held permits one
  after the other grants fresh permits to the first \<open>n\<close> waiters in their order.
\<close>

lemma admission_fifo:
  assumes "admission_reach q" and "all_held rs q" and "length rs \<le> length (aq_waiters q)"
  shows "sorted_wrt (<) (map fst (filter is_grant (aq_settled q)) @ map wt_promise (aq_waiters q)) \<and>
    distinct (map fst (aq_settled q) @ map wt_promise (aq_waiters q)) \<and>
    set (map fst (aq_settled q) @ map wt_promise (aq_waiters q)) = {..<aq_next q} \<and>
    aq_settled (releases rs q) = aq_settled q @ zip (map wt_promise (take (length rs) (aq_waiters q)))
      (map Granted [length (aq_permits q)..<length (aq_permits q) + length rs]) \<and>
    aq_waiters (releases rs q) = drop (length rs) (aq_waiters q)"
  using admission_reach_inv[OF assms(1)] releases_serve[OF assms(2,3)]
  by (simp add: admission_inv_def order_ok_def service_order_def)

lemma admission_fifo_witness: "aq_settled (releases [(Some 5, 0)] demo_admission) = [(0, Granted 0), (1, Granted 1)]"
  using admission_fifo[OF demo_admission_reach, of "[(Some 5, 0)]"] by (simp add: demo_admission_value)

text \<open>
  Whatever is called on a reservation, in any order and number, its permit is handed to at most one
  worker; when it has been finalized without a worker it has released the permit (a second call
  releases nothing), and otherwise it never touches the queue: the permit has exactly one owner.
\<close>

lemma worker_lease_single_owner:
  "case reservation_calls cs (createCodemodeWorkerReservation k) [] q of (v, handed, q') \<Rightarrow>
     handed = (if rv_transferred v then [k] else []) \<and>
     (if rv_finalized v \<and> \<not> rv_transferred v then \<exists>now. q' = release_permit now k q else q' = q)"
proof -
  have "lease_ok k q (createCodemodeWorkerReservation k, [], q)"
    by (simp add: lease_ok_def createCodemodeWorkerReservation_def)
  from reservation_calls_ok[OF this, of cs] show ?thesis
    by (cases "reservation_calls cs (createCodemodeWorkerReservation k) [] q") (simp add: lease_ok_def)
qed

end
