(* ===== verification/Spec2Isabelle.thy ===== *)
theory Spec2Isabelle
  imports Framing CborProofs Codec Leases MutationQueue Json EntryContract MemoryBackend
    SessionTree SchedulerProperties Editor GhostText Typography RpcLimits
    Clipboard Widgets Stages ResponseCache CacheKey Ledger Frames Reducer Admission
begin

text \<open>
  Verification library of inkpi, a writing-agent system: a TypeScript monorepo whose parts are the
  directories of \<open>src/packages\<close>. A client talks to a daemon (\<open>server\<close>) over framed or line-based RPC
  (\<open>protocol\<close>, \<open>client\<close>); the daemon runs agents and their tasks (\<open>agent-core\<close>), which call model
  providers (\<open>ai\<close>) and keep sessions and documents (\<open>session-backends\<close>, \<open>storage\<close>); \<open>editor-core\<close> and \<open>tui\<close>
  are the writer's side. The library models the parts that carry the system's own logic and have
  state, limits, orders or formats to get wrong.

  How the code is read. A call, from its start to the next point where it suspends, is one function
  of the state; a \<open>throw\<close> is \<open>Inl\<close> of a component's error type and a value \<open>Inr\<close> (\<open>Throw\<close>, \<open>Ok\<close> in
  \<open>InkPrelude\<close>), paired with the state left behind where the code mutates before it throws. Class
  instances are records, unions are datatypes, a \<open>Map\<close> is an association list in insertion order (a
  HOL map where the order is never seen), objects that are shared and mutated live in a store and
  are addresses. Strings are lists of UTF-16 code units. Clocks, generated ids, the outcome of
  callbacks and of the host are arguments; calls of listeners and of \<open>resolve\<close> and \<open>reject\<close> are logs.
  Concurrency is a step relation whose steps are the synchronous pieces of code.

  The wire (\<open>packages/protocol/src\<close>).
  \<^item> \<open>Utf8\<close>: the standard \<open>TextEncoder\<close> and \<open>TextDecoder\<close>, with their round trip; \<open>JsText\<close>: \<open>slice\<close>, \<open>split\<close>, \<open>join\<close>.
  \<^item> \<open>Framing\<close> (\<open>framing.ts\<close>): the incremental decoder refines splitting the whole stream
    (\<open>parse_frames\<close>) and always returns on states it can reach.
  \<^item> \<open>Cbor\<close>, \<open>CborProofs\<close> (\<open>cbor/encoder.ts\<close>, \<open>decoder.ts\<close>, \<open>options.ts\<close>): when encoding succeeds and what it
    writes, decoding as its inverse, the limits a decoded value respects. The decoder recurses on
    the depth limit and on the bytes left, which both shrink.
  \<^item> \<open>Codec\<close> (\<open>codec.ts\<close>): payload streams, over the locale \<open>payload_format\<close>, interpreted with CBOR.
  \<^item> \<open>Json\<close> (\<open>json.ts\<close>): which heap values cross the boundary, against the relation \<open>denotes\<close>.
  \<^item> \<open>RpcLimits\<close> (\<open>rpc-limits.ts\<close>, \<open>rpc-buffered-send.ts\<close>): limits, line reassembly, bytes in flight, the
    settlement of sends.

  Sessions and storage (\<open>packages/session-backends/src\<close>, \<open>packages/storage/src\<close>, \<open>packages/agent-core/src\<close>).
  \<^item> \<open>EntryContract\<close> (\<open>entry-contract.ts\<close>): accepted batches, paging, forks; \<open>MemoryBackend\<close> (\<open>memory.ts\<close>): the
    backend, which interprets the locales \<open>session_backend\<close> and \<open>paged_backend\<close>.
  \<^item> \<open>Leases\<close> (\<open>leases.ts\<close>): fenced writer leases, which interpret the locale \<open>fenced_lock\<close>;
    \<open>MutationQueue\<close> (\<open>mutation-queue.ts\<close>): per-document workers running under such leases.
  \<^item> \<open>SessionTree\<close> (\<open>tree.ts\<close>): the message tree; walks to the root return because parents are older than
    their children (locale \<open>ancestor_forest\<close>, measure the position in the node list).

  Recovery after a crash (\<open>packages/agent-core/src\<close>).
  \<^item> \<open>Frames\<close> (\<open>turn/assistant-frames.ts\<close>, the listener of \<open>turn/stream-invoker.ts\<close>): the frames that persist an
    answer while it streams rebuild what the stream said, and the text and thinking that were on the screen.
  \<^item> \<open>Reducer\<close> (\<open>reducer/session-reducer.ts\<close>, \<open>tool-replay-contract.ts\<close>): the session state computed from the
    journal, which does not depend on the order in which the tools of a turn finished, and the plans for the tool
    calls a crash interrupted: which are run again (\<open>may_replay\<close>), and that none with a journalled result is.

  Task execution (\<open>packages/agent-core/src/lifecycle/scheduler.ts\<close>).
  \<^item> \<open>PriorityQueue\<close>: the indexed binary heap, correct for every \<open>comparison\<close> (a locale, interpreted in
    \<open>SchedulerInv\<close> with the two orders of the code).
  \<^item> \<open>Scheduler\<close>: every operation of \<open>TaskScheduler\<close> and the relation \<open>sched_step\<close> of calls, timers and task
    outcomes; \<open>SchedulerInv\<close>, \<open>SchedulerPump\<close>, \<open>SchedulerProofs\<close>: the invariant \<open>sched_inv\<close> and its
    preservation by each; \<open>SchedulerProperties\<close>: what clients rely on. The pump terminates because each
    round pops a queue.
  \<^item> \<open>Admission\<close> (\<open>packages/agent-core/src/codemode-admission.ts\<close>): the bounded first-come queue of worker permits
    and the reservation that hands a permit to one owner.

  Caching (\<open>packages/server/src/provider-response-cache.ts\<close>,
  \<open>packages/agent-core/src/context/cache-contract.ts\<close>).
  \<^item> \<open>ResponseCache\<close>: the bounded cache of provider responses, what it may return and what it evicts, and
    the coordinator of the cache layers; the eviction loop ends because each round drops an entry.
  \<^item> \<open>CacheKey\<close>: the serializer behind the cache keys, injective up to the order of object entries, so
    that requests of different workspaces never share a key.

  Review of proposed changes (\<open>packages/agent-core/src/proposals/domain-proposal-ledger.ts\<close>,
  \<open>packages/protocol/src/domain-proposal.ts\<close>).
  \<^item> \<open>Ledger\<close>: proposals, their review, commit and undo around the wait for the store, over the relation
    \<open>ledger_step\<close>; which patches reach the store, and three orders of calls in which review
    is bypassed, an undo is repeated or a receipt names the wrong patch.

  The writer's side (\<open>packages/editor-core/src\<close>, \<open>packages/agent-core/src\<close>, \<open>packages/tui/src\<close>).
  \<^item> \<open>Editor\<close> (\<open>state.ts\<close>): text edits, undo and redo, the word-count cache; \<open>GhostText\<close> (\<open>ghost-text.ts\<close>,
    \<open>ime.ts\<close>): partial acceptance of suggestions over the editor; \<open>Typography\<close> (\<open>typography.ts\<close>).
  \<^item> \<open>Clipboard\<close> (\<open>clipboard/kill-ring.ts\<close>, \<open>clipboard/fuzzy.ts\<close>, \<open>queues.ts\<close>), \<open>Stages\<close>
    (\<open>pipeline/stage-registry.ts\<close>), \<open>Widgets\<close> (\<open>select-list.ts\<close>, \<open>scroll-view.ts\<close>).

  Properties are the lemmas preceded by a block with their number. A property with a hypothesis is
  followed by a closed instance at a concrete input (\<open>_witness\<close>). There is no fuel in the library:
  every loop is structural, has a measure, or is a partial function proved to return on reachable
  states.

  Not modelled: model providers and other network clients, SQL text, files, sockets and process
  entry points (input, output and glue around the parts above); rendering of terminal screens, which
  reads the state and does not change it; the Unicode tables behind case mapping, collation and grapheme
  segmentation, which are arguments where a modelled function uses them; the agent loop, task
  router and context assembly, whose behaviour is mostly policy over provider output; evaluation harnesses and build scripts.
\<close>

end
